(* ===== verification/Prelude.thy ===== *)
theory Prelude
  imports Main "HOL-Library.Word" "HOL-Library.Multiset"
begin

text \<open>
  Shared vocabulary of the development: the machine integers of the Rust sources, Rust's
  \<^verbatim>\<open>Result\<close> with its \<^verbatim>\<open>?\<close> operator, the fixed-width integer methods the code calls
  (\<^verbatim>\<open>checked_add\<close>, \<^verbatim>\<open>saturating_sub\<close>, \<^verbatim>\<open>to_be_bytes\<close>, \<^verbatim>\<open>from_be_bytes\<close>), and two
  interfaces the components share:
  \<^item> \<open>prefix_code\<close>: an encoder into bytes whose images can be cut off the front of any
    byte string in one way only (every length-framed writer of the repository);
  \<^item> \<open>fallible_machine\<close>: a state with operations that return a \<^verbatim>\<open>Result\<close> and keep an
    invariant, and \<open>atomic_machine\<close>, where an error leaves the state as it was.
  Arithmetic operators on \<open>word\<close> types wrap, as they do in the release profile that
  \<^verbatim>\<open>Cargo.toml\<close> configures (it sets no \<^verbatim>\<open>overflow-checks\<close>).
\<close>

section \<open>Types\<close>

type_synonym u8 = "8 word"
type_synonym u16 = "16 word"
type_synonym u32 = "32 word"
type_synonym u64 = "64 word"

type_synonym ('a, 'e) result = "'e + 'a"

named_theorems enc_defs \<open>definitions of the byte writers\<close>

section \<open>Results\<close>

text \<open>\<^verbatim>\<open>r?\<close> followed by the rest of the function body.\<close>

fun and_then :: "('a, 'e) result \<Rightarrow> ('a \<Rightarrow> ('b, 'e) result) \<Rightarrow> ('b, 'e) result" where
  "and_then (Inl e) f = Inl e"
| "and_then (Inr a) f = f a"

fun map_err :: "('e \<Rightarrow> 'f) \<Rightarrow> ('a, 'e) result \<Rightarrow> ('a, 'f) result" where
  "map_err g (Inl e) = Inl (g e)"
| "map_err g (Inr a) = Inr a"

fun ok_or :: "'a option \<Rightarrow> 'e \<Rightarrow> ('a, 'e) result" where
  "ok_or None e = Inl e"
| "ok_or (Some a) e = Inr a"

lemma and_then_cong [fundef_cong]:
  "r = r' \<Longrightarrow> (\<And>a. r' = Inr a \<Longrightarrow> f a = g a) \<Longrightarrow> and_then r f = and_then r' g"
  by (cases r') auto

lemma and_then_eq_Inr: "and_then r f = Inr b \<longleftrightarrow> (\<exists>a. r = Inr a \<and> f a = Inr b)"
  by (cases r) auto

lemma and_then_eq_Inl:
  "and_then r f = Inl e \<longleftrightarrow> r = Inl e \<or> (\<exists>a. r = Inr a \<and> f a = Inl e)"
  by (cases r) auto

lemma map_err_eq_Inr [simp]: "map_err g r = Inr a \<longleftrightarrow> r = Inr a"
  by (cases r) auto

lemma map_err_eq_Inl: "map_err g r = Inl e \<longleftrightarrow> (\<exists>d. r = Inl d \<and> e = g d)"
  by (cases r) auto

lemma ok_or_eq_Inr [simp]: "ok_or x e = Inr a \<longleftrightarrow> x = Some a"
  by (cases x) auto

lemma ok_or_eq_Inl [simp]: "ok_or x e = Inl d \<longleftrightarrow> x = None \<and> d = e"
  by (cases x) auto

section \<open>Fixed-width integers\<close>

definition checked_add :: "'l::len word \<Rightarrow> 'l word \<Rightarrow> 'l word option" where
  "checked_add a b = (if unat a + unat b < 2 ^ LENGTH('l) then Some (a + b) else None)"

definition saturating_add :: "'l::len word \<Rightarrow> 'l word \<Rightarrow> 'l word" where
  "saturating_add a b = (if unat a + unat b < 2 ^ LENGTH('l) then a + b else - 1)"

definition saturating_sub :: "'l::len word \<Rightarrow> 'l word \<Rightarrow> 'l word" where
  "saturating_sub a b = (if a < b then 0 else a - b)"

lemma checked_add_Some: "checked_add a b = Some c \<Longrightarrow> unat c = unat a + unat b"
  by (auto simp: checked_add_def unat_word_ariths split: if_splits)

lemma checked_add_None_iff:
  "checked_add (a::'l::len word) b = None \<longleftrightarrow> 2 ^ LENGTH('l) \<le> unat a + unat b"
  by (auto simp: checked_add_def)

lemma unat_add_no_overflow:
  "unat (a::'l::len word) + unat b < 2 ^ LENGTH('l) \<Longrightarrow> unat (a + b) = unat a + unat b"
  by (simp add: unat_word_ariths)

lemma unat_saturating_sub: "unat (saturating_sub a b) = unat a - unat b"
  by (auto simp: saturating_sub_def word_less_nat_alt unat_sub word_le_nat_alt)

lemma unat_bound_u8: "unat (w::u8) < 256"
  using unsigned_less[of w] by simp

lemma unat_bound_u16: "unat (w::u16) < 65536"
  using unsigned_less[of w] by simp

lemma unat_bound_u32: "unat (w::u32) < 4294967296"
  using unsigned_less[of w] by simp

lemma unat_bound_u64: "unat (w::u64) < 18446744073709551616"
  using unsigned_less[of w] by simp

lemma word_of_nat_inj_bound:
  "m < 2 ^ LENGTH('l) \<Longrightarrow> n < 2 ^ LENGTH('l) \<Longrightarrow>
   (word_of_nat m :: 'l::len word) = word_of_nat n \<Longrightarrow> m = n"
  by (drule arg_cong[where f = unat]) (simp add: unat_of_nat)

section \<open>Big-endian bytes\<close>

text \<open>\<open>be_bytes n v\<close> is \<^verbatim>\<open>to_be_bytes\<close> of an \<open>n\<close>-byte unsigned integer.\<close>

primrec be_bytes :: "nat \<Rightarrow> nat \<Rightarrow> u8 list" where
  "be_bytes 0 v = []"
| "be_bytes (Suc n) v = word_of_nat (v div 256 ^ n) # be_bytes n v"

definition from_be_bytes :: "u8 list \<Rightarrow> nat" where
  "from_be_bytes bs = foldl (\<lambda>a b. a * 256 + unat b) 0 bs"

lemma length_be_bytes [simp]: "length (be_bytes n v) = n"
  by (induction n) auto

lemma foldl_be_bytes:
  "foldl (\<lambda>a b. a * 256 + unat b) acc (be_bytes n v) = acc * 256 ^ n + v mod 256 ^ n"
proof (induction n arbitrary: acc)
  case 0
  then show ?case by simp
next
  case (Suc n)
  have d: "v mod 256 ^ Suc n = (v div 256 ^ n) mod 256 * 256 ^ n + v mod 256 ^ n"
    using mod_mult2_eq[of v "256 ^ n" 256] by (simp add: mult.commute)
  have u: "unat (word_of_nat (v div 256 ^ n) :: u8) = (v div 256 ^ n) mod 256"
    by (simp add: unat_of_nat)
  show ?case
    unfolding be_bytes.simps foldl_Cons Suc.IH u d by (simp add: algebra_simps)
qed

lemma from_be_bytes_be_bytes: "from_be_bytes (be_bytes n v) = v mod 256 ^ n"
  by (simp add: from_be_bytes_def foldl_be_bytes)

lemma be_bytes_inj:
  assumes "be_bytes n v = be_bytes n w" "v < 256 ^ n" "w < 256 ^ n"
  shows "v = w"
proof -
  have "v mod 256 ^ n = w mod 256 ^ n"
    using assms(1) by (metis from_be_bytes_be_bytes)
  then show ?thesis using assms(2,3) by (simp only: mod_less)
qed

lemma foldl_be_bound:
  "foldl (\<lambda>a b. a * 256 + unat b) acc (bs::u8 list) < (acc + 1) * 256 ^ length bs"
proof (induction bs arbitrary: acc)
  case Nil
  then show ?case by simp
next
  case (Cons b bs)
  have "foldl (\<lambda>a b. a * 256 + unat b) (acc * 256 + unat b) bs
          < (acc * 256 + unat b + 1) * 256 ^ length bs"
    by (rule Cons.IH)
  also have "(acc * 256 + unat b + 1) * 256 ^ length bs \<le> ((acc + 1) * 256) * 256 ^ length bs"
    using unat_bound_u8[of b] by (intro mult_le_mono1) simp
  finally show ?case by (simp add: algebra_simps)
qed

lemma from_be_bytes_bound: "from_be_bytes bs < 256 ^ length bs"
  using foldl_be_bound[of 0 bs] by (simp add: from_be_bytes_def)

text \<open>Bytes of a Rust string: its UTF-8 encoding, one \<open>char\<close> per byte.\<close>

definition as_bytes :: "string \<Rightarrow> u8 list" where
  "as_bytes s = map of_char s"

lemma of_char_u8_inj: "(of_char c :: u8) = of_char d \<Longrightarrow> c = d"
proof -
  assume "(of_char c :: u8) = of_char d"
  then have "(word_of_nat (of_char c) :: u8) = word_of_nat (of_char d)"
    by (simp only: of_nat_of_char)
  moreover have "(of_char c :: nat) < 2 ^ LENGTH(8)" "(of_char d :: nat) < 2 ^ LENGTH(8)"
    using of_char_mod_256[of c] of_char_mod_256[of d] by (simp_all add: mod_eq_self_iff_div_eq_0)
  ultimately have "(of_char c :: nat) = of_char d" by (rule word_of_nat_inj_bound[rotated 2])
  then show "c = d" by simp
qed

lemma as_bytes_inj: "as_bytes s = as_bytes t \<longleftrightarrow> s = t"
  unfolding as_bytes_def by (rule inj_map_eq_map, rule injI, erule of_char_u8_inj)

lemma length_as_bytes [simp]: "length (as_bytes s) = length s"
  by (simp add: as_bytes_def)

section \<open>Interface: byte encoders that can be cut off a stream\<close>

text \<open>
  \<open>dom\<close> is the set of values the encoder is used on (for a length-framed string: those whose
  length fits the frame). The law says that the encoding of one value is never a proper prefix
  of the encoding of another, so a reader of the stream recovers the value and the rest.
\<close>

locale prefix_code =
  fixes enc :: "'a \<Rightarrow> u8 list"
    and dom :: "'a \<Rightarrow> bool"
  assumes cut: "dom a \<Longrightarrow> dom b \<Longrightarrow> enc a @ r = enc b @ s \<Longrightarrow> a = b \<and> r = s"
begin

lemma enc_inj: "dom a \<Longrightarrow> dom b \<Longrightarrow> enc a = enc b \<Longrightarrow> a = b"
  using cut[of a b "[]" "[]"] by simp

lemma concat_cut:
  assumes "list_all dom xs" "list_all dom ys" "length xs = length ys"
    and "concat (map enc xs) @ r = concat (map enc ys) @ s"
  shows "xs = ys \<and> r = s"
  using assms(3,1,2,4)
proof (induction xs ys rule: list_induct2)
  case Nil
  then show ?case by simp
next
  case (Cons x xs y ys)
  then show ?case
    using cut[of x y "concat (map enc xs) @ r" "concat (map enc ys) @ s"] by simp
qed

end

text \<open>A list written as its length in four bytes and then its elements is such a code again.\<close>

lemma be_bytes_cut:
  "v < 256 ^ n \<Longrightarrow> w < 256 ^ n \<Longrightarrow> be_bytes n v @ r = be_bytes n w @ s \<Longrightarrow> v = w \<and> r = s"
  using be_bytes_inj[of n v w] by simp

context prefix_code
begin

lemma framed_list:
  "prefix_code (\<lambda>xs. be_bytes 4 (length xs) @ concat (map enc xs))
     (\<lambda>xs. length xs < 2 ^ 32 \<and> list_all dom xs)"
proof
  fix xs ys r s
  assume x: "length xs < 2 ^ 32 \<and> list_all dom xs" and y: "length ys < 2 ^ 32 \<and> list_all dom ys"
    and eq: "(be_bytes 4 (length xs) @ concat (map enc xs)) @ r
      = (be_bytes 4 (length ys) @ concat (map enc ys)) @ s"
  have "length xs = length ys \<and> concat (map enc xs) @ r = concat (map enc ys) @ s"
    using x y eq by (intro be_bytes_cut[of _ 4]) auto
  with x y concat_cut show "xs = ys \<and> r = s" by blast
qed

end

text \<open>Encoders compose: a value encoded as its first and then its second component.\<close>

locale prefix_code_pair = fst: prefix_code f d + snd: prefix_code g e
  for f :: "'a \<Rightarrow> u8 list" and d and g :: "'b \<Rightarrow> u8 list" and e
begin

lemma pair_cut:
  assumes "d a" "d a'" "e b" "e b'" and "f a @ g b @ r = f a' @ g b' @ s"
  shows "a = a' \<and> b = b' \<and> r = s"
  using fst.cut[OF assms(1,2,5)] snd.cut[OF assms(3,4)] by auto

end

section \<open>Interface: state machines with fallible operations\<close>

definition run_ops :: "('op \<Rightarrow> 's \<Rightarrow> ('r, 'e) result \<times> 's) \<Rightarrow> 'op list \<Rightarrow> 's \<Rightarrow> 's" where
  "run_ops step ops s = fold (\<lambda>op t. snd (step op t)) ops s"

text \<open>The operations of a run that returned \<^verbatim>\<open>Ok\<close>.\<close>

fun accepted :: "('op \<Rightarrow> 's \<Rightarrow> ('r, 'e) result \<times> 's) \<Rightarrow> 'op list \<Rightarrow> 's \<Rightarrow> 'op list" where
  "accepted step [] s = []"
| "accepted step (op # ops) s =
     (case step op s of
        (Inl e, t) \<Rightarrow> accepted step ops t
      | (Inr r, t) \<Rightarrow> op # accepted step ops t)"

lemma run_ops_simps [simp]:
  "run_ops step [] s = s"
  "run_ops step (op # ops) s = run_ops step ops (snd (step op s))"
  "run_ops step (ops @ ops') s = run_ops step ops' (run_ops step ops s)"
  by (simp_all add: run_ops_def)

locale fallible_machine =
  fixes step :: "'op \<Rightarrow> 's \<Rightarrow> ('r, 'e) result \<times> 's"
    and inv :: "'s \<Rightarrow> bool"
  assumes step_inv: "inv s \<Longrightarrow> inv (snd (step op s))"
begin

lemma run_inv: "inv s \<Longrightarrow> inv (run_ops step ops s)"
  by (induction ops arbitrary: s) (auto intro: step_inv)

end

locale atomic_machine = fallible_machine +
  assumes err_frame: "step op s = (Inl e, t) \<Longrightarrow> t = s"
begin

lemma run_accepted: "run_ops step (accepted step ops s) s = run_ops step ops s"
proof (induction ops arbitrary: s)
  case Nil
  then show ?case by simp
next
  case (Cons op ops)
  then show ?case
    by (cases "step op s") (auto split: sum.splits dest: err_frame)
qed

end

end
