(* ===== verification/Ids.thy ===== *)
theory Ids
  imports Prelude
begin

text \<open>
  \<^verbatim>\<open>mtg-kernel/src/ids.rs\<close>: player and object identities and the object arena. An arena is an
  append-only vector; the id of an object is its index, so ids stay valid for the whole game.
  \<^verbatim>\<open>Arena::get\<close> panics on an unknown id; here it returns no value.
\<close>

section \<open>Identities\<close>

datatype ObjectId = ObjectId (object_raw: u32)

datatype StackItemId = StackItemId (stack_raw: u64)

datatype PlayerId = PlayerId (player_raw: u8)

definition P0 :: PlayerId where
  "P0 = PlayerId 0"

definition P1 :: PlayerId where
  "P1 = PlayerId 1"

definition opponent :: "PlayerId \<Rightarrow> PlayerId" where
  "opponent p = PlayerId (1 - player_raw p)"

definition player_index :: "PlayerId \<Rightarrow> nat" where
  "player_index p = unat (player_raw p)"

text \<open>The two seats of a game, the only values the code's validators let through.\<close>

definition valid_player :: "PlayerId \<Rightarrow> bool" where
  "valid_player p \<longleftrightarrow> p = P0 \<or> p = P1"

instantiation ObjectId :: linorder
begin

definition less_eq_ObjectId :: "ObjectId \<Rightarrow> ObjectId \<Rightarrow> bool" where
  "less_eq_ObjectId a b \<longleftrightarrow> object_raw a \<le> object_raw b"

definition less_ObjectId :: "ObjectId \<Rightarrow> ObjectId \<Rightarrow> bool" where
  "less_ObjectId a b \<longleftrightarrow> object_raw a < object_raw b"

instance
  by standard (auto simp: less_eq_ObjectId_def less_ObjectId_def intro: ObjectId.expand)

end

section \<open>The arena\<close>

record 'a Arena =
  items :: "'a list"

definition arena_new :: "'a Arena" where
  "arena_new = \<lparr>items = []\<rparr>"

definition arena_push :: "'a Arena \<Rightarrow> 'a \<Rightarrow> ObjectId \<times> 'a Arena" where
  "arena_push a v =
     (ObjectId (word_of_nat (length (items a))), a\<lparr>items := items a @ [v]\<rparr>)"

definition arena_try_get :: "'a Arena \<Rightarrow> ObjectId \<Rightarrow> 'a option" where
  "arena_try_get a i =
     (if unat (object_raw i) < length (items a) then Some (items a ! unat (object_raw i)) else None)"

definition arena_set :: "'a Arena \<Rightarrow> ObjectId \<Rightarrow> 'a \<Rightarrow> 'a Arena option" where
  "arena_set a i v =
     (if unat (object_raw i) < length (items a)
      then Some (a\<lparr>items := (items a)[unat (object_raw i) := v]\<rparr>) else None)"

definition arena_len :: "'a Arena \<Rightarrow> nat" where
  "arena_len a = length (items a)"

definition arena_iter :: "'a Arena \<Rightarrow> (ObjectId \<times> 'a) list" where
  "arena_iter a = map (\<lambda>(i, v). (ObjectId (word_of_nat i), v)) (enumerate 0 (items a))"

text \<open>Fewer objects than \<^verbatim>\<open>u32\<close> ids: the range in which the \<^verbatim>\<open>as u32\<close> cast keeps the index.\<close>

definition arena_room :: "'a Arena \<Rightarrow> bool" where
  "arena_room a \<longleftrightarrow> length (items a) < 2 ^ 32"

section \<open>Lemmas\<close>

lemma valid_player_cases:
  assumes "valid_player p"
  obtains "p = P0" | "p = P1"
  using assms by (auto simp: valid_player_def)

lemma valid_playerI [simp, intro]: "valid_player P0" "valid_player P1"
  by (auto simp: valid_player_def)

lemma P0_neq_P1 [simp]: "P0 \<noteq> P1" "P1 \<noteq> P0"
  by (auto simp: P0_def P1_def)

lemma opponent_simps [simp]: "opponent P0 = P1" "opponent P1 = P0"
  by (simp_all add: opponent_def P0_def P1_def)

lemma player_index_simps [simp]: "player_index P0 = 0" "player_index P1 = 1"
  by (simp_all add: player_index_def P0_def P1_def)

lemma opponent_valid: "valid_player p \<Longrightarrow> valid_player (opponent p)"
  by (auto elim!: valid_player_cases)

lemma opponent_opponent: "opponent (opponent p) = p"
  by (cases p) (simp add: opponent_def)

lemma player_index_less_2 [simp]: "valid_player p \<Longrightarrow> player_index p < 2"
  by (auto elim!: valid_player_cases)

lemma player_index_opponent: "valid_player p \<Longrightarrow> player_index (opponent p) = 1 - player_index p"
  by (auto elim!: valid_player_cases)

lemma object_index_of_nat:
  "n < 2 ^ 32 \<Longrightarrow> unat (object_raw (ObjectId (word_of_nat n))) = n"
  by (simp add: unat_of_nat)

text \<open>
  The arena contract its clients rely on: a pushed object is found under the id it was given,
  and pushing or writing one object never changes what any other id refers to.
\<close>

locale object_store =
  fixes push :: "'s \<Rightarrow> 'a \<Rightarrow> ObjectId \<times> 's"
    and try_get :: "'s \<Rightarrow> ObjectId \<Rightarrow> 'a option"
    and set :: "'s \<Rightarrow> ObjectId \<Rightarrow> 'a \<Rightarrow> 's option"
    and room :: "'s \<Rightarrow> bool"
  assumes push_new: "room s \<Longrightarrow> push s v = (i, t) \<Longrightarrow> try_get s i = None \<and> try_get t i = Some v"
    and push_other: "room s \<Longrightarrow> push s v = (i, t) \<Longrightarrow> j \<noteq> i \<Longrightarrow> try_get t j = try_get s j"
    and set_get: "set s i v = Some t \<Longrightarrow> try_get t j = (if j = i then Some v else try_get s j)"
    and set_total: "(set s i v = None) = (try_get s i = None)"
begin

lemma push_keeps:
  assumes "room s" "push s v = (i, t)" "try_get s j = Some w"
  shows "try_get t j = Some w"
  using push_new[OF assms(1,2)] push_other[OF assms(1,2), of j] assms(3) by (cases "j = i") auto

lemma set_set:
  assumes "set s i v = Some t" "set t i w = Some u"
  shows "try_get u j = (if j = i then Some w else try_get s j)"
  using set_get[OF assms(1)] set_get[OF assms(2)] by simp

end

interpretation arena: object_store arena_push arena_try_get arena_set arena_room
proof unfold_locales
  fix s :: "'a Arena" and v i t
  assume "arena_room s" "arena_push s v = (i, t)"
  then show "arena_try_get s i = None \<and> arena_try_get t i = Some v"
    by (auto simp: arena_room_def arena_push_def arena_try_get_def unat_of_nat)
next
  fix s :: "'a Arena" and v i t j
  assume r: "arena_room s" and p: "arena_push s v = (i, t)" and n: "j \<noteq> i"
  from n p have "unat (object_raw j) \<noteq> length (items s)"
    by (cases j) (auto simp: arena_push_def dest!: sym[of "unat _"])
  with r p show "arena_try_get t j = arena_try_get s j"
    by (auto simp: arena_push_def arena_try_get_def nth_append)
next
  fix s :: "'a Arena" and i v t j
  assume "arena_set s i v = Some t"
  moreover have "unat (object_raw j) = unat (object_raw i) \<longleftrightarrow> j = i"
    by (cases i; cases j) (auto simp: word_unat_eq_iff)
  ultimately show "arena_try_get t j = (if j = i then Some v else arena_try_get s j)"
    by (auto simp: arena_set_def arena_try_get_def split: if_splits)
next
  fix s :: "'a Arena" and i v
  show "(arena_set s i v = None) = (arena_try_get s i = None)"
    by (simp add: arena_set_def arena_try_get_def)
qed

lemma length_arena_iter [simp]: "length (arena_iter a) = length (items a)"
  by (simp add: arena_iter_def)

lemma arena_iter_nth:
  "n < length (items a) \<Longrightarrow> arena_iter a ! n = (ObjectId (word_of_nat n), items a ! n)"
  by (simp add: arena_iter_def nth_enumerate_eq)

lemma arena_iter_ascending:
  "arena_room a \<Longrightarrow> sorted_wrt (\<lambda>x y. fst x < fst y) (arena_iter a)"
  by (auto simp: sorted_wrt_iff_nth_less length_arena_iter arena_iter_nth less_ObjectId_def
      word_less_nat_alt unat_of_nat arena_room_def)

end
