(* ===== verification/Mana.thy ===== *)
theory Mana
  imports Ids
begin

text \<open>
  \<^verbatim>\<open>mtg-kernel/src/mana.rs\<close>: the mana payment solver. A cost is a list of pips and a generic
  amount; the solver decides which floating mana and which untapped sources pay for it by
  backtracking over the pips and a greedy pass over the generic part.

  The solver's mutable arguments (\<^verbatim>\<open>used\<close>, \<^verbatim>\<open>pool_remaining\<close>, \<^verbatim>\<open>plan\<close>) are one record that
  every operation takes and returns, with the undo steps of the backtracking written out. Pool
  entries are bytes and wrap. Life totals and life payments are \<open>int\<close> (a payment is two per
  pip, far from the range of \<^verbatim>\<open>i32\<close>); generic amounts are \<open>nat\<close> (the code's \<^verbatim>\<open>u32\<close> values
  are only compared, decreased under a guard, or summed from three bytes).

  The functions that read a \<^verbatim>\<open>GameState\<close> take the parts they read: the mana sources that
  \<^verbatim>\<open>gather_sources\<close> collects, the player's pools and life, and the predicate saying which
  restricted units the state permits for this payment.
\<close>

section \<open>Colors, pips, costs, sources, plans\<close>

datatype ManaColor = W | U | B | R | G | C

definition ManaColor_ALL :: "ManaColor list" where
  "ManaColor_ALL = [W, U, B, R, G, C]"

fun pool_index :: "ManaColor \<Rightarrow> nat" where
  "pool_index W = 0"
| "pool_index U = 1"
| "pool_index B = 2"
| "pool_index R = 3"
| "pool_index G = 4"
| "pool_index C = 5"

definition from_code :: "string \<Rightarrow> ManaColor option" where
  "from_code c =
     (if c = ''W'' then Some W else if c = ''U'' then Some U else if c = ''B'' then Some B
      else if c = ''R'' then Some R else if c = ''G'' then Some G else if c = ''C'' then Some C
      else None)"

definition GENERIC_POOL_PAYMENT_ORDER :: "ManaColor list" where
  "GENERIC_POOL_PAYMENT_ORDER = [C, B, U, W, G, R]"

datatype Pip =
    Colored ManaColor
  | Hybrid ManaColor ManaColor
  | Phyrexian ManaColor
  | PhyrexianAnyColor ManaColor

record Cost =
  pips :: "Pip list"
  generic :: u8
  x_count :: u8

record ManaSource =
  source_id :: ObjectId
  choices :: "ManaColor list"
  yield_per_tap :: u8

record PaymentPlan =
  restricted_pool_used :: "nat list"
  taps :: "(ObjectId \<times> ManaColor) list"
  pool_used :: "u8 list"
  life_paid :: int
  surplus :: "u8 list"

definition plan_default :: PaymentPlan where
  "plan_default = \<lparr>restricted_pool_used = [], taps = [], pool_used = replicate 6 0,
                   life_paid = 0, surplus = replicate 6 0\<rparr>"

record SpellSourceChoicesV1 =
  aliases :: "ObjectId list"
  convoke :: "bool list"
  require_convoke :: bool

section \<open>A bounded color set\<close>

record ManaColorSetV1 =
  set_colors :: "ManaColor list"
  set_len :: u8

definition color_set_new :: ManaColorSetV1 where
  "color_set_new = \<lparr>set_colors = replicate 6 W, set_len = 0\<rparr>"

definition color_set_push :: "ManaColor \<Rightarrow> ManaColorSetV1 \<Rightarrow> ManaColorSetV1" where
  "color_set_push c s =
     (if unat (set_len s) < 6
      then s\<lparr>set_colors := (set_colors s)[unat (set_len s) := c], set_len := set_len s + 1\<rparr>
      else s)"

definition color_set_slice :: "ManaColorSetV1 \<Rightarrow> ManaColor list" where
  "color_set_slice s = take (unat (set_len s)) (set_colors s)"

definition color_set_contains :: "ManaColorSetV1 \<Rightarrow> ManaColor \<Rightarrow> bool" where
  "color_set_contains s c \<longleftrightarrow> c \<in> set (color_set_slice s)"

section \<open>The search state and its steps\<close>

record search =
  used :: "bool list"
  pool_remaining :: "u8 list"
  plan :: PaymentPlan

definition set_spell_source_used_v1 ::
  "nat \<Rightarrow> bool \<Rightarrow> SpellSourceChoicesV1 option \<Rightarrow> bool list \<Rightarrow> bool list" where
  "set_spell_source_used_v1 index value sc us =
     (case sc of
        Some ch \<Rightarrow>
          map (\<lambda>(other, u). if other < length (aliases ch) \<and> aliases ch ! other = aliases ch ! index
                            then value else u) (enumerate 0 us)
      | None \<Rightarrow> us[index := value])"

definition spend_pool :: "ManaColor \<Rightarrow> search \<Rightarrow> search" where
  "spend_pool c s =
     s\<lparr>pool_remaining := (pool_remaining s)[pool_index c := pool_remaining s ! pool_index c - 1],
       plan := (plan s)\<lparr>pool_used := (pool_used (plan s))[pool_index c :=
                          pool_used (plan s) ! pool_index c + 1]\<rparr>\<rparr>"

definition unspend_pool :: "ManaColor \<Rightarrow> search \<Rightarrow> search" where
  "unspend_pool c s =
     s\<lparr>pool_remaining := (pool_remaining s)[pool_index c := pool_remaining s ! pool_index c + 1],
       plan := (plan s)\<lparr>pool_used := (pool_used (plan s))[pool_index c :=
                          pool_used (plan s) ! pool_index c - 1]\<rparr>\<rparr>"

definition tap_source ::
  "ManaSource list \<Rightarrow> SpellSourceChoicesV1 option \<Rightarrow> nat \<Rightarrow> ManaColor \<Rightarrow> search \<Rightarrow> search" where
  "tap_source srcs sc i c s =
     (let extra = saturating_sub (yield_per_tap (srcs ! i)) 1; pi = pool_index c
      in s\<lparr>used := set_spell_source_used_v1 i True sc (used s),
           pool_remaining := (pool_remaining s)[pi := pool_remaining s ! pi + extra],
           plan := (plan s)\<lparr>taps := taps (plan s) @ [(source_id (srcs ! i), c)],
                            surplus := (surplus (plan s))[pi := surplus (plan s) ! pi + extra]\<rparr>\<rparr>)"

definition untap_source ::
  "ManaSource list \<Rightarrow> SpellSourceChoicesV1 option \<Rightarrow> nat \<Rightarrow> ManaColor \<Rightarrow> search \<Rightarrow> search" where
  "untap_source srcs sc i c s =
     (let extra = saturating_sub (yield_per_tap (srcs ! i)) 1; pi = pool_index c
      in s\<lparr>used := set_spell_source_used_v1 i False sc (used s),
           pool_remaining := (pool_remaining s)[pi := pool_remaining s ! pi - extra],
           plan := (plan s)\<lparr>taps := butlast (taps (plan s)),
                            surplus := (surplus (plan s))[pi := surplus (plan s) ! pi - extra]\<rparr>\<rparr>)"

definition pay_life :: "int \<Rightarrow> search \<Rightarrow> search" where
  "pay_life n s = s\<lparr>plan := (plan s)\<lparr>life_paid := life_paid (plan s) + n\<rparr>\<rparr>"

section \<open>The generic part\<close>

text \<open>\<^verbatim>\<open>while needed > 0 && *amt > 0\<close> on one color.\<close>

primrec drain :: "nat \<Rightarrow> u8 \<Rightarrow> u8 \<Rightarrow> nat \<times> u8 \<times> u8" where
  "drain 0 amt us = (0, amt, us)"
| "drain (Suc n) amt us = (if 0 < amt then drain n (amt - 1) (us + 1) else (Suc n, amt, us))"

definition drain_color :: "ManaColor \<Rightarrow> nat \<times> search \<Rightarrow> nat \<times> search" where
  "drain_color c = (\<lambda>(needed, s).
     let pi = pool_index c in
     case drain needed (pool_remaining s ! pi) (pool_used (plan s) ! pi) of
       (n', a', u') \<Rightarrow>
         (n', s\<lparr>pool_remaining := (pool_remaining s)[pi := a'],
                plan := (plan s)\<lparr>pool_used := (pool_used (plan s))[pi := u']\<rparr>\<rparr>))"

definition generic_source_color ::
  "ManaSource list \<Rightarrow> SpellSourceChoicesV1 option \<Rightarrow> nat \<Rightarrow> ManaColor option" where
  "generic_source_color srcs sc i =
     (case choices (srcs ! i) of
        c # _ \<Rightarrow> Some c
      | [] \<Rightarrow> (case sc of Some ch \<Rightarrow> if convoke ch ! i then Some C else None | None \<Rightarrow> None))"

definition tap_generic ::
  "ManaSource list \<Rightarrow> SpellSourceChoicesV1 option \<Rightarrow> nat \<Rightarrow> nat \<times> search \<Rightarrow> nat \<times> search" where
  "tap_generic srcs sc i = (\<lambda>(needed, s).
     if needed = 0 \<or> used s ! i then (needed, s)
     else
       (case generic_source_color srcs sc i of
          None \<Rightarrow> (needed, s)
        | Some c \<Rightarrow>
            (let produced = unat (max (yield_per_tap (srcs ! i)) 1);
                 spent = min produced needed;
                 extra = produced - spent;
                 pi = pool_index c
             in (needed - spent,
                 s\<lparr>used := set_spell_source_used_v1 i True sc (used s),
                   pool_remaining := (pool_remaining s)[pi := pool_remaining s ! pi + word_of_nat extra],
                   plan := (plan s)\<lparr>taps := taps (plan s) @ [(source_id (srcs ! i), c)],
                     surplus := (surplus (plan s))[pi := surplus (plan s) ! pi + word_of_nat extra]\<rparr>\<rparr>))))"

definition generic_source_order :: "ManaSource list \<Rightarrow> SpellSourceChoicesV1 option \<Rightarrow> nat list" where
  "generic_source_order srcs sc =
     (case sc of
        None \<Rightarrow> [0..<length srcs]
      | Some _ \<Rightarrow> sort_key (\<lambda>i. 255 - unat (yield_per_tap (srcs ! i))) [0..<length srcs])"

definition pay_generic_with_source_choices_v1 ::
  "nat \<Rightarrow> ManaSource list \<Rightarrow> SpellSourceChoicesV1 option \<Rightarrow> search \<Rightarrow> bool \<times> search" where
  "pay_generic_with_source_choices_v1 needed srcs sc s =
     (case fold (tap_generic srcs sc) (generic_source_order srcs sc)
             (fold drain_color GENERIC_POOL_PAYMENT_ORDER (needed, s)) of
        (needed', s') \<Rightarrow> (needed' = 0, s'))"

definition pay_generic :: "nat \<Rightarrow> ManaSource list \<Rightarrow> search \<Rightarrow> bool \<times> search" where
  "pay_generic needed srcs s = pay_generic_with_source_choices_v1 needed srcs None s"

text \<open>Loops that stop at the first iteration that succeeds.\<close>

primrec try_each :: "('x \<Rightarrow> 's \<Rightarrow> bool \<times> 's) \<Rightarrow> 'x list \<Rightarrow> 's \<Rightarrow> bool \<times> 's" where
  "try_each f [] s = (False, s)"
| "try_each f (x # xs) s =
     (case f x s of (True, t) \<Rightarrow> (True, t) | (False, t) \<Rightarrow> try_each f xs t)"

definition requires_creature :: "SpellSourceChoicesV1 option \<Rightarrow> search \<Rightarrow> bool" where
  "requires_creature sc s \<longleftrightarrow>
     (case sc of
        None \<Rightarrow> False
      | Some ch \<Rightarrow>
          require_convoke ch \<and>
          \<not> list_ex (\<lambda>(i, _). convoke ch ! unat (object_raw i)) (taps (plan s)))"

definition finish_spell_generic_payment_v1 ::
  "nat \<Rightarrow> ManaSource list \<Rightarrow> SpellSourceChoicesV1 option \<Rightarrow> search \<Rightarrow> bool \<times> search" where
  "finish_spell_generic_payment_v1 gen srcs sc s =
     (if requires_creature sc s
      then
        if gen = 0 then (False, s)
        else
          try_each
            (\<lambda>index t.
               if used t ! index \<or> \<not> convoke (the sc) ! index then (False, t)
               else
                 (let c = (case choices (srcs ! index) of c # _ \<Rightarrow> c | [] \<Rightarrow> C);
                      t1 = t\<lparr>used := set_spell_source_used_v1 index True sc (used t),
                             plan := (plan t)\<lparr>taps := taps (plan t) @ [(source_id (srcs ! index), c)]\<rparr>\<rparr>
                  in case pay_generic_with_source_choices_v1 (gen - 1) srcs sc t1 of
                       (True, t2) \<Rightarrow> (True, t2)
                     | (False, _) \<Rightarrow> (False, t)))
            [0..<length srcs] s
      else
        (case pay_generic_with_source_choices_v1 gen srcs sc s of
           (True, t) \<Rightarrow> (True, t)
         | (False, _) \<Rightarrow> (False, s)))"

section \<open>The pip search\<close>

datatype PipManaPolicyV72 = Ordinary | AnyType

text \<open>What stays fixed during one search: the sources, the life budget, the generic amount to
  pay after the pips (if the search is to include it), the Convoke alternatives and the policy.\<close>

record search_ctx =
  sources :: "ManaSource list"
  max_life_payment :: int
  generic_needed :: "nat option"
  source_choices :: "SpellSourceChoicesV1 option"
  policy :: PipManaPolicyV72

fun is_phyrexian :: "Pip \<Rightarrow> bool" where
  "is_phyrexian (Phyrexian _) = True"
| "is_phyrexian (PhyrexianAnyColor _) = True"
| "is_phyrexian _ = False"

fun candidate_colors :: "Pip \<Rightarrow> ManaColor list" where
  "candidate_colors (Colored c) = [c]"
| "candidate_colors (Hybrid a b) = [a, b]"
| "candidate_colors (Phyrexian c) = [c]"
| "candidate_colors (PhyrexianAnyColor _) = GENERIC_POOL_PAYMENT_ORDER"

definition mana_colors :: "PipManaPolicyV72 \<Rightarrow> Pip \<Rightarrow> ManaColor list" where
  "mana_colors pol p = (if pol = AnyType then GENERIC_POOL_PAYMENT_ORDER else candidate_colors p)"

definition source_colors :: "search_ctx \<Rightarrow> Pip \<Rightarrow> nat \<Rightarrow> ManaColor list" where
  "source_colors ctx p i =
     (case source_choices ctx of
        Some ch \<Rightarrow> if convoke ch ! i then candidate_colors p else mana_colors (policy ctx) p
      | None \<Rightarrow> mana_colors (policy ctx) p)"

text \<open>One attempt: change the state, go on, and undo the change when the rest fails.\<close>

definition attempt :: "('s \<Rightarrow> 's) \<Rightarrow> ('s \<Rightarrow> 's) \<Rightarrow> ('s \<Rightarrow> bool \<times> 's) \<Rightarrow> 's \<Rightarrow> bool \<times> 's" where
  "attempt do_it undo rest s =
     (case rest (do_it s) of (True, t) \<Rightarrow> (True, t) | (False, t) \<Rightarrow> (False, undo t))"

text \<open>The recursion of \<^verbatim>\<open>solve_pips_with_mana_policy_v72\<close> from pip \<open>idx\<close> on (the list is the
  suffix \<^verbatim>\<open>pips[idx..]\<close>), without the capacity check that only \<open>idx = 0\<close> makes.\<close>

primrec solve_pips_rec :: "Pip list \<Rightarrow> search_ctx \<Rightarrow> search \<Rightarrow> bool \<times> search" where
  "solve_pips_rec [] ctx s =
     (case generic_needed ctx of
        None \<Rightarrow> (True, s)
      | Some gen \<Rightarrow>
          finish_spell_generic_payment_v1 gen (sources ctx) (source_choices ctx) s)"
| "solve_pips_rec (p # ps) ctx s =
     (case try_each
             (\<lambda>c t. if 0 < pool_remaining t ! pool_index c
                    then attempt (spend_pool c) (unspend_pool c) (solve_pips_rec ps ctx) t
                    else (False, t))
             (mana_colors (policy ctx) p) s of
        (True, t) \<Rightarrow> (True, t)
      | (False, s1) \<Rightarrow>
          (case try_each
                  (\<lambda>i t. if used t ! i then (False, t)
                         else try_each
                           (\<lambda>c t. if c \<in> set (choices (sources ctx ! i))
                                  then attempt (tap_source (sources ctx) (source_choices ctx) i c)
                                         (untap_source (sources ctx) (source_choices ctx) i c)
                                         (solve_pips_rec ps ctx) t
                                  else (False, t))
                           (source_colors ctx p i) t)
                  [0..<length (sources ctx)] s1 of
             (True, t) \<Rightarrow> (True, t)
           | (False, s2) \<Rightarrow>
               if is_phyrexian p \<and> life_paid (plan s2) + 2 \<le> max_life_payment ctx
               then attempt (pay_life 2) (pay_life (- 2)) (solve_pips_rec ps ctx) s2
               else (False, s2)))"

text \<open>Saturating sums in \<^verbatim>\<open>u64\<close>, and the check that rejects an impossible total at once.\<close>

definition sat_add_u64 :: "nat \<Rightarrow> nat \<Rightarrow> nat" where
  "sat_add_u64 a b = (if int (a + b) < 2 ^ 64 then a + b else nat (2 ^ 64 - 1))"

definition minimum_mana :: "Pip list \<Rightarrow> nat \<Rightarrow> nat" where
  "minimum_mana ps gen = fold (\<lambda>p total. sat_add_u64 total (if is_phyrexian p then 0 else 1)) ps gen"

definition mana_capacity :: "ManaSource list \<Rightarrow> search \<Rightarrow> nat" where
  "mana_capacity srcs s =
     fold (\<lambda>(src, u) total.
             sat_add_u64 total (if u then 0 else unat (max (yield_per_tap src) 1)))
       (zip srcs (used s)) (sum_list (map unat (pool_remaining s)))"

definition solve_pips_with_mana_policy_v72 :: "Pip list \<Rightarrow> search_ctx \<Rightarrow> search \<Rightarrow> bool \<times> search" where
  "solve_pips_with_mana_policy_v72 ps ctx s =
     (case generic_needed ctx of
        Some gen \<Rightarrow>
          if minimum_mana ps gen > mana_capacity (sources ctx) s then (False, s)
          else solve_pips_rec ps ctx s
      | None \<Rightarrow> solve_pips_rec ps ctx s)"

definition I64_MAX :: int where
  "I64_MAX = 2 ^ 63 - 1"

definition solve_pips_with_life_budget_v1 ::
  "Pip list \<Rightarrow> ManaSource list \<Rightarrow> int \<Rightarrow> nat option \<Rightarrow> SpellSourceChoicesV1 option
    \<Rightarrow> search \<Rightarrow> bool \<times> search" where
  "solve_pips_with_life_budget_v1 ps srcs max_life gen sc s =
     solve_pips_with_mana_policy_v72 ps
       \<lparr>sources = srcs, max_life_payment = max_life, generic_needed = gen,
        source_choices = sc, policy = Ordinary\<rparr> s"

definition solve_pips :: "Pip list \<Rightarrow> ManaSource list \<Rightarrow> search \<Rightarrow> bool \<times> search" where
  "solve_pips ps srcs s = solve_pips_with_life_budget_v1 ps srcs I64_MAX None None s"

definition search_start :: "u8 list \<Rightarrow> ManaSource list \<Rightarrow> search" where
  "search_start pool srcs =
     \<lparr>used = replicate (length srcs) False, pool_remaining = pool, plan = plan_default\<rparr>"

definition solve :: "Cost \<Rightarrow> u8 \<Rightarrow> u8 list \<Rightarrow> ManaSource list \<Rightarrow> PaymentPlan option" where
  "solve cost x_value pool srcs =
     (case solve_pips (pips cost) srcs (search_start pool srcs) of
        (False, _) \<Rightarrow> None
      | (True, s) \<Rightarrow>
          (case pay_generic (unat (generic cost) + unat (x_count cost) * unat x_value) srcs s of
             (False, _) \<Rightarrow> None
           | (True, t) \<Rightarrow> Some (plan t)))"

section \<open>Payments of a player\<close>

text \<open>\<open>unit_color\<close> is the color of a restricted unit; the rest of \<^verbatim>\<open>RestrictedManaUnitV1\<close> only
  decides whether the unit is permitted for a payment.\<close>

record 'r RestrictedManaUnitV1 =
  unit_color :: ManaColor
  unit_restriction :: 'r

record 'r player_mana =
  mana_pool :: "u8 list"
  restricted_mana_pool :: "'r RestrictedManaUnitV1 list"
  life :: int
  graveyard :: "ObjectId list"

definition life_payment_affordable :: "int \<Rightarrow> int \<Rightarrow> bool" where
  "life_payment_affordable paid life_total \<longleftrightarrow> paid = 0 \<or> paid \<le> life_total"

definition spell_floating_pool :: "('r RestrictedManaUnitV1 \<Rightarrow> bool) \<Rightarrow> 'r player_mana \<Rightarrow> u8 list" where
  "spell_floating_pool permits pl =
     fold (\<lambda>u pool. if permits u
                    then pool[pool_index (unit_color u) :=
                                saturating_add (pool ! pool_index (unit_color u)) 1]
                    else pool)
       (restricted_mana_pool pl) (mana_pool pl)"

definition separate_unit ::
  "('r RestrictedManaUnitV1 \<Rightarrow> bool) \<Rightarrow> nat \<times> 'r RestrictedManaUnitV1 \<Rightarrow> PaymentPlan \<Rightarrow> PaymentPlan" where
  "separate_unit permits = (\<lambda>(index, u) pln.
     let pi = pool_index (unit_color u) in
     if permits u \<and> 0 < pool_used pln ! pi
     then pln\<lparr>pool_used := (pool_used pln)[pi := pool_used pln ! pi - 1],
              restricted_pool_used := restricted_pool_used pln @ [index]\<rparr>
     else pln)"

definition separate_restricted_spending ::
  "('r RestrictedManaUnitV1 \<Rightarrow> bool) \<Rightarrow> 'r player_mana \<Rightarrow> PaymentPlan \<Rightarrow> PaymentPlan" where
  "separate_restricted_spending permits pl pln =
     fold (separate_unit permits) (enumerate 0 (restricted_mana_pool pl)) pln"

definition can_pay_spell ::
  "Cost \<Rightarrow> u8 \<Rightarrow> ManaSource list \<Rightarrow> ('r RestrictedManaUnitV1 \<Rightarrow> bool) \<Rightarrow> 'r player_mana
    \<Rightarrow> PaymentPlan option" where
  "can_pay_spell cost x_value srcs permits pl =
     (case solve cost x_value (spell_floating_pool permits pl) srcs of
        None \<Rightarrow> None
      | Some pln \<Rightarrow>
          if life_payment_affordable (life_paid pln) (life pl)
          then Some (separate_restricted_spending permits pl pln) else None)"

definition can_pay_owned_from_sources ::
  "Pip list \<Rightarrow> u8 \<Rightarrow> ManaSource list \<Rightarrow> ('r RestrictedManaUnitV1 \<Rightarrow> bool) \<Rightarrow> 'r player_mana
    \<Rightarrow> PaymentPlan option" where
  "can_pay_owned_from_sources ps gen srcs permits pl =
     (case solve_pips ps srcs (search_start (spell_floating_pool permits pl) srcs) of
        (False, _) \<Rightarrow> None
      | (True, s) \<Rightarrow>
          (case pay_generic (unat gen) srcs s of
             (False, _) \<Rightarrow> None
           | (True, t) \<Rightarrow>
               (let pln = separate_restricted_spending permits pl (plan t)
                in if life_payment_affordable (life_paid pln) (life pl) then Some pln else None)))"

definition can_pay_excluding_sources ::
  "Cost \<Rightarrow> u8 \<Rightarrow> ManaSource list \<Rightarrow> ObjectId list \<Rightarrow> ('r RestrictedManaUnitV1 \<Rightarrow> bool)
    \<Rightarrow> 'r player_mana \<Rightarrow> PaymentPlan option" where
  "can_pay_excluding_sources cost x_value srcs excluded permits pl =
     can_pay_spell cost x_value (filter (\<lambda>src. source_id src \<notin> set excluded) srcs) permits pl"

text \<open>\<^verbatim>\<open>plan_spell_mana_total_with_restrictions_with_grant_v72\<close>: the spell planner. The life
  budget takes part in the search, and so does the generic amount.\<close>

definition plan_spell_mana_total ::
  "Pip list \<Rightarrow> nat \<Rightarrow> ManaSource list \<Rightarrow> ObjectId list \<Rightarrow> nat \<Rightarrow> PipManaPolicyV72
    \<Rightarrow> ('r RestrictedManaUnitV1 \<Rightarrow> bool) \<Rightarrow> 'r player_mana \<Rightarrow> PaymentPlan option" where
  "plan_spell_mana_total ps gen all_sources excluded additional_life pol permits pl =
     (if additional_life \<noteq> 0 \<and> int additional_life > life pl then None
      else
        (let srcs = filter (\<lambda>src. source_id src \<notin> set excluded) all_sources;
             budget = max (life pl - int additional_life) 0
         in case solve_pips_with_mana_policy_v72 ps
                   \<lparr>sources = srcs, max_life_payment = budget, generic_needed = Some gen,
                    source_choices = None, policy = pol\<rparr>
                   (search_start (spell_floating_pool permits pl) srcs) of
              (False, _) \<Rightarrow> None
            | (True, s) \<Rightarrow>
                (let pln = separate_restricted_spending permits pl (plan s);
                     total_life = life_paid pln + int additional_life
                 in if total_life = 0 \<or> total_life \<le> life pl then Some pln else None)))"

definition can_pay_combined_spell_with_generic_modifiers_v1 ::
  "Cost list \<Rightarrow> u8 \<Rightarrow> ManaSource list \<Rightarrow> nat \<Rightarrow> nat
    \<Rightarrow> ('r RestrictedManaUnitV1 \<Rightarrow> bool) \<Rightarrow> 'r player_mana \<Rightarrow> PaymentPlan option" where
  "can_pay_combined_spell_with_generic_modifiers_v1 costs x_value srcs increase reduction permits pl =
     (let combined_pips = concat (map pips costs);
          gen = sum_list (map (unat \<circ> generic) costs);
          xc = sum_list (map (unat \<circ> x_count) costs)
      in plan_spell_mana_total combined_pips
           (min (gen + xc * unat x_value + increase) (2 ^ 32 - 1) - reduction)
           srcs [] 0 Ordinary permits pl)"

text \<open>Delve: the fewest cards exiled from the front of the graveyard that make the rest payable.\<close>

primrec delve_from ::
  "nat \<Rightarrow> nat \<Rightarrow> Cost \<Rightarrow> u8 \<Rightarrow> ManaSource list \<Rightarrow> ('r RestrictedManaUnitV1 \<Rightarrow> bool)
    \<Rightarrow> 'r player_mana \<Rightarrow> (PaymentPlan \<times> ObjectId list) option" where
  "delve_from 0 k cost x_value srcs permits pl = None"
| "delve_from (Suc n) k cost x_value srcs permits pl =
     (case can_pay_spell (cost\<lparr>generic := generic cost - word_of_nat k\<rparr>) x_value srcs permits pl of
        Some pln \<Rightarrow> Some (pln, take k (graveyard pl))
      | None \<Rightarrow> delve_from n (Suc k) cost x_value srcs permits pl)"

definition delve_payment_plan ::
  "Cost \<Rightarrow> u8 \<Rightarrow> ManaSource list \<Rightarrow> ('r RestrictedManaUnitV1 \<Rightarrow> bool) \<Rightarrow> 'r player_mana
    \<Rightarrow> (PaymentPlan \<times> ObjectId list) option" where
  "delve_payment_plan cost x_value srcs permits pl =
     delve_from (Suc (min (length (graveyard pl)) (unat (generic cost)))) 0 cost x_value srcs permits pl"

end
