(* ===== verification/Mana_Search.thy ===== *)
theory Mana_Search
  imports Mana
begin

text \<open>
  The pip search of \<open>Mana\<close> against its specification. \<open>pay_pips\<close> says, pip by pip, what the
  rules allow: spend floating mana of an acceptable color, tap an unused source for a color it
  produces, or pay two life for a Phyrexian pip. The search is exhaustive: it succeeds exactly
  when some allowed sequence of choices lets the rest succeed, and a failed search leaves the
  state untouched.
\<close>

section \<open>Specification of pip payment\<close>

inductive pay_pip :: "search_ctx \<Rightarrow> Pip \<Rightarrow> search \<Rightarrow> search \<Rightarrow> bool" where
  from_pool: "c \<in> set (mana_colors (policy ctx) p) \<Longrightarrow> 0 < pool_remaining s ! pool_index c \<Longrightarrow>
     pay_pip ctx p s (spend_pool c s)"
| from_source: "i < length (sources ctx) \<Longrightarrow> \<not> used s ! i \<Longrightarrow> c \<in> set (source_colors ctx p i) \<Longrightarrow>
     c \<in> set (choices (sources ctx ! i)) \<Longrightarrow>
     pay_pip ctx p s (tap_source (sources ctx) (source_choices ctx) i c s)"
| with_life: "is_phyrexian p \<Longrightarrow> life_paid (plan s) + 2 \<le> max_life_payment ctx \<Longrightarrow>
     pay_pip ctx p s (pay_life 2 s)"

inductive pay_pips :: "search_ctx \<Rightarrow> Pip list \<Rightarrow> search \<Rightarrow> search \<Rightarrow> bool" where
  no_pips: "pay_pips ctx [] s s"
| more_pips: "pay_pip ctx p s m \<Longrightarrow> pay_pips ctx ps m t \<Longrightarrow> pay_pips ctx (p # ps) s t"

inductive_cases pay_pips_ConsE: "pay_pips ctx (p # ps) s t"
inductive_cases pay_pips_NilE: "pay_pips ctx [] s t"

definition wf_search :: "ManaSource list \<Rightarrow> search \<Rightarrow> bool" where
  "wf_search srcs s \<longleftrightarrow> length (used s) = length srcs \<and> length (pool_remaining s) = 6 \<and>
     length (pool_used (plan s)) = 6 \<and> length (surplus (plan s)) = 6"

text \<open>Alternatives that stand for one permanent are used and released together.\<close>

definition alias_ok :: "SpellSourceChoicesV1 option \<Rightarrow> search \<Rightarrow> bool" where
  "alias_ok sc s \<longleftrightarrow>
     (case sc of
        None \<Rightarrow> True
      | Some ch \<Rightarrow>
          length (aliases ch) = length (used s) \<and>
          (\<forall>i < length (used s). \<forall>j < length (used s).
             aliases ch ! i = aliases ch ! j \<longrightarrow> used s ! i = used s ! j))"

definition search_ok :: "search_ctx \<Rightarrow> search \<Rightarrow> bool" where
  "search_ok ctx s \<longleftrightarrow> wf_search (sources ctx) s \<and> alias_ok (source_choices ctx) s"

section \<open>Steps and their undo\<close>

lemma pool_index_less_6 [simp]: "pool_index c < 6"
  by (cases c) auto

lemma length_set_used [simp]: "length (set_spell_source_used_v1 i v sc us) = length us"
  by (simp add: set_spell_source_used_v1_def split: option.split)

lemma unspend_spend: "wf_search srcs s \<Longrightarrow> unspend_pool c (spend_pool c s) = s"
  by (simp add: unspend_pool_def spend_pool_def wf_search_def)

lemma unpay_life: "pay_life (- n) (pay_life n s) = s"
  by (simp add: pay_life_def)

lemma nth_set_used:
  "j < length us \<Longrightarrow> set_spell_source_used_v1 i v sc us ! j =
     (case sc of
        None \<Rightarrow> if j = i then v else us ! j
      | Some ch \<Rightarrow> if j < length (aliases ch) \<and> aliases ch ! j = aliases ch ! i then v else us ! j)"
  by (simp add: set_spell_source_used_v1_def nth_enumerate_eq split: option.split)

lemma alias_ok_Some:
  "alias_ok (Some ch) s \<longleftrightarrow> length (aliases ch) = length (used s) \<and>
     (\<forall>i < length (used s). \<forall>j < length (used s).
        aliases ch ! i = aliases ch ! j \<longrightarrow> used s ! i = used s ! j)"
  unfolding alias_ok_def option.case ..

lemma alias_okD:
  assumes "alias_ok (Some ch) s"
  shows "length (aliases ch) = length (used s)"
    and "i < length (used s) \<Longrightarrow> j < length (used s) \<Longrightarrow> aliases ch ! i = aliases ch ! j \<Longrightarrow>
         used s ! i = used s ! j"
  using assms unfolding alias_ok_Some by blast+

lemma unset_set_used:
  assumes "alias_ok sc s" "i < length (used s)" "\<not> used s ! i"
  shows "set_spell_source_used_v1 i False sc (set_spell_source_used_v1 i True sc (used s)) = used s"
proof (rule nth_equalityI)
  fix j assume "j < length (set_spell_source_used_v1 i False sc
      (set_spell_source_used_v1 i True sc (used s)))"
  then have j: "j < length (used s)" by simp
  show "set_spell_source_used_v1 i False sc
      (set_spell_source_used_v1 i True sc (used s)) ! j = used s ! j"
  proof (cases sc)
    case None
    with j assms show ?thesis by (simp add: nth_set_used)
  next
    case (Some ch)
    have len: "length (aliases ch) = length (used s)"
      using assms(1) Some by (simp add: alias_okD(1))
    show ?thesis
    proof (cases "aliases ch ! j = aliases ch ! i")
      case True
      with assms Some j have "\<not> used s ! j" using alias_okD(2)[of ch s j i] by simp
      with True Some j len show ?thesis by (simp add: nth_set_used)
    next
      case False
      with Some j show ?thesis by (simp add: nth_set_used)
    qed
  qed
qed simp

lemma untap_tap:
  assumes "wf_search srcs s" "alias_ok sc s" "i < length srcs" "\<not> used s ! i"
  shows "untap_source srcs sc i c (tap_source srcs sc i c s) = s"
proof -
  have "set_spell_source_used_v1 i False sc (set_spell_source_used_v1 i True sc (used s)) = used s"
    using assms by (intro unset_set_used) (auto simp: wf_search_def)
  then show ?thesis
    using assms(1) by (simp add: untap_source_def tap_source_def wf_search_def Let_def)
qed

lemma search_ok_spend [simp]: "search_ok ctx (spend_pool c s) = search_ok ctx s"
  by (simp add: search_ok_def wf_search_def alias_ok_def spend_pool_def cong: option.case_cong)

lemma search_ok_life [simp]: "search_ok ctx (pay_life n s) = search_ok ctx s"
  by (simp add: search_ok_def wf_search_def alias_ok_def pay_life_def cong: option.case_cong)

lemma alias_ok_set_used:
  assumes "alias_ok sc s" and "used t = set_spell_source_used_v1 i v sc (used s)"
  shows "alias_ok sc t"
proof (cases sc)
  case None
  then show ?thesis by (simp add: alias_ok_def)
next
  case (Some ch)
  have len: "length (used t) = length (used s)" by (simp add: assms(2))
  have al: "length (aliases ch) = length (used s)"
    using assms(1) Some by (simp add: alias_okD(1))
  have "used t ! j = used t ! k"
    if jk: "j < length (used s)" "k < length (used s)" "aliases ch ! j = aliases ch ! k" for j k
  proof -
    have "used s ! j = used s ! k"
      using assms(1) Some jk alias_okD(2)[of ch s j k] by simp
    with jk al Some show ?thesis unfolding assms(2) by (simp add: nth_set_used)
  qed
  then show ?thesis unfolding Some alias_ok_Some len al by blast
qed

lemma search_ok_tap:
  assumes "search_ok ctx s"
  shows "search_ok ctx (tap_source (sources ctx) (source_choices ctx) i c s)"
proof -
  have "alias_ok (source_choices ctx) (tap_source (sources ctx) (source_choices ctx) i c s)"
  proof (rule alias_ok_set_used)
    show "alias_ok (source_choices ctx) s" using assms by (simp add: search_ok_def)
    show "used (tap_source (sources ctx) (source_choices ctx) i c s) =
        set_spell_source_used_v1 i True (source_choices ctx) (used s)"
      by (simp add: tap_source_def Let_def)
  qed
  with assms show ?thesis
    by (simp add: search_ok_def wf_search_def tap_source_def Let_def)
qed

lemma search_ok_pay_pip: "pay_pip ctx p s t \<Longrightarrow> search_ok ctx s \<Longrightarrow> search_ok ctx t"
  by (induction rule: pay_pip.induct) (auto intro: search_ok_tap)

lemma search_ok_pay_pips: "pay_pips ctx ps s t \<Longrightarrow> search_ok ctx s \<Longrightarrow> search_ok ctx t"
  by (induction rule: pay_pips.induct) (auto intro: search_ok_pay_pip)

section \<open>Loops that stop at the first success\<close>

text \<open>A loop whose failed attempts restore the state tries every attempt from the same state.\<close>

lemma try_each_find:
  assumes "\<And>x. x \<in> set xs \<Longrightarrow> \<not> fst (f x s) \<Longrightarrow> f x s = (False, s)"
  shows "try_each f xs s =
    (case find (\<lambda>x. fst (f x s)) xs of Some x \<Rightarrow> f x s | None \<Rightarrow> (False, s))"
  using assms
proof (induction xs)
  case Nil
  then show ?case by simp
next
  case (Cons x xs)
  show ?case
  proof (cases "fst (f x s)")
    case True
    then show ?thesis by (auto split: prod.splits bool.splits)
  next
    case False
    with Cons.prems[of x] have "f x s = (False, s)" by simp
    with Cons show ?thesis by simp
  qed
qed

lemma try_each_Some:
  assumes "\<And>x. x \<in> set xs \<Longrightarrow> \<not> fst (f x s) \<Longrightarrow> f x s = (False, s)"
    and "fst (try_each f xs s)"
  obtains x where "x \<in> set xs" "fst (f x s)" "try_each f xs s = f x s"
  using assms(2) try_each_find[of xs f s, OF assms(1)]
  by (auto simp: find_Some_iff split: option.splits intro: that dest: nth_mem)

lemma try_each_fst:
  assumes "\<And>x. x \<in> set xs \<Longrightarrow> \<not> fst (f x s) \<Longrightarrow> f x s = (False, s)"
  shows "fst (try_each f xs s) \<longleftrightarrow> (\<exists>x \<in> set xs. fst (f x s))"
  using try_each_find[of xs f s, OF assms]
  by (auto simp: find_None_iff find_Some_iff split: option.splits dest: nth_mem)

lemma try_each_fail:
  assumes "\<And>x. x \<in> set xs \<Longrightarrow> \<not> fst (f x s) \<Longrightarrow> f x s = (False, s)"
    and "\<not> fst (try_each f xs s)"
  shows "try_each f xs s = (False, s)"
  using assms(2) try_each_find[of xs f s, OF assms(1)]
  by (auto simp: find_Some_iff find_None_iff split: option.splits dest: nth_mem)

lemma attempt_fst [simp]: "fst (attempt d u r s) = fst (r (d s))"
  by (simp add: attempt_def split: prod.split bool.split)

lemma attempt_success: "fst (r (d s)) \<Longrightarrow> attempt d u r s = r (d s)"
  by (auto simp: attempt_def split: prod.splits bool.splits)

lemma attempt_fail: "\<not> fst (r (d s)) \<Longrightarrow> attempt d u r s = (False, u (snd (r (d s))))"
  by (auto simp: attempt_def split: prod.splits bool.splits)

lemma finish_restores:
  assumes "\<not> fst (finish_spell_generic_payment_v1 gen srcs sc s)"
  shows "finish_spell_generic_payment_v1 gen srcs sc s = (False, s)"
proof (cases "requires_creature sc s \<and> gen \<noteq> 0")
  case True
  with assms show ?thesis
    unfolding finish_spell_generic_payment_v1_def
    by (auto intro!: try_each_fail simp: Let_def split: prod.splits bool.splits if_splits)
next
  case False
  with assms show ?thesis
    by (auto simp: finish_spell_generic_payment_v1_def split: prod.splits bool.splits if_splits)
qed

section \<open>The search is exhaustive\<close>

text \<open>\<open>outcome r s P\<close>: a search from \<open>s\<close> succeeded through a state satisfying \<open>P\<close>, or
  failed, restored \<open>s\<close>, and no state satisfies \<open>P\<close>.\<close>

definition outcome :: "bool \<times> 's \<Rightarrow> 's \<Rightarrow> (bool \<times> 's \<Rightarrow> bool) \<Rightarrow> bool" where
  "outcome r s P \<longleftrightarrow> (if fst r then P r else r = (False, s) \<and> (\<forall>t. fst t \<longrightarrow> \<not> P t))"

lemma outcome_try_each:
  assumes "\<And>x. x \<in> set xs \<Longrightarrow> outcome (f x s) s (P x)"
  shows "outcome (try_each f xs s) s (\<lambda>r. \<exists>x \<in> set xs. P x r)"
proof (cases "fst (try_each f xs s)")
  case True
  have "\<And>x. x \<in> set xs \<Longrightarrow> \<not> fst (f x s) \<Longrightarrow> f x s = (False, s)"
    using assms by (simp add: outcome_def)
  then obtain x where "x \<in> set xs" "fst (f x s)" "try_each f xs s = f x s"
    using True by (rule try_each_Some)
  then show ?thesis using assms[of x] by (auto simp: outcome_def)
next
  case False
  have r: "\<And>x. x \<in> set xs \<Longrightarrow> \<not> fst (f x s) \<Longrightarrow> f x s = (False, s)"
    using assms by (simp add: outcome_def)
  have "\<not> fst (f x s)" if "x \<in> set xs" for x
    using False that try_each_fst[of xs f s, OF r] by blast
  with assms have "\<forall>x \<in> set xs. \<forall>t. fst t \<longrightarrow> \<not> P x t"
    by (simp add: outcome_def)
  with try_each_fail[OF r False] show ?thesis by (simp add: outcome_def)
qed

lemma outcome_attempt:
  assumes "outcome (r (d s)) (d s) P" "u (d s) = s"
  shows "outcome (attempt d u r s) s P"
  using assms by (cases "fst (r (d s))") (auto simp: outcome_def attempt_success attempt_fail)

lemma outcome_guard:
  "(g \<Longrightarrow> outcome r s P) \<Longrightarrow> outcome (if g then r else (False, s)) s (\<lambda>t. g \<and> P t)"
  by (simp add: outcome_def)

lemma outcome_or:
  assumes "outcome a s P" "outcome (b s) s Q"
  shows "outcome (case a of (True, t) \<Rightarrow> (True, t) | (False, s1) \<Rightarrow> b s1) s (\<lambda>t. P t \<or> Q t)"
  using assms by (cases a) (auto simp: outcome_def split: bool.split)

text \<open>Successful results of the search after some allowed payment of the pips.\<close>

definition pays_to :: "search_ctx \<Rightarrow> Pip list \<Rightarrow> search \<Rightarrow> bool \<times> search \<Rightarrow> bool" where
  "pays_to ctx ps s r \<longleftrightarrow> fst r \<and> (\<exists>m. pay_pips ctx ps s m \<and> solve_pips_rec [] ctx m = r)"

lemma pays_to_Cons:
  "pays_to ctx (p # ps) s r \<longleftrightarrow> (\<exists>m. pay_pip ctx p s m \<and> pays_to ctx ps m r)"
  unfolding pays_to_def by (blast intro: more_pips elim: pay_pips_ConsE)

lemma pays_to_pip_split:
  "pays_to ctx (p # ps) s r \<longleftrightarrow>
     ((\<exists>c \<in> set (mana_colors (policy ctx) p).
         0 < pool_remaining s ! pool_index c \<and> pays_to ctx ps (spend_pool c s) r) \<or>
      (\<exists>i \<in> set [0..<length (sources ctx)]. \<not> used s ! i \<and>
         (\<exists>c \<in> set (source_colors ctx p i). c \<in> set (choices (sources ctx ! i)) \<and>
            pays_to ctx ps (tap_source (sources ctx) (source_choices ctx) i c s) r)) \<or>
      ((is_phyrexian p \<and> life_paid (plan s) + 2 \<le> max_life_payment ctx) \<and>
         pays_to ctx ps (pay_life 2 s) r))"
  unfolding pays_to_Cons pay_pip.simps set_upt Bex_def atLeastLessThan_iff
  by (simp, blast)

lemma solve_pips_rec_outcome:
  assumes "search_ok ctx s"
  shows "outcome (solve_pips_rec ps ctx s) s (pays_to ctx ps s)"
  using assms
proof (induction ps arbitrary: s)
  case Nil
  have "solve_pips_rec [] ctx s = (False, s)" if "\<not> fst (solve_pips_rec [] ctx s)"
    using that by (auto split: option.splits intro!: finish_restores)
  then show ?case
    by (auto simp: outcome_def pays_to_def simp del: solve_pips_rec.simps
        intro: no_pips elim!: pay_pips_NilE)
next
  case (Cons p ps)
  let ?srcs = "sources ctx" and ?sc = "source_choices ctx" and ?rest = "solve_pips_rec ps ctx"
  have wf: "wf_search ?srcs s" and al: "alias_ok ?sc s"
    using Cons.prems by (simp_all add: search_ok_def)
  have pool: "outcome (attempt (spend_pool c) (unspend_pool c) ?rest s) s
      (pays_to ctx ps (spend_pool c s))" for c
    using Cons.prems wf by (intro outcome_attempt Cons.IH unspend_spend) auto
  have tap: "outcome (attempt (tap_source ?srcs ?sc i c) (untap_source ?srcs ?sc i c) ?rest s) s
      (pays_to ctx ps (tap_source ?srcs ?sc i c s))"
    if "i < length ?srcs" "\<not> used s ! i" for i c
    using Cons.prems wf al that by (intro outcome_attempt Cons.IH untap_tap search_ok_tap) auto
  have lif: "outcome (attempt (pay_life 2) (pay_life (- 2)) ?rest s) s
      (pays_to ctx ps (pay_life 2 s))"
    using Cons.prems by (intro outcome_attempt Cons.IH unpay_life) auto
  have src: "outcome (if used s ! i then (False, s)
        else try_each (\<lambda>c t. if c \<in> set (choices (?srcs ! i))
            then attempt (tap_source ?srcs ?sc i c) (untap_source ?srcs ?sc i c) ?rest t
            else (False, t)) (source_colors ctx p i) s) s
      (\<lambda>r. \<not> used s ! i \<and> (\<exists>c \<in> set (source_colors ctx p i). c \<in> set (choices (?srcs ! i)) \<and>
            pays_to ctx ps (tap_source ?srcs ?sc i c s) r))"
    if "i \<in> set [0..<length ?srcs]" for i
    using that tap
    by (cases "used s ! i") (auto simp: outcome_def[of "(False, s)"] intro!: outcome_try_each outcome_guard)
  have sources_part: "outcome (try_each (\<lambda>i t. if used t ! i then (False, t)
        else try_each (\<lambda>c t. if c \<in> set (choices (?srcs ! i))
            then attempt (tap_source ?srcs ?sc i c) (untap_source ?srcs ?sc i c) ?rest t
            else (False, t)) (source_colors ctx p i) t) [0..<length ?srcs] s) s
      (\<lambda>r. \<exists>i \<in> set [0..<length ?srcs]. \<not> used s ! i \<and>
         (\<exists>c \<in> set (source_colors ctx p i). c \<in> set (choices (?srcs ! i)) \<and>
            pays_to ctx ps (tap_source ?srcs ?sc i c s) r))"
    by (rule outcome_try_each) (rule src)
  have pool_part: "outcome (try_each (\<lambda>c t. if 0 < pool_remaining t ! pool_index c
        then attempt (spend_pool c) (unspend_pool c) ?rest t else (False, t))
        (mana_colors (policy ctx) p) s) s
      (\<lambda>r. \<exists>c \<in> set (mana_colors (policy ctx) p).
         0 < pool_remaining s ! pool_index c \<and> pays_to ctx ps (spend_pool c s) r)"
    by (intro outcome_try_each outcome_guard pool)
  have life_part: "outcome (if is_phyrexian p \<and> life_paid (plan s) + 2 \<le> max_life_payment ctx
        then attempt (pay_life 2) (pay_life (- 2)) ?rest s else (False, s)) s
      (\<lambda>r. (is_phyrexian p \<and> life_paid (plan s) + 2 \<le> max_life_payment ctx) \<and>
         pays_to ctx ps (pay_life 2 s) r)"
    by (intro outcome_guard lif)
  show ?case
    unfolding pays_to_pip_split[abs_def] solve_pips_rec.simps
    by (rule outcome_or, rule pool_part, rule outcome_or, rule sources_part, rule life_part)
qed

lemmas solve_pips_rec_cases = solve_pips_rec_outcome[unfolded outcome_def pays_to_def]

text \<open>
  C17. The pip search, with or without Convoke alternatives, is exhaustive and transactional: it
  succeeds exactly when some allowed way of paying the pips lets the final generic payment
  succeed, its result is then the result of that payment, and when it fails, the used flags, the
  pool and the plan are as they were.
\<close>

theorem search_exhaustive:
  assumes "search_ok ctx s"
  shows "if \<exists>m. pay_pips ctx ps s m \<and> fst (solve_pips_rec [] ctx m)
    then fst (solve_pips_rec ps ctx s) \<and>
      (\<exists>m. pay_pips ctx ps s m \<and> solve_pips_rec [] ctx m = solve_pips_rec ps ctx s)
    else solve_pips_rec ps ctx s = (False, s)"
proof (cases "fst (solve_pips_rec ps ctx s)")
  case True
  with solve_pips_rec_cases[OF assms, of ps] obtain m
    where m: "pay_pips ctx ps s m" "solve_pips_rec [] ctx m = solve_pips_rec ps ctx s"
    by (auto simp del: solve_pips_rec.simps)
  with True have "\<exists>m. pay_pips ctx ps s m \<and> fst (solve_pips_rec [] ctx m)" by metis
  with True m show ?thesis by metis
next
  case False
  with solve_pips_rec_cases[OF assms, of ps] show ?thesis by (metis prod.collapse)
qed

text \<open>Two alternatives of one creature (tapped for itself or by Convoke) and one land, for {R}{G}.\<close>

definition convoke_ctx :: search_ctx where
  "convoke_ctx =
     \<lparr>sources = [\<lparr>source_id = ObjectId 0, choices = [R], yield_per_tap = 1\<rparr>,
                 \<lparr>source_id = ObjectId 1, choices = [R, G], yield_per_tap = 1\<rparr>,
                 \<lparr>source_id = ObjectId 2, choices = [R], yield_per_tap = 1\<rparr>],
      max_life_payment = 0, generic_needed = Some 0,
      source_choices = Some \<lparr>aliases = [ObjectId 5, ObjectId 5, ObjectId 6],
        convoke = [False, True, False], require_convoke = True\<rparr>,
      policy = Ordinary\<rparr>"

theorem search_exhaustive_witness:
  "\<exists>m. pay_pips convoke_ctx [Colored R, Colored G] (search_start (replicate 6 0) (sources convoke_ctx)) m \<and>
     taps (plan (snd (solve_pips_rec [] convoke_ctx m))) = [(ObjectId 2, R), (ObjectId 1, G)]"
proof -
  let ?s = "search_start (replicate 6 0) (sources convoke_ctx)"
  let ?r = "solve_pips_rec [Colored R, Colored G] convoke_ctx ?s"
  have ok: "search_ok convoke_ctx ?s"
    by (simp add: search_ok_def wf_search_def alias_ok_Some convoke_ctx_def search_start_def
        plan_default_def nth_Cons' numeral_3_eq_3 less_Suc_eq)
  have r: "fst ?r" "taps (plan (snd ?r)) = [(ObjectId 2, R), (ObjectId 1, G)]"
    by code_simp+
  have "?r \<noteq> (False, ?s)" using r(1) by (metis fst_conv)
  with search_exhaustive[OF ok, of "[Colored R, Colored G]"] r show ?thesis
    by (metis (no_types, lifting))
qed

end
