(* ===== verification/Mana_Pay.thy ===== *)
theory Mana_Pay
  imports Mana_Search
begin

text \<open>
  Accounting for the payment solver of \<open>Mana\<close>, for payments without Convoke alternatives. The
  capacity of a search state is the mana still in its pool plus the full yield of every source
  that can still be tapped. Every way of paying one mana lowers it by exactly one, whatever the
  yield of the tapped source, so the greedy generic pass succeeds exactly when the amount is at
  most the capacity. The results are lifted to the planners.
\<close>

section \<open>Capacity and accounting\<close>

definition psum :: "u8 list \<Rightarrow> nat" where
  "psum xs = sum_list (map unat xs)"

definition tap_yield :: "ManaSource \<Rightarrow> nat" where
  "tap_yield src = unat (max (yield_per_tap src) 1)"

definition avail :: "ManaSource list \<Rightarrow> bool list \<Rightarrow> nat" where
  "avail srcs us =
     sum_list (map (\<lambda>(src, u). if u \<or> choices src = [] then 0 else tap_yield src) (zip srcs us))"

definition capacity :: "ManaSource list \<Rightarrow> search \<Rightarrow> nat" where
  "capacity srcs s = psum (pool_remaining s) + avail srcs (used s)"

text \<open>Color by color, what is left and what was used is what was there and what was added; and
  no sum the code forms can exceed a byte.\<close>

definition acct :: "u8 list \<Rightarrow> ManaSource list \<Rightarrow> search \<Rightarrow> bool" where
  "acct pool srcs s \<longleftrightarrow>
     wf_search srcs s \<and> length pool = 6 \<and>
     (\<forall>k < 6. unat (pool_remaining s ! k) + unat (pool_used (plan s) ! k)
              = unat (pool ! k) + unat (surplus (plan s) ! k)) \<and>
     psum pool + psum (surplus (plan s)) + avail srcs (used s) \<le> 255"

text \<open>The taps of a plan are taps of distinct sources, in this order, for colors they make.\<close>

definition tap_of :: "ManaSource list \<Rightarrow> nat \<Rightarrow> ObjectId \<times> ManaColor \<Rightarrow> bool" where
  "tap_of srcs i t \<longleftrightarrow>
     i < length srcs \<and> fst t = source_id (srcs ! i) \<and> snd t \<in> set (choices (srcs ! i))"

definition tapped :: "ManaSource list \<Rightarrow> search \<Rightarrow> nat list \<Rightarrow> bool" where
  "tapped srcs s is \<longleftrightarrow>
     distinct is \<and> list_all2 (tap_of srcs) is (taps (plan s)) \<and>
     (\<forall>j < length srcs. used s ! j \<longleftrightarrow> j \<in> set is) \<and>
     avail srcs (used s) + sum_list (map (\<lambda>i. tap_yield (srcs ! i)) is)
       = avail srcs (replicate (length srcs) False)"

lemma psum_update: "k < length xs \<Longrightarrow> psum (xs[k := v]) + unat (xs ! k) = psum xs + unat v"
proof (induction xs arbitrary: k)
  case Nil
  then show ?case by simp
next
  case (Cons x xs)
  then show ?case by (cases k) (auto simp: psum_def)
qed

lemma psum_nth_le: "k < length xs \<Longrightarrow> unat (xs ! k) \<le> psum xs"
  using member_le_sum_list[of "unat (xs ! k)" "map unat xs"] by (simp add: psum_def)

lemma psum_replicate_0 [simp]: "psum (replicate n 0) = 0"
  by (simp add: psum_def sum_list_replicate)

lemma psum_eq_0: "psum xs = 0 \<longleftrightarrow> (\<forall>k < length xs. xs ! k = 0)"
  by (simp add: psum_def all_set_conv_all_nth unsigned_eq_0_iff)

lemma avail_set_used:
  assumes "i < length srcs" "length us = length srcs" "\<not> us ! i" "choices (srcs ! i) \<noteq> []"
  shows "avail srcs (us[i := True]) + tap_yield (srcs ! i) = avail srcs us"
  using assms
proof (induction srcs us arbitrary: i rule: list_induct2')
  case (4 x xs y ys)
  then show ?case by (cases i) (auto simp: avail_def)
qed auto

lemma tap_yield_nat: "tap_yield src = max (unat (yield_per_tap src)) 1"
  by (simp add: tap_yield_def max_def word_le_nat_alt)

lemma avail_0_iff:
  "length us = length srcs \<Longrightarrow>
   avail srcs us = 0 \<longleftrightarrow> (\<forall>i < length srcs. us ! i \<or> choices (srcs ! i) = [])"
  by (induction us srcs rule: list_induct2)
    (auto simp: avail_def tap_yield_nat All_less_Suc2)

lemma tap_yield_extra: "unat (saturating_sub (yield_per_tap src) 1) + 1 = tap_yield src"
  by (simp add: unat_saturating_sub tap_yield_nat)

lemma tap_yield_bound: "tap_yield src < 256"
  by (simp add: tap_yield_def unat_bound_u8)

section \<open>One step of the pip search\<close>

lemma unat_add_u8: "unat (a::u8) + unat b \<le> 255 \<Longrightarrow> unat (a + b) = unat a + unat b"
  by (rule unat_add_no_overflow) simp

lemma unat_pred_u8: "0 < (a::u8) \<Longrightarrow> unat (a - 1) = unat a - 1"
  by (simp add: unat_minus_one word_gt_0)

lemma acct_remaining_le:
  "acct pool srcs s \<Longrightarrow> k < 6 \<Longrightarrow>
   unat (pool_remaining s ! k) + unat (pool_used (plan s) ! k) \<le> 255"
  using psum_nth_le[of k pool] psum_nth_le[of k "surplus (plan s)"]
  by (fastforce simp: acct_def wf_search_def)

lemma spend_pool_step:
  assumes "acct pool srcs s" "0 < pool_remaining s ! pool_index c"
  shows "acct pool srcs (spend_pool c s) \<and> capacity srcs (spend_pool c s) + 1 = capacity srcs s \<and>
         tapped srcs (spend_pool c s) is = tapped srcs s is"
proof -
  let ?k = "pool_index c"
  have len: "?k < length (pool_remaining s)" "?k < length (pool_used (plan s))"
    using assms(1) by (simp_all add: acct_def wf_search_def)
  have u: "unat (pool_remaining s ! ?k - 1) = unat (pool_remaining s ! ?k) - 1"
    "unat (pool_remaining s ! ?k) > 0"
    using assms(2) by (simp_all add: unat_pred_u8 unat_gt_0 word_gt_0)
  have a: "unat (pool_used (plan s) ! ?k + 1) = unat (pool_used (plan s) ! ?k) + 1"
    using acct_remaining_le[OF assms(1), of ?k] u(2) by (subst unat_add_u8) simp_all
  have "0 < unat (pool ! ?k) + unat (surplus (plan s) ! ?k)"
    using assms(1) u(2) by (metis acct_def add_gr_0 pool_index_less_6)
  then have "acct pool srcs (spend_pool c s)"
    using assms(1) u a by (auto simp: acct_def wf_search_def spend_pool_def nth_list_update)
  moreover have "capacity srcs (spend_pool c s) + 1 = capacity srcs s"
    using psum_update[OF len(1), of "pool_remaining s ! ?k - 1"] u
    by (simp add: capacity_def spend_pool_def)
  ultimately show ?thesis by (simp add: tapped_def spend_pool_def)
qed

lemma pay_life_step:
  "acct pool srcs (pay_life n s) = acct pool srcs s"
  "capacity srcs (pay_life n s) = capacity srcs s"
  "tapped srcs (pay_life n s) is = tapped srcs s is"
  by (simp_all add: acct_def wf_search_def capacity_def tapped_def pay_life_def)

text \<open>Tapping source \<open>i\<close> for color \<open>c\<close> with \<open>extra\<close> mana left over, as both the pip search
  and the generic pass do it.\<close>

lemma tap_step:
  assumes "acct pool srcs s" "i < length srcs" "\<not> used s ! i" "c \<in> set (choices (srcs ! i))"
    and "unat extra + n = tap_yield (srcs ! i)"
    and t: "t = s\<lparr>used := (used s)[i := True],
       pool_remaining := (pool_remaining s)[pool_index c := pool_remaining s ! pool_index c + extra],
       plan := (plan s)\<lparr>taps := taps (plan s) @ [(source_id (srcs ! i), c)],
         surplus := (surplus (plan s))[pool_index c := surplus (plan s) ! pool_index c + extra]\<rparr>\<rparr>"
  shows "acct pool srcs t" "capacity srcs t + n = capacity srcs s"
    "tapped srcs s is \<Longrightarrow> tapped srcs t (is @ [i])"
proof -
  let ?k = "pool_index c"
  have wf: "length (used s) = length srcs" "?k < length (pool_remaining s)"
    "?k < length (surplus (plan s))" "?k < length pool"
    using assms(1) by (simp_all add: acct_def wf_search_def)
  have ne: "choices (srcs ! i) \<noteq> []" using assms(4) by auto
  have av: "avail srcs ((used s)[i := True]) + tap_yield (srcs ! i) = avail srcs (used s)"
    using assms(2,3) wf(1) ne by (intro avail_set_used) auto
  have bound: "psum pool + psum (surplus (plan s)) + avail srcs (used s) \<le> 255"
    and eq: "unat (pool_remaining s ! ?k) + unat (pool_used (plan s) ! ?k)
      = unat (pool ! ?k) + unat (surplus (plan s) ! ?k)"
    using assms(1) by (simp_all add: acct_def)
  have sp: "unat (surplus (plan s) ! ?k + extra) = unat (surplus (plan s) ! ?k) + unat extra"
    using bound av assms(5) psum_nth_le[OF wf(3)] by (intro unat_add_u8) linarith
  have pr: "unat (pool_remaining s ! ?k + extra) = unat (pool_remaining s ! ?k) + unat extra"
    using bound av assms(5) eq psum_nth_le[OF wf(3)] psum_nth_le[OF wf(4)]
    by (intro unat_add_u8) linarith
  have sps: "psum ((surplus (plan s))[?k := surplus (plan s) ! ?k + extra])
      = psum (surplus (plan s)) + unat extra"
    using psum_update[OF wf(3), of "surplus (plan s) ! ?k + extra"] sp by simp
  have prs: "psum ((pool_remaining s)[?k := pool_remaining s ! ?k + extra])
      = psum (pool_remaining s) + unat extra"
    using psum_update[OF wf(2), of "pool_remaining s ! ?k + extra"] pr by simp
  show "acct pool srcs t"
    using assms(1) sp pr sps av assms(5) unfolding t
    by (auto simp: acct_def wf_search_def nth_list_update)
  show "capacity srcs t + n = capacity srcs s"
    using prs av assms(5) unfolding t by (simp add: capacity_def)
  assume "tapped srcs s is"
  then show "tapped srcs t (is @ [i])"
    using assms(2,3,4) av wf(1) unfolding t
    by (auto simp: tapped_def tap_of_def nth_list_update intro!: list_all2_appendI)
qed

lemma tap_source_step:
  assumes "acct pool srcs s" "i < length srcs" "\<not> used s ! i" "c \<in> set (choices (srcs ! i))"
  shows "acct pool srcs (tap_source srcs None i c s)"
    "capacity srcs (tap_source srcs None i c s) + 1 = capacity srcs s"
    "tapped srcs s is \<Longrightarrow> tapped srcs (tap_source srcs None i c s) (is @ [i])"
  using tap_step[OF assms tap_yield_extra refl] assms
  by (simp_all add: tap_source_def Let_def set_spell_source_used_v1_def)

text \<open>A pip costs one mana, or two life.\<close>

lemma pay_pip_step:
  assumes "pay_pip ctx p s t" "source_choices ctx = None" "acct pool (sources ctx) s"
    "tapped (sources ctx) s is"
  shows "\<exists>l is'. acct pool (sources ctx) t \<and> tapped (sources ctx) t is' \<and>
    capacity (sources ctx) t + 1 = capacity (sources ctx) s + l \<and>
    life_paid (plan t) = life_paid (plan s) + 2 * int l \<and>
    l \<le> (if is_phyrexian p then 1 else 0) \<and>
    (0 < l \<longrightarrow> life_paid (plan t) \<le> max_life_payment ctx)"
  using assms
proof (cases rule: pay_pip.cases)
  case (from_pool c)
  then show ?thesis
    using assms(3,4) spend_pool_step[of pool "sources ctx" s c "is"]
    by (intro exI[of _ 0] exI[of _ "is"]) (auto simp: spend_pool_def)
next
  case (from_source i c)
  then show ?thesis
    using assms(2,3,4) tap_source_step[of pool "sources ctx" s i c]
    by (intro exI[of _ 0] exI[of _ "is @ [i]"]) (auto simp: tap_source_def Let_def)
next
  case with_life
  then show ?thesis
    using assms(3,4)
    by (intro exI[of _ 1] exI[of _ "is"]) (auto simp: pay_life_step, simp_all add: pay_life_def)
qed

definition phyrexian_pips :: "Pip list \<Rightarrow> nat" where
  "phyrexian_pips ps = length (filter is_phyrexian ps)"

lemma pay_pips_steps:
  assumes "pay_pips ctx ps s t" "source_choices ctx = None" "acct pool (sources ctx) s"
    "tapped (sources ctx) s is" "life_paid (plan s) \<le> max_life_payment ctx"
  shows "\<exists>l is'. acct pool (sources ctx) t \<and> tapped (sources ctx) t is' \<and>
    capacity (sources ctx) t + length ps = capacity (sources ctx) s + l \<and>
    life_paid (plan t) = life_paid (plan s) + 2 * int l \<and> l \<le> phyrexian_pips ps \<and>
    life_paid (plan t) \<le> max_life_payment ctx"
  using assms
proof (induction arbitrary: "is" rule: pay_pips.induct)
  case (no_pips ctx s)
  then show ?case by (auto simp: phyrexian_pips_def)
next
  case (more_pips ctx p s m ps t)
  obtain l js where l: "acct pool (sources ctx) m" "tapped (sources ctx) m js"
    "capacity (sources ctx) m + 1 = capacity (sources ctx) s + l"
    "life_paid (plan m) = life_paid (plan s) + 2 * int l" "l \<le> (if is_phyrexian p then 1 else 0)"
    "0 < l \<longrightarrow> life_paid (plan m) \<le> max_life_payment ctx"
    using pay_pip_step[OF more_pips.hyps(1) more_pips.prems(1-3)] by blast
  have "life_paid (plan m) \<le> max_life_payment ctx"
    using l(4,6) more_pips.prems(4) by (cases "l = 0") auto
  then obtain l' ks where l': "acct pool (sources ctx) t" "tapped (sources ctx) t ks"
    "capacity (sources ctx) t + length ps = capacity (sources ctx) m + l'"
    "life_paid (plan t) = life_paid (plan m) + 2 * int l'" "l' \<le> phyrexian_pips ps"
    "life_paid (plan t) \<le> max_life_payment ctx"
    using more_pips.IH[OF more_pips.prems(1) l(1,2)] by blast
  have "l + l' \<le> phyrexian_pips (p # ps)"
    using l(5) l'(5) by (auto simp: phyrexian_pips_def split: if_splits)
  then show ?case
    using l l' by (intro exI[of _ "l + l'"] exI[of _ ks]) auto
qed

section \<open>The greedy generic pass\<close>

lemma drain_eq:
  "drain n amt us =
     (n - unat amt, amt - word_of_nat (min n (unat amt)), us + word_of_nat (min n (unat amt)))"
proof (induction n arbitrary: amt us)
  case 0
  then show ?case by simp
next
  case (Suc n)
  show ?case
  proof (cases "0 < amt")
    case True
    then have "unat amt = Suc (unat (amt - 1))"
      using unat_pred_u8[of amt] by (simp add: unat_gt_0 word_gt_0)
    with True show ?thesis by (simp add: Suc.IH algebra_simps)
  next
    case False
    then show ?thesis by (simp add: word_gt_0)
  qed
qed

text \<open>Both loops of the pass keep the invariant, lower the open amount and the capacity by the
  same number, and record each tap.\<close>

definition generic_step :: "u8 list \<Rightarrow> ManaSource list \<Rightarrow> nat \<times> search \<Rightarrow> nat \<times> search \<Rightarrow> bool" where
  "generic_step pool srcs = (\<lambda>(n, s) (n', t).
     acct pool srcs t \<and> n + capacity srcs t = n' + capacity srcs s \<and> n' \<le> n \<and>
     life_paid (plan t) = life_paid (plan s) \<and>
     restricted_pool_used (plan t) = restricted_pool_used (plan s) \<and>
     (\<forall>is. tapped srcs s is \<longrightarrow> (\<exists>is'. tapped srcs t is')))"

lemma generic_step_refl: "acct pool srcs s \<Longrightarrow> generic_step pool srcs (n, s) (n, s)"
  by (auto simp: generic_step_def)

lemma generic_step_trans:
  "generic_step pool srcs a b \<Longrightarrow> generic_step pool srcs b c \<Longrightarrow> generic_step pool srcs a c"
  by (cases a; cases b; cases c; simp add: generic_step_def; metis)

lemma drain_color_step:
  assumes "acct pool srcs s"
  shows "generic_step pool srcs (n, s) (drain_color c (n, s))"
    and "0 < fst (drain_color c (n, s)) \<Longrightarrow>
         pool_remaining (snd (drain_color c (n, s))) ! pool_index c = 0"
    and "pool_remaining (snd (drain_color c (n, s))) ! k \<le> pool_remaining s ! k"
proof -
  let ?k = "pool_index c"
  define d where "d = min n (unat (pool_remaining s ! ?k))"
  let ?r = "pool_remaining s ! ?k - word_of_nat d" and ?u = "pool_used (plan s) ! ?k + word_of_nat d"
  have wf: "?k < length (pool_remaining s)" "?k < length (pool_used (plan s))"
    using assms by (simp_all add: acct_def wf_search_def)
  have d: "d \<le> n" "d \<le> unat (pool_remaining s ! ?k)" "d < 256"
    using unat_bound_u8[of "pool_remaining s ! ?k"] by (auto simp: d_def)
  have ud: "unat (word_of_nat d :: u8) = d" using d(3) by (simp add: unat_of_nat)
  have r: "unat ?r = unat (pool_remaining s ! ?k) - d"
    using d(2) ud by (simp add: unat_sub word_le_nat_alt)
  have u: "unat ?u = unat (pool_used (plan s) ! ?k) + d"
    using acct_remaining_le[OF assms, of ?k] d(2) ud by (subst unat_add_u8) simp_all
  have eq: "drain_color c (n, s) = (n - d, s\<lparr>pool_remaining := (pool_remaining s)[?k := ?r],
      plan := (plan s)\<lparr>pool_used := (pool_used (plan s))[?k := ?u]\<rparr>\<rparr>)"
    by (simp add: drain_color_def drain_eq d_def Let_def min_def)
  have ac: "acct pool srcs (snd (drain_color c (n, s)))"
    using assms r u d(2) unfolding eq
    by (auto simp: acct_def wf_search_def nth_list_update)
  have "psum ((pool_remaining s)[?k := ?r]) + d = psum (pool_remaining s)"
    using psum_update[OF wf(1), of ?r] r d(2) by simp
  then show "generic_step pool srcs (n, s) (drain_color c (n, s))"
    using ac d(1) unfolding eq
    by (auto simp: generic_step_def capacity_def tapped_def)
  show "0 < fst (drain_color c (n, s)) \<Longrightarrow>
      pool_remaining (snd (drain_color c (n, s))) ! ?k = 0"
    using wf(1) r unfolding eq by (auto simp: d_def min_def unsigned_eq_0_iff split: if_splits)
  show "pool_remaining (snd (drain_color c (n, s))) ! k \<le> pool_remaining s ! k"
    using wf(1) r unfolding eq by (cases "k = ?k") (auto simp: word_le_nat_alt)
qed

lemma drain_fold:
  assumes "acct pool srcs s" "fold drain_color cs (n, s) = (n', t)"
  shows "generic_step pool srcs (n, s) (n', t) \<and>
    (0 < n' \<longrightarrow> (\<forall>c \<in> set cs. pool_remaining t ! pool_index c = 0)) \<and>
    (\<forall>k. pool_remaining t ! k \<le> pool_remaining s ! k)"
  using assms
proof (induction cs arbitrary: n s)
  case Nil
  then show ?case by (simp add: generic_step_refl)
next
  case (Cons x cs)
  obtain m u where mu: "drain_color x (n, s) = (m, u)" by fastforce
  note st = drain_color_step[OF Cons.prems(1), where n = n and c = x, unfolded mu fst_conv snd_conv]
  have u: "acct pool srcs u" "fold drain_color cs (m, u) = (n', t)"
    using st(1) Cons.prems(2) mu by (simp_all add: generic_step_def)
  note IH = Cons.IH[OF u]
  have "n' \<le> m" using IH by (simp add: generic_step_def)
  have z: "pool_remaining t ! pool_index x = 0" if "0 < n'"
  proof -
    have "pool_remaining u ! pool_index x = 0" using st(2) that \<open>n' \<le> m\<close> by simp
    then show ?thesis using IH by (metis word_le_0_iff)
  qed
  have "pool_remaining t ! k \<le> pool_remaining s ! k" for k
    using IH st(3)[of k] order_trans by blast
  with IH st(1) z generic_step_trans show ?case by auto
qed

text \<open>The loop over the sources: while something is open, every source it passes is used up.\<close>

lemma generic_source_color_None:
  "generic_source_color srcs None i = (case choices (srcs ! i) of c # _ \<Rightarrow> Some c | [] \<Rightarrow> None)"
  by (simp add: generic_source_color_def split: list.split)

lemma tap_generic_step:
  assumes "acct pool srcs s" "i < length srcs" "tap_generic srcs None i (n, s) = (n', t)"
  shows "generic_step pool srcs (n, s) (n', t) \<and>
    (0 < n' \<longrightarrow> pool_remaining t = pool_remaining s \<and> (used t ! i \<or> choices (srcs ! i) = [])) \<and>
    (\<forall>j. used s ! j \<longrightarrow> used t ! j)"
proof (cases "n = 0 \<or> used s ! i \<or> choices (srcs ! i) = []")
  case True
  then have "n' = n" "t = s"
    using assms(3) by (auto simp: tap_generic_def generic_source_color_None split: list.splits if_splits)
  with True assms(1) show ?thesis by (auto simp: generic_step_refl)
next
  case False
  then obtain c cs where c: "choices (srcs ! i) = c # cs" by (cases "choices (srcs ! i)") auto
  define sp where "sp = min (tap_yield (srcs ! i)) n"
  define ex :: u8 where "ex = word_of_nat (tap_yield (srcs ! i) - sp)"
  have ex: "unat ex = tap_yield (srcs ! i) - sp"
    using tap_yield_bound[of "srcs ! i"] by (simp add: ex_def unat_of_nat)
  have t: "n' = n - sp" "t = s\<lparr>used := (used s)[i := True],
       pool_remaining := (pool_remaining s)[pool_index c := pool_remaining s ! pool_index c + ex],
       plan := (plan s)\<lparr>taps := taps (plan s) @ [(source_id (srcs ! i), c)],
         surplus := (surplus (plan s))[pool_index c := surplus (plan s) ! pool_index c + ex]\<rparr>\<rparr>"
    using assms(3) False c
    by (auto simp: tap_generic_def generic_source_color_None Let_def sp_def ex_def tap_yield_def
        set_spell_source_used_v1_def)
  have "unat ex + sp = tap_yield (srcs ! i)" using ex by (simp add: sp_def)
  note ts = tap_step[OF assms(1,2) _ _ this t(2)]
  have len: "length (used s) = length srcs" using assms(1) by (simp add: acct_def wf_search_def)
  have "generic_step pool srcs (n, s) (n', t)"
    using ts False c t(1) unfolding generic_step_def
    by (auto simp: sp_def) (auto simp: t(2))
  moreover have "ex = 0" if "0 < n'"
    using that t(1) by (simp add: ex_def sp_def min_def split: if_splits)
  ultimately show ?thesis
    using assms(2) len by (auto simp: t(2) nth_list_update)
qed

lemma tap_fold:
  assumes "acct pool srcs s" "\<forall>i \<in> set is. i < length srcs"
    "fold (tap_generic srcs None) is (n, s) = (n', t)"
  shows "generic_step pool srcs (n, s) (n', t) \<and>
    (0 < n' \<longrightarrow> pool_remaining t = pool_remaining s \<and>
       (\<forall>i \<in> set is. used t ! i \<or> choices (srcs ! i) = [])) \<and>
    (\<forall>j. used s ! j \<longrightarrow> used t ! j)"
  using assms
proof (induction "is" arbitrary: n s)
  case Nil
  then show ?case by (simp add: generic_step_refl)
next
  case (Cons i js)
  obtain m u where mu: "tap_generic srcs None i (n, s) = (m, u)" by fastforce
  have st: "generic_step pool srcs (n, s) (m, u) \<and>
    (0 < m \<longrightarrow> pool_remaining u = pool_remaining s \<and> (used u ! i \<or> choices (srcs ! i) = [])) \<and>
    (\<forall>j. used s ! j \<longrightarrow> used u ! j)"
    using Cons.prems(2) by (intro tap_generic_step[OF Cons.prems(1) _ mu]) simp
  have u: "acct pool srcs u" "fold (tap_generic srcs None) js (m, u) = (n', t)"
    using st Cons.prems(3) mu by (simp_all add: generic_step_def)
  note IH = Cons.IH[OF u(1) _ u(2)]
  have IH': "generic_step pool srcs (m, u) (n', t)"
    "0 < n' \<Longrightarrow> pool_remaining t = pool_remaining u"
    "0 < n' \<Longrightarrow> \<forall>i \<in> set js. used t ! i \<or> choices (srcs ! i) = []"
    "\<forall>j. used u ! j \<longrightarrow> used t ! j"
    using IH Cons.prems(2) by auto
  have "n' \<le> m" using IH'(1) by (simp add: generic_step_def)
  then show ?case
    using st IH' generic_step_trans by auto
qed

lemma all_colors_zero:
  assumes "length pr = 6" "\<forall>c \<in> set GENERIC_POOL_PAYMENT_ORDER. pr ! pool_index c = 0"
  shows "psum pr = 0"
proof -
  have "\<exists>c \<in> set GENERIC_POOL_PAYMENT_ORDER. pool_index c = k" if "k < 6" for k
    using that by (auto simp: GENERIC_POOL_PAYMENT_ORDER_def less_Suc_eq numeral_eq_Suc)
  with assms show ?thesis unfolding psum_eq_0 by metis
qed

text \<open>The pass pays exactly the amounts that the capacity covers.\<close>

lemma pay_generic_exact:
  assumes "acct pool srcs s" "pay_generic n srcs s = (ok, t)"
  shows "(ok \<longleftrightarrow> n \<le> capacity srcs s) \<and>
    (ok \<longrightarrow> generic_step pool srcs (n, s) (0, t))"
proof -
  obtain m u where mu: "fold drain_color GENERIC_POOL_PAYMENT_ORDER (n, s) = (m, u)" by fastforce
  obtain n' t' where nt: "fold (tap_generic srcs None) [0..<length srcs] (m, u) = (n', t')"
    by fastforce
  have t: "t' = t" "ok \<longleftrightarrow> n' = 0"
    using assms(2) mu nt
    by (auto simp: pay_generic_def pay_generic_with_source_choices_v1_def generic_source_order_def)
  note dr = drain_fold[OF assms(1) mu]
  have u: "acct pool srcs u" using dr by (simp add: generic_step_def)
  note tp = tap_fold[OF u _ nt]
  have step: "generic_step pool srcs (n, s) (n', t')"
    using dr tp generic_step_trans by auto
  have bal: "n + capacity srcs t' = n' + capacity srcs s"
    using step by (simp add: generic_step_def)
  have "capacity srcs t' = 0" if "0 < n'"
  proof -
    have wf: "length (used t') = length srcs" "length (pool_remaining u) = 6"
      using step u by (simp_all add: generic_step_def acct_def wf_search_def)
    have "n' \<le> m" using tp by (simp add: generic_step_def)
    then have "psum (pool_remaining u) = 0"
      using dr that wf(2) by (intro all_colors_zero) auto
    then show ?thesis using tp that wf(1) by (simp add: capacity_def avail_0_iff)
  qed
  with bal t step show ?thesis by (cases "n' = 0") auto
qed

end
