(* ===== verification/Mana_Planner.thy ===== *)
theory Mana_Planner
  imports Mana_Pay
begin

text \<open>
  The planners of \<^verbatim>\<open>mana.rs\<close>: what a returned plan guarantees, when a plan is found, and how
  restricted mana is separated from the ordinary pool. The hypothesis \<open>capacity \<le> 255\<close> says
  that the floating mana and the sources together make at most 255 mana, so that the byte
  counters of the code cannot wrap.
\<close>

section \<open>Plans\<close>

text \<open>\<open>n\<close> mana is paid: by taps of distinct sources for colors they make, and from the pool,
  where color by color only floating mana and the surplus of taps is used.\<close>

definition plan_pays :: "ManaSource list \<Rightarrow> u8 list \<Rightarrow> PaymentPlan \<Rightarrow> nat \<Rightarrow> bool" where
  "plan_pays srcs pool pln n \<longleftrightarrow>
     (\<forall>k < 6. unat (pool_used pln ! k) \<le> unat (pool ! k) + unat (surplus pln ! k)) \<and>
     (\<exists>is. distinct is \<and> list_all2 (tap_of srcs) is (taps pln) \<and>
        psum (pool_used pln) + sum_list (map (\<lambda>i. tap_yield (srcs ! i)) is)
          = n + psum (surplus pln))"

lemma psum_split:
  assumes "length xs = n" "length ys = n" "length zs = n" "length ws = n"
    and "\<forall>k < n. unat (xs ! k) + unat (ys ! k) = unat (zs ! k) + unat (ws ! k)"
  shows "psum xs + psum ys = psum zs + psum ws"
proof -
  have p: "psum vs = (\<Sum>k<n. unat (vs ! k))" if "length vs = n" for vs :: "u8 list"
    using that by (simp add: psum_def sum_list_sum_nth atLeast0LessThan)
  show ?thesis
    using assms by (simp add: p sum.distrib[symmetric])
qed

lemma acct_plan_pays:
  assumes "acct pool srcs t" "tapped srcs t is"
    and "psum pool + avail srcs (replicate (length srcs) False) = capacity srcs t + n"
  shows "plan_pays srcs pool (plan t) n"
proof -
  have "psum (pool_remaining t) + psum (pool_used (plan t)) = psum pool + psum (surplus (plan t))"
    using assms(1) by (intro psum_split[where n = 6]) (auto simp: acct_def wf_search_def)
  moreover have "unat (pool_used (plan t) ! k) \<le> unat (pool ! k) + unat (surplus (plan t) ! k)"
    if "k < 6" for k
    using assms(1) that by (metis acct_def le_add2)
  ultimately show ?thesis
    using assms(2,3) unfolding plan_pays_def tapped_def capacity_def
    by (intro conjI exI[of _ "is"]) auto
qed

lemma search_start_ok:
  assumes "length pool = 6"
  shows "search_ok ctx (search_start pool (sources ctx)) \<longleftrightarrow>
     (case source_choices ctx of None \<Rightarrow> True | Some ch \<Rightarrow> length (aliases ch) = length (sources ctx))"
  using assms
  by (auto simp: search_ok_def wf_search_def alias_ok_def search_start_def plan_default_def
      split: option.split)

lemma search_start_acct:
  assumes "length pool = 6" "capacity srcs (search_start pool srcs) \<le> 255"
  shows "acct pool srcs (search_start pool srcs)" "tapped srcs (search_start pool srcs) []"
    "capacity srcs (search_start pool srcs) = psum pool + avail srcs (replicate (length srcs) False)"
  using assms
  by (auto simp: acct_def wf_search_def capacity_def tapped_def search_start_def plan_default_def)

lemma phyrexian_pips_le: "phyrexian_pips ps \<le> length ps"
  by (simp add: phyrexian_pips_def)

text \<open>Paying the pips and then the generic amount.\<close>

lemma pips_then_generic:
  assumes "length pool = 6" "capacity (sources ctx) (search_start pool (sources ctx)) \<le> 255"
    and "source_choices ctx = None" "0 \<le> max_life_payment ctx"
    and "pay_pips ctx ps (search_start pool (sources ctx)) m"
    and "pay_generic gen (sources ctx) m = (True, t)"
  shows "\<exists>l. l \<le> phyrexian_pips ps \<and> life_paid (plan t) = 2 * int l \<and>
     life_paid (plan t) \<le> max_life_payment ctx \<and>
     plan_pays (sources ctx) pool (plan t) (length ps - l + gen)"
proof -
  note st = search_start_acct[OF assms(1,2)]
  have lp0: "life_paid (plan (search_start pool (sources ctx))) = 0"
    by (simp add: search_start_def plan_default_def)
  with assms(4) have lp: "life_paid (plan (search_start pool (sources ctx))) \<le> max_life_payment ctx"
    by simp
  obtain l js where l: "acct pool (sources ctx) m" "tapped (sources ctx) m js"
    "capacity (sources ctx) m + length ps = capacity (sources ctx) (search_start pool (sources ctx)) + l"
    "life_paid (plan m) = 2 * int l" "l \<le> phyrexian_pips ps"
    "life_paid (plan m) \<le> max_life_payment ctx"
    using pay_pips_steps[OF assms(5,3) st(1,2) lp] lp0 by auto
  have gs: "gen + capacity (sources ctx) t = capacity (sources ctx) m"
    "acct pool (sources ctx) t" "life_paid (plan t) = life_paid (plan m)"
    "\<exists>ks. tapped (sources ctx) t ks"
    using pay_generic_exact[OF l(1) assms(6)] l(2) by (auto simp: generic_step_def)
  have "l \<le> length ps"
    using l(5) phyrexian_pips_le[of ps] by linarith
  then have "psum pool + avail (sources ctx) (replicate (length (sources ctx)) False)
      = capacity (sources ctx) t + (length ps - l + gen)"
    using l(3) gs(1) st(3) by simp
  then have "plan_pays (sources ctx) pool (plan t) (length ps - l + gen)"
    using gs(2,4) acct_plan_pays by blast
  with l gs(3) show ?thesis by auto
qed

lemma pay_pips_capacity:
  assumes "length pool = 6" "capacity (sources ctx) (search_start pool (sources ctx)) \<le> 255"
    and "source_choices ctx = None" "0 \<le> max_life_payment ctx"
    and "pay_pips ctx ps (search_start pool (sources ctx)) m"
  shows "\<exists>l \<le> phyrexian_pips ps. acct pool (sources ctx) m \<and>
    capacity (sources ctx) m + length ps = capacity (sources ctx) (search_start pool (sources ctx)) + l"
proof -
  have "life_paid (plan (search_start pool (sources ctx))) \<le> max_life_payment ctx"
    using assms(4) by (simp add: search_start_def plan_default_def)
  then show ?thesis
    using pay_pips_steps[OF assms(5,3) search_start_acct(1,2)[OF assms(1,2)]] by blast
qed

section \<open>The capacity check rejects nothing payable\<close>

lemma sat_add_u64_min: "sat_add_u64 a b = min (a + b) (2 ^ 64 - 1)"
  by (auto simp: sat_add_u64_def min_def)

lemma minimum_mana_le: "minimum_mana ps gen \<le> gen + (length ps - phyrexian_pips ps)"
proof (induction ps arbitrary: gen)
  case Nil
  then show ?case by (simp add: minimum_mana_def)
next
  case (Cons p ps)
  have "minimum_mana (p # ps) gen = minimum_mana ps (sat_add_u64 gen (if is_phyrexian p then 0 else 1))"
    by (simp add: minimum_mana_def)
  also have "\<dots> \<le> sat_add_u64 gen (if is_phyrexian p then 0 else 1) + (length ps - phyrexian_pips ps)"
    by (rule Cons.IH)
  also have "\<dots> \<le> gen + (length (p # ps) - phyrexian_pips (p # ps))"
  proof -
    have "sat_add_u64 gen x \<le> gen + x" for x by (simp add: sat_add_u64_min)
    moreover have "length (p # ps) - phyrexian_pips (p # ps)
        = (if is_phyrexian p then 0 else 1) + (length ps - phyrexian_pips ps)"
      using phyrexian_pips_le[of ps] by (simp add: phyrexian_pips_def Suc_diff_le)
    ultimately show ?thesis by (metis add.assoc add_le_mono1)
  qed
  finally show ?case .
qed

lemma mana_capacity_fold:
  "min (acc + avail srcs us) (2 ^ 64 - 1) \<le>
   fold (\<lambda>(src, u) total. sat_add_u64 total (if u then 0 else unat (max (yield_per_tap src) 1)))
     (zip srcs us) acc"
proof (induction srcs us arbitrary: acc rule: list_induct2')
  case (4 x xs y ys)
  let ?a = "sat_add_u64 acc (if y then 0 else unat (max (yield_per_tap x) 1))"
  have "min (acc + avail (x # xs) (y # ys)) (2 ^ 64 - 1) \<le> min (?a + avail xs ys) (2 ^ 64 - 1)"
    by (auto simp: avail_def sat_add_u64_min tap_yield_def)
  also have "\<dots> \<le> fold (\<lambda>(src, u) total.
      sat_add_u64 total (if u then 0 else unat (max (yield_per_tap src) 1))) (zip xs ys) ?a"
    by (rule "4.IH")
  finally show ?case by simp
qed (auto simp: avail_def)

lemma mana_capacity_ge: "capacity srcs s \<le> 255 \<Longrightarrow> capacity srcs s \<le> mana_capacity srcs s"
  using mana_capacity_fold[of "psum (pool_remaining s)" srcs "used s"]
  by (simp add: capacity_def mana_capacity_def psum_def)

text \<open>The search with the generic amount included, from the start of a payment.\<close>

lemma search_exact:
  assumes "length pool = 6" "capacity (sources ctx) (search_start pool (sources ctx)) \<le> 255"
    and "source_choices ctx = None" "0 \<le> max_life_payment ctx" "generic_needed ctx = Some gen"
  shows "case solve_pips_with_mana_policy_v72 ps ctx (search_start pool (sources ctx)) of
      (True, t) \<Rightarrow> \<exists>m. pay_pips ctx ps (search_start pool (sources ctx)) m \<and>
                    pay_generic gen (sources ctx) m = (True, t)
    | (False, _) \<Rightarrow> \<not> (\<exists>m. pay_pips ctx ps (search_start pool (sources ctx)) m \<and>
                    gen \<le> capacity (sources ctx) m)"
proof -
  let ?s = "search_start pool (sources ctx)" and ?srcs = "sources ctx"
  have ok: "search_ok ctx ?s" using assms(1,3) by (simp add: search_start_ok)
  have fin: "solve_pips_rec [] ctx m = (case pay_generic gen ?srcs m of
      (True, t) \<Rightarrow> (True, t) | (False, _) \<Rightarrow> (False, m))" for m
    using assms(3,5)
    by (simp add: finish_spell_generic_payment_v1_def requires_creature_def pay_generic_def)
  have mc: "acct pool ?srcs m" if "pay_pips ctx ps ?s m" for m
    using pay_pips_capacity[OF assms(1-4) that] by blast
  have pre: "minimum_mana ps gen \<le> mana_capacity ?srcs ?s"
    if "pay_pips ctx ps ?s m" "gen \<le> capacity ?srcs m" for m
  proof -
    have "gen + (length ps - phyrexian_pips ps) \<le> capacity ?srcs ?s"
      using pay_pips_capacity[OF assms(1-4) that(1)] that(2)
      by (auto simp: phyrexian_pips_def)
    then show ?thesis
      using minimum_mana_le[of ps gen] mana_capacity_ge[OF assms(2)] by linarith
  qed
  have gen_ok: "fst (solve_pips_rec [] ctx m) \<longleftrightarrow> gen \<le> capacity ?srcs m"
    if "pay_pips ctx ps ?s m" for m
    using pay_generic_exact[OF mc[OF that]]
    by (cases "pay_generic gen ?srcs m")
      (auto simp: fin simp del: solve_pips_rec.simps split: bool.split)
  note oc = solve_pips_rec_cases[OF ok, of ps]
  show ?thesis
  proof (cases "minimum_mana ps gen > mana_capacity ?srcs ?s")
    case True
    then show ?thesis using pre assms(5)
      by (auto simp: solve_pips_with_mana_policy_v72_def not_less[symmetric])
  next
    case False
    then have eq: "solve_pips_with_mana_policy_v72 ps ctx ?s = solve_pips_rec ps ctx ?s"
      using assms(5) by (simp add: solve_pips_with_mana_policy_v72_def)
    show ?thesis
    proof (cases "fst (solve_pips_rec ps ctx ?s)")
      case True
      with oc obtain m where m: "pay_pips ctx ps ?s m" "solve_pips_rec [] ctx m = solve_pips_rec ps ctx ?s"
        by (auto simp del: solve_pips_rec.simps)
      from True m(2) have "fst (solve_pips_rec [] ctx m)" by (simp del: solve_pips_rec.simps)
      then have "pay_generic gen ?srcs m = solve_pips_rec [] ctx m"
        by (cases "pay_generic gen ?srcs m")
          (auto simp: fin simp del: solve_pips_rec.simps split: bool.splits)
      with m True show ?thesis unfolding eq by (cases "solve_pips_rec ps ctx ?s") auto
    next
      case False
      with oc have "\<forall>m. pay_pips ctx ps ?s m \<longrightarrow> \<not> fst (solve_pips_rec [] ctx m)"
        by (metis prod.collapse)
      with False gen_ok show ?thesis unfolding eq
        by (cases "solve_pips_rec ps ctx ?s") (auto simp del: solve_pips_rec.simps)
    qed
  qed
qed

section \<open>Restricted mana\<close>

text \<open>How many units of color \<open>k\<close> are permitted, among all of them and among those indexed.\<close>

definition permitted_units ::
  "('r RestrictedManaUnitV1 \<Rightarrow> bool) \<Rightarrow> nat \<Rightarrow> 'r RestrictedManaUnitV1 list \<Rightarrow> nat" where
  "permitted_units permits k us =
     length (filter (\<lambda>u. permits u \<and> pool_index (unit_color u) = k) us)"

lemma permitted_units_simps [simp]:
  "permitted_units permits k [] = 0"
  "permitted_units permits k (u # us) =
     (if permits u \<and> pool_index (unit_color u) = k then 1 else 0) + permitted_units permits k us"
  by (simp_all add: permitted_units_def)

lemma unat_saturating_add_u8: "unat (saturating_add (a::u8) b) = min 255 (unat a + unat b)"
  by (auto simp: saturating_add_def unat_add_u8 unsigned_minus_1_eq_mask mask_eq_exp_minus_1)

lemma floating_pool_fold:
  "length (pool :: u8 list) = 6 \<Longrightarrow> k < 6 \<Longrightarrow>
   unat (fold (\<lambda>u pool. if permits u
            then pool[pool_index (unit_color u) := saturating_add (pool ! pool_index (unit_color u)) 1]
            else pool) us pool ! k)
     = min 255 (unat (pool ! k) + permitted_units permits k us)"
proof (induction us arbitrary: pool)
  case Nil
  then show ?case using unat_bound_u8[of "pool ! k"] by simp
next
  case (Cons u us)
  then show ?case
    by (cases "pool_index (unit_color u) = k") (auto simp: unat_saturating_add_u8)
qed

lemma floating_pool_nth:
  "length (mana_pool pl) = 6 \<Longrightarrow> k < 6 \<Longrightarrow> unat (spell_floating_pool permits pl ! k)
     = min 255 (unat (mana_pool pl ! k) + permitted_units permits k (restricted_mana_pool pl))"
  unfolding spell_floating_pool_def by (rule floating_pool_fold)

lemma length_floating_pool [simp]:
  "length (spell_floating_pool permits pl) = length (mana_pool pl)"
proof -
  have "length (fold (\<lambda>u pool. if permits u
            then pool[pool_index (unit_color u) := saturating_add (pool ! pool_index (unit_color u)) 1]
            else pool) us pool) = length pool" for us pool
    by (induction us arbitrary: pool) auto
  then show ?thesis by (simp add: spell_floating_pool_def)
qed

lemma separate_fold:
  assumes "length (pool_used pln) = 6"
    and "q = fold (separate_unit permits) (enumerate n us) pln"
  shows "length (pool_used q) = 6 \<and> taps q = taps pln \<and> surplus q = surplus pln \<and>
    life_paid q = life_paid pln \<and>
    (\<forall>k < 6. unat (pool_used q ! k) = unat (pool_used pln ! k) - permitted_units permits k us) \<and>
    (\<exists>js. restricted_pool_used q = restricted_pool_used pln @ js \<and> distinct js \<and>
       (\<forall>j \<in> set js. n \<le> j \<and> j < n + length us \<and> permits (us ! (j - n))) \<and>
       psum (pool_used q) + length js = psum (pool_used pln))"
  using assms
proof (induction us arbitrary: n pln)
  case Nil
  then show ?case by simp
next
  case (Cons u us)
  let ?k = "pool_index (unit_color u)"
  show ?case
  proof (cases "permits u \<and> 0 < pool_used pln ! ?k")
    case True
    define p1 where "p1 = pln\<lparr>pool_used := (pool_used pln)[?k := pool_used pln ! ?k - 1],
        restricted_pool_used := restricted_pool_used pln @ [n]\<rparr>"
    have q: "q = fold (separate_unit permits) (enumerate (Suc n) us) p1"
      using Cons.prems(2) True by (simp add: separate_unit_def Let_def p1_def)
    have l1: "length (pool_used p1) = 6" using Cons.prems(1) by (simp add: p1_def)
    have pos: "unat (pool_used pln ! ?k) > 0" "unat (pool_used pln ! ?k - 1) = unat (pool_used pln ! ?k) - 1"
      using True by (simp_all add: unat_gt_0 word_gt_0 unat_pred_u8)
    have s1: "psum (pool_used p1) + 1 = psum (pool_used pln)"
      using psum_update[of ?k "pool_used pln" "pool_used pln ! ?k - 1"] Cons.prems(1) pos
      by (simp add: p1_def)
    have u1: "unat (pool_used p1 ! k) = unat (pool_used pln ! k) - (if ?k = k then 1 else 0)"
      if "k < 6" for k
      using that pos Cons.prems(1) by (cases "?k = k") (auto simp: p1_def)
    obtain js where js: "restricted_pool_used q = restricted_pool_used p1 @ js" "distinct js"
      "\<forall>j \<in> set js. Suc n \<le> j \<and> j < Suc n + length us \<and> permits (us ! (j - Suc n))"
      "psum (pool_used q) + length js = psum (pool_used p1)"
      using Cons.IH[OF l1 q] by blast
    have "permits ((u # us) ! (j - n)) \<and> n \<le> j \<and> j < n + length (u # us)" if "j \<in> set (n # js)" for j
    proof (cases "j = n")
      case False
      with that js(3) have "Suc n \<le> j" "j < Suc n + length us" "permits (us ! (j - Suc n))" by auto
      moreover from this(1) have "j - n = Suc (j - Suc n)" by simp
      ultimately show ?thesis by simp
    qed (use True in simp)
    moreover have "distinct (n # js)" using js(2,3) by fastforce
    ultimately have "\<exists>js. restricted_pool_used q = restricted_pool_used pln @ js \<and> distinct js \<and>
       (\<forall>j \<in> set js. n \<le> j \<and> j < n + length (u # us) \<and> permits ((u # us) ! (j - n))) \<and>
       psum (pool_used q) + length js = psum (pool_used pln)"
      using js(1,4) s1 by (intro exI[of _ "n # js"]) (auto simp: p1_def)
    with Cons.IH[OF l1 q] u1 True show ?thesis
      by (auto simp: p1_def)
  next
    case False
    then have q: "q = fold (separate_unit permits) (enumerate (Suc n) us) pln"
      using Cons.prems(2) by (auto simp: separate_unit_def Let_def)
    obtain js where js: "restricted_pool_used q = restricted_pool_used pln @ js" "distinct js"
      "\<forall>j \<in> set js. Suc n \<le> j \<and> j < Suc n + length us \<and> permits (us ! (j - Suc n))"
      "psum (pool_used q) + length js = psum (pool_used pln)"
      using Cons.IH[OF Cons.prems(1) q] by blast
    have "permits ((u # us) ! (j - n)) \<and> n \<le> j \<and> j < n + length (u # us)" if "j \<in> set js" for j
    proof -
      from that js(3) have "Suc n \<le> j" "j < Suc n + length us" "permits (us ! (j - Suc n))" by auto
      moreover from this(1) have "j - n = Suc (j - Suc n)" by simp
      ultimately show ?thesis by simp
    qed
    moreover have "unat (pool_used pln ! k) = 0" if "permits u" "?k = k" for k
      using False that by (simp add: word_gt_0 unsigned_eq_0_iff)
    ultimately show ?thesis
      using Cons.IH[OF Cons.prems(1) q] js by auto
  qed
qed

section \<open>Properties of the planners\<close>

definition planner_ctx :: "ManaSource list \<Rightarrow> int \<Rightarrow> nat \<Rightarrow> PipManaPolicyV72 \<Rightarrow> search_ctx" where
  "planner_ctx srcs budget gen pol =
     \<lparr>sources = srcs, max_life_payment = budget, generic_needed = Some gen,
      source_choices = None, policy = pol\<rparr>"

text \<open>What the caller of the spell planner relies on.\<close>

definition spell_plan_ok ::
  "ManaSource list \<Rightarrow> ('r RestrictedManaUnitV1 \<Rightarrow> bool) \<Rightarrow> 'r player_mana \<Rightarrow> PaymentPlan \<Rightarrow> nat \<Rightarrow> bool" where
  "spell_plan_ok srcs permits pl pln n \<longleftrightarrow>
     (\<forall>k < 6. unat (pool_used pln ! k) \<le> unat (mana_pool pl ! k) + unat (surplus pln ! k)) \<and>
     distinct (restricted_pool_used pln) \<and>
     (\<forall>j \<in> set (restricted_pool_used pln).
        j < length (restricted_mana_pool pl) \<and> permits (restricted_mana_pool pl ! j)) \<and>
     (\<exists>is. distinct is \<and> list_all2 (tap_of srcs) is (taps pln) \<and>
        psum (pool_used pln) + length (restricted_pool_used pln)
          + sum_list (map (\<lambda>i. tap_yield (srcs ! i)) is) = n + psum (surplus pln))"

lemma separate_plan_ok:
  assumes "plan_pays srcs (spell_floating_pool permits pl) pln n"
    and "length (pool_used pln) = 6" "length (mana_pool pl) = 6" "restricted_pool_used pln = []"
  shows "spell_plan_ok srcs permits pl (separate_restricted_spending permits pl pln) n"
proof -
  define q where "q = separate_restricted_spending permits pl pln"
  note sf = separate_fold[OF assms(2) q_def[unfolded separate_restricted_spending_def]]
  obtain js where js: "restricted_pool_used q = js" "distinct js"
    "\<forall>j \<in> set js. j < length (restricted_mana_pool pl) \<and> permits (restricted_mana_pool pl ! j)"
    "psum (pool_used q) + length js = psum (pool_used pln)"
    using sf assms(4) by auto
  have "unat (pool_used q ! k) \<le> unat (mana_pool pl ! k) + unat (surplus q ! k)" if "k < 6" for k
  proof -
    have "unat (pool_used pln ! k) \<le>
        min 255 (unat (mana_pool pl ! k) + permitted_units permits k (restricted_mana_pool pl))
        + unat (surplus pln ! k)"
      using assms(1) that unfolding plan_pays_def floating_pool_nth[OF assms(3) that, symmetric]
      by blast
    with sf that show ?thesis by simp
  qed
  with js sf assms(1) show ?thesis
    unfolding q_def[symmetric] spell_plan_ok_def plan_pays_def by auto
qed

lemma separate_life [simp]:
  "life_paid (separate_restricted_spending permits pl pln) = life_paid pln"
proof -
  have "life_paid (fold (separate_unit permits) xs p) = life_paid p" for xs p
    by (induction xs arbitrary: p) (auto simp: separate_unit_def Let_def)
  then show ?thesis by (simp add: separate_restricted_spending_def)
qed

lemma pay_pip_restricted:
  "pay_pip ctx p s t \<Longrightarrow> restricted_pool_used (plan t) = restricted_pool_used (plan s)"
  by (induction rule: pay_pip.induct) (auto simp: spend_pool_def tap_source_def pay_life_def Let_def)

lemma pay_pips_restricted:
  "pay_pips ctx ps s t \<Longrightarrow> restricted_pool_used (plan t) = restricted_pool_used (plan s)"
  by (induction rule: pay_pips.induct) (auto dest: pay_pip_restricted)

text \<open>The outcome of the search that the spell planner runs.\<close>

lemma planner_search:
  assumes "length (mana_pool pl) = 6" "0 \<le> budget"
    and "capacity srcs (search_start (spell_floating_pool permits pl) srcs) \<le> 255"
    and "solve_pips_with_mana_policy_v72 ps (planner_ctx srcs budget gen pol)
           (search_start (spell_floating_pool permits pl) srcs) = (True, t)"
  shows "\<exists>l. l \<le> phyrexian_pips ps \<and> life_paid (plan t) = 2 * int l \<and> 2 * int l \<le> budget \<and>
    spell_plan_ok srcs permits pl (separate_restricted_spending permits pl (plan t))
      (length ps - l + gen)"
proof -
  let ?pool = "spell_floating_pool permits pl" and ?ctx = "planner_ctx srcs budget gen pol"
  have ctx: "sources ?ctx = srcs" "source_choices ?ctx = None" "generic_needed ?ctx = Some gen"
    "max_life_payment ?ctx = budget"
    by (simp_all add: planner_ctx_def)
  have pool: "length ?pool = 6" using assms(1) by simp
  obtain m where m: "pay_pips ?ctx ps (search_start ?pool srcs) m" "pay_generic gen srcs m = (True, t)"
    using search_exact[of ?pool ?ctx gen ps] pool assms(2,3,4) ctx by auto
  obtain l where l: "l \<le> phyrexian_pips ps" "life_paid (plan t) = 2 * int l"
    "life_paid (plan t) \<le> budget" "plan_pays srcs ?pool (plan t) (length ps - l + gen)"
    using pips_then_generic[of ?pool ?ctx ps m gen t] pool assms(2,3) m ctx by auto
  have "acct ?pool srcs m"
    using pay_pips_capacity[of ?pool ?ctx ps m] pool assms(2,3) m ctx by auto
  from pay_generic_exact[OF this m(2)] have "generic_step ?pool srcs (gen, m) (0, t)" by simp
  then have "length (pool_used (plan t)) = 6" "restricted_pool_used (plan t) = []"
    using pay_pips_restricted[OF m(1)]
    by (simp_all add: generic_step_def acct_def wf_search_def search_start_def plan_default_def)
  then show ?thesis using l separate_plan_ok[OF l(4)] assms(1) by auto
qed

lemma plan_spell_mana_total_unfold:
  assumes "length (mana_pool pl) = 6"
    and "srcs = filter (\<lambda>src. source_id src \<notin> set excluded) all_sources"
    and "capacity srcs (search_start (spell_floating_pool permits pl) srcs) \<le> 255"
    and "additional_life = 0 \<or> int additional_life \<le> life pl"
  shows "plan_spell_mana_total ps gen all_sources excluded additional_life pol permits pl =
    (case solve_pips_with_mana_policy_v72 ps
            (planner_ctx srcs (max (life pl - int additional_life) 0) gen pol)
            (search_start (spell_floating_pool permits pl) srcs) of
       (False, _) \<Rightarrow> None
     | (True, t) \<Rightarrow> Some (separate_restricted_spending permits pl (plan t)))"
proof -
  let ?r = "solve_pips_with_mana_policy_v72 ps
            (planner_ctx srcs (max (life pl - int additional_life) 0) gen pol)
            (search_start (spell_floating_pool permits pl) srcs)"
  have "life_paid (plan t) + int additional_life = 0 \<or>
      life_paid (plan t) + int additional_life \<le> life pl" if "?r = (True, t)" for t
    using planner_search[OF assms(1) _ assms(3) that] assms(4) by auto
  then show ?thesis
    using assms(4)
    by (cases ?r) (auto simp: plan_spell_mana_total_def assms(2)[symmetric] Let_def
        planner_ctx_def[symmetric] split: bool.splits)
qed

text \<open>
  C3. The spell planner finds a payment whenever one exists: it returns a plan exactly when the
  additional life cost is affordable and some allowed way of paying the pips (floating mana of a
  fitting color, a tap of an unused source for a fitting color, or two life within the budget
  for a Phyrexian pip) leaves at least the generic amount in the pool and the untapped sources.
\<close>

theorem spell_planner_complete:
  assumes "length (mana_pool pl) = 6"
    and "srcs = filter (\<lambda>src. source_id src \<notin> set excluded) all_sources"
    and "capacity srcs (search_start (spell_floating_pool permits pl) srcs) \<le> 255"
  shows "plan_spell_mana_total ps gen all_sources excluded additional_life pol permits pl \<noteq> None \<longleftrightarrow>
    (additional_life = 0 \<or> int additional_life \<le> life pl) \<and>
    (\<exists>m. pay_pips (planner_ctx srcs (max (life pl - int additional_life) 0) gen pol) ps
           (search_start (spell_floating_pool permits pl) srcs) m \<and> gen \<le> capacity srcs m)"
proof (cases "additional_life = 0 \<or> int additional_life \<le> life pl")
  case True
  let ?ctx = "planner_ctx srcs (max (life pl - int additional_life) 0) gen pol"
  let ?s = "search_start (spell_floating_pool permits pl) srcs"
  have ctx: "sources ?ctx = srcs" "source_choices ?ctx = None" "generic_needed ?ctx = Some gen"
    "0 \<le> max_life_payment ?ctx" by (simp_all add: planner_ctx_def)
  have len: "length (spell_floating_pool permits pl) = 6" using assms(1) by simp
  note ex = search_exact[OF len, of ?ctx gen ps, unfolded ctx(1), OF assms(3) ctx(2,4,3)]
  show ?thesis
  proof (cases "solve_pips_with_mana_policy_v72 ps ?ctx ?s")
    case (Pair ok t)
    show ?thesis
    proof (cases ok)
      case True
      with ex Pair obtain m where m: "pay_pips ?ctx ps ?s m" "pay_generic gen srcs m = (True, t)"
        by auto
      have "acct (spell_floating_pool permits pl) srcs m"
        using pay_pips_capacity[OF len, of ?ctx ps m] assms(3) ctx m by auto
      then have "gen \<le> capacity srcs m" using pay_generic_exact[OF _ m(2)] by blast
      with m True Pair \<open>additional_life = 0 \<or> _\<close> show ?thesis
        by (auto simp: plan_spell_mana_total_unfold[OF assms])
    next
      case False
      with ex Pair \<open>additional_life = 0 \<or> _\<close> show ?thesis
        by (auto simp: plan_spell_mana_total_unfold[OF assms])
    qed
  qed
next
  case False
  then show ?thesis by (simp add: plan_spell_mana_total_def)
qed


text \<open>A position for the examples: {R/P}{G} and two generic, one red floating, one restricted
  colorless unit that may be spent, a land that makes two green and a land for black or red.\<close>

definition demo_sources :: "ManaSource list" where
  "demo_sources = [\<lparr>source_id = ObjectId 7, choices = [G], yield_per_tap = 2\<rparr>,
                   \<lparr>source_id = ObjectId 9, choices = [B, R], yield_per_tap = 1\<rparr>]"

definition demo_player :: "bool player_mana" where
  "demo_player = \<lparr>mana_pool = [0, 0, 0, 1, 0, 0],
     restricted_mana_pool = [\<lparr>unit_color = C, unit_restriction = True\<rparr>], life = 5, graveyard = []\<rparr>"

lemma demo_capacity:
  "capacity demo_sources (search_start (spell_floating_pool unit_restriction demo_player) demo_sources) \<le> 255"
  by code_simp

lemma demo_plan:
  "plan_spell_mana_total [Phyrexian R, Colored G] 2 demo_sources [] 1 Ordinary unit_restriction demo_player
     = Some \<lparr>restricted_pool_used = [0], taps = [(ObjectId 7, G)], pool_used = [0, 0, 0, 1, 1, 0],
             life_paid = 0, surplus = [0, 0, 0, 0, 1, 0]\<rparr>"
  by code_simp

theorem spell_planner_complete_witness:
  "(\<exists>m. pay_pips (planner_ctx demo_sources 4 2 Ordinary) [Phyrexian R, Colored G]
      (search_start (spell_floating_pool unit_restriction demo_player) demo_sources) m \<and>
      2 \<le> capacity demo_sources m)"
proof -
  have *: "length (mana_pool demo_player) = 6"
    "demo_sources = filter (\<lambda>src. source_id src \<notin> set []) demo_sources"
    "max (life demo_player - int 1) 0 = 4"
    by (simp_all add: demo_player_def)
  show ?thesis
    using spell_planner_complete[OF *(1,2) demo_capacity, of "[Phyrexian R, Colored G]" 2 1 Ordinary]
    unfolding demo_plan *(3) by blast
qed



text \<open>
  C31. For a cost without Phyrexian pips \<^verbatim>\<open>solve\<close> finds a plan exactly when the pips can be paid
  and the mana left over covers the generic amount: paying the pips first never strands it,
  because every way of paying them leaves the same amount.
\<close>

theorem solve_complete_without_phyrexian:
  assumes "length pool = 6" "capacity srcs (search_start pool srcs) \<le> 255"
    and "phyrexian_pips (pips cost) = 0"
    and ctx_def: "ctx = \<lparr>sources = srcs, max_life_payment = I64_MAX, generic_needed = None,
        source_choices = None, policy = Ordinary\<rparr>"
  shows "solve cost x_value pool srcs \<noteq> None \<longleftrightarrow>
    (\<exists>m. pay_pips ctx (pips cost) (search_start pool srcs) m) \<and>
    length (pips cost) + unat (generic cost) + unat (x_count cost) * unat x_value
      \<le> capacity srcs (search_start pool srcs)"
proof -
  let ?s = "search_start pool srcs"
  let ?gen = "unat (generic cost) + unat (x_count cost) * unat x_value"
  have sp: "solve_pips (pips cost) srcs ?s = solve_pips_rec (pips cost) ctx ?s"
    by (simp add: solve_pips_def solve_pips_with_life_budget_v1_def ctx_def
        solve_pips_with_mana_policy_v72_def)
  have ok: "search_ok ctx ?s" using search_start_ok[of pool ctx] assms(1) by (simp add: ctx_def)
  have last: "solve_pips_rec [] ctx m = (True, m)" for m by (simp add: ctx_def)
  have cap: "acct pool srcs m \<and> capacity srcs m + length (pips cost) = capacity srcs ?s"
    if "pay_pips ctx (pips cost) ?s m" for m
    using pay_pips_capacity[of pool ctx "pips cost" m] assms(1-3) that
    by (auto simp: ctx_def I64_MAX_def)
  note oc = solve_pips_rec_cases[OF ok, of "pips cost", unfolded last]
  show ?thesis
  proof (cases "fst (solve_pips_rec (pips cost) ctx ?s)")
    case True
    with oc obtain m where m: "pay_pips ctx (pips cost) ?s m" "solve_pips (pips cost) srcs ?s = (True, m)"
      by (auto simp: sp)
    have "fst (pay_generic ?gen srcs m) \<longleftrightarrow> ?gen \<le> capacity srcs m"
      using pay_generic_exact[of pool srcs m ?gen] cap[OF m(1)]
      by (cases "pay_generic ?gen srcs m") auto
    then have "fst (pay_generic ?gen srcs m) \<longleftrightarrow> length (pips cost) + ?gen \<le> capacity srcs ?s"
      using cap[OF m(1)] by linarith
    then show ?thesis
      using m by (cases "pay_generic ?gen srcs m")
        (auto simp: solve_def add.assoc split: bool.splits)
  next
    case False
    with oc have none: "\<nexists>m. pay_pips ctx (pips cost) ?s m"
      by (metis fst_conv)
    show ?thesis
      using False none by (auto simp: solve_def sp split: prod.splits bool.splits)
  qed
qed



theorem solve_complete_without_phyrexian_witness:
  "solve \<lparr>pips = [Colored G, Hybrid B U], generic = 0, x_count = 1\<rparr> 3 [0, 0, 0, 1, 0, 0] demo_sources = None"
proof -
  have c: "capacity demo_sources (search_start [0, 0, 0, 1, 0, 0] demo_sources) = 4"
    by code_simp
  have p: "phyrexian_pips (pips \<lparr>pips = [Colored G, Hybrid B U], generic = 0, x_count = 1\<rparr>) = 0"
    by (simp add: phyrexian_pips_def)
  have u: "unat (3::u8) = 3" "unat (1::u8) = 1" by simp_all
  show ?thesis
    using solve_complete_without_phyrexian[OF _ _ p refl, of "[0, 0, 0, 1, 0, 0]" demo_sources 3] c u
    by simp
qed

text \<open>
  C33. The Delve planner exiles as few cards as it can: the exiled cards are the first \<open>k\<close> of the
  graveyard, the cost reduced by \<open>k\<close> generic is payable by the returned plan, no smaller
  reduction is payable, and when it returns nothing no reduction up to the graveyard and the
  generic amount is payable.
\<close>

theorem delve_minimal:
  "case delve_payment_plan cost x_value srcs permits pl of
     Some (pln, exiled) \<Rightarrow>
       \<exists>k \<le> min (length (graveyard pl)) (unat (generic cost)).
         exiled = take k (graveyard pl) \<and>
         can_pay_spell (cost\<lparr>generic := generic cost - word_of_nat k\<rparr>) x_value srcs permits pl = Some pln \<and>
         (\<forall>j < k. can_pay_spell (cost\<lparr>generic := generic cost - word_of_nat j\<rparr>) x_value srcs permits pl = None)
   | None \<Rightarrow> \<forall>k \<le> min (length (graveyard pl)) (unat (generic cost)).
         can_pay_spell (cost\<lparr>generic := generic cost - word_of_nat k\<rparr>) x_value srcs permits pl = None"
proof -
  let ?P = "\<lambda>k. can_pay_spell (cost\<lparr>generic := generic cost - word_of_nat k\<rparr>) x_value srcs permits pl"
  have gen: "case delve_from n k cost x_value srcs permits pl of
      Some (pln, exiled) \<Rightarrow> \<exists>j \<ge> k. j < k + n \<and> exiled = take j (graveyard pl) \<and> ?P j = Some pln \<and>
        (\<forall>i. k \<le> i \<longrightarrow> i < j \<longrightarrow> ?P i = None)
    | None \<Rightarrow> \<forall>i. k \<le> i \<longrightarrow> i < k + n \<longrightarrow> ?P i = None" for n k
  proof (induction n arbitrary: k)
    case 0
    then show ?case by simp
  next
    case (Suc n)
    show ?case
    proof (cases "?P k")
      case None
      have k: "i = k \<or> Suc k \<le> i" if "k \<le> i" for i using that by auto
      from None Suc[of "Suc k"] show ?thesis
        by (auto split: option.splits) (metis k, metis Suc_leD k)
    next
      case (Some p)
      then show ?thesis by (auto intro!: exI[of _ k])
    qed
  qed
  show ?thesis
    using gen[where n = "Suc (min (length (graveyard pl)) (unat (generic cost)))" and k = 0]
    by (auto simp: delve_payment_plan_def less_Suc_eq_le simp del: delve_from.simps split: option.splits)
qed

theorem delve_minimal_witness:
  "\<exists>k \<le> 2. [ObjectId 3] = take k [ObjectId 3, ObjectId 4] \<and>
     can_pay_spell \<lparr>pips = [], generic = 2 - word_of_nat k, x_count = 0\<rparr> 0 [] (\<lambda>_. False)
       (demo_player\<lparr>graveyard := [ObjectId 3, ObjectId 4]\<rparr>) =
     Some \<lparr>restricted_pool_used = [], taps = [], pool_used = [0, 0, 0, 1, 0, 0],
           life_paid = 0, surplus = [0, 0, 0, 0, 0, 0]\<rparr>"
proof -
  have d: "delve_payment_plan \<lparr>pips = [], generic = 2, x_count = 0\<rparr> 0 [] (\<lambda>_. False)
       (demo_player\<lparr>graveyard := [ObjectId 3, ObjectId 4]\<rparr>) =
     Some (\<lparr>restricted_pool_used = [], taps = [], pool_used = [0, 0, 0, 1, 0, 0],
           life_paid = 0, surplus = [0, 0, 0, 0, 0, 0]\<rparr>, [ObjectId 3])"
    by code_simp
  show ?thesis
    using delve_minimal[where cost = "\<lparr>pips = [], generic = 2, x_count = 0\<rparr>" and x_value = 0 and
        srcs = "[]" and permits = "\<lambda>_. False" and
        pl = "demo_player\<lparr>graveyard := [ObjectId 3, ObjectId 4]\<rparr>"]
    unfolding d numeral_2_eq_2 by auto
qed

end
