(* ===== verification/Bo3_Match.thy ===== *)
theory Bo3_Match
  imports Ids
begin

text \<open>
  \<^verbatim>\<open>mtg-kernel/src/bo3_match.rs\<close>: the best-of-three match state. It alternates between
  waiting for a play/draw choice and waiting for a game result, and completes when a player has
  two wins; drawn games extend the match. The mutating methods return their \<^verbatim>\<open>Result\<close>
  together with the state they leave behind.
\<close>

section \<open>Data\<close>

definition BEST_OF_THREE_WINS_REQUIRED_V1 :: u8 where
  "BEST_OF_THREE_WINS_REQUIRED_V1 = 2"

datatype PlayDrawChoiceV1 = Play | Draw

datatype GameOutcomeV1 = GameWin (game_winner: PlayerId) | GameDraw

datatype MatchOutcomeV1 = MatchWinner PlayerId | MatchDraw

record GameStartV1 =
  game_index :: u8
  chooser :: PlayerId
  choice :: PlayDrawChoiceV1
  starting_player :: PlayerId

definition player_on_draw :: "GameStartV1 \<Rightarrow> PlayerId" where
  "player_on_draw s = opponent (starting_player s)"

record CompletedMatchGameV1 =
  start :: GameStartV1
  game_outcome :: GameOutcomeV1

datatype MatchPhaseV1 =
    AwaitingPlayDrawChoice u8 PlayerId
  | AwaitingGameResult GameStartV1
  | Complete MatchOutcomeV1

datatype MatchTransitionV1 =
    NextGameChoice u8 PlayerId
  | TransitionComplete MatchOutcomeV1

record BestOfThreeMatchStateV1 =
  wins :: "u8 list"
  games :: "CompletedMatchGameV1 list"
  phase :: MatchPhaseV1

datatype MatchStateErrorV1 =
    InvalidPlayer u8
  | WrongChooser PlayerId PlayerId
  | PlayDrawChoiceRequired
  | GameAlreadyStarted
  | GameIndexExhausted
  | MatchComplete

section \<open>Operations\<close>

definition validate_player_v1 :: "PlayerId \<Rightarrow> (unit, MatchStateErrorV1) result" where
  "validate_player_v1 p = (if p \<noteq> P0 \<and> p \<noteq> P1 then Inl (InvalidPlayer (player_raw p)) else Inr ())"

definition match_new_v1 :: "PlayerId \<Rightarrow> (BestOfThreeMatchStateV1, MatchStateErrorV1) result" where
  "match_new_v1 game_one_chooser =
     and_then (validate_player_v1 game_one_chooser)
       (\<lambda>_. Inr \<lparr>wins = [0, 0], games = [], phase = AwaitingPlayDrawChoice 1 game_one_chooser\<rparr>)"

definition match_wins :: "BestOfThreeMatchStateV1 \<Rightarrow> PlayerId \<Rightarrow> (u8, MatchStateErrorV1) result" where
  "match_wins s p = and_then (validate_player_v1 p) (\<lambda>_. Inr (wins s ! player_index p))"

definition match_outcome :: "BestOfThreeMatchStateV1 \<Rightarrow> MatchOutcomeV1 option" where
  "match_outcome s = (case phase s of Complete out \<Rightarrow> Some out | _ \<Rightarrow> None)"

definition choose_play_draw_v1 ::
  "PlayerId \<Rightarrow> PlayDrawChoiceV1 \<Rightarrow> BestOfThreeMatchStateV1
    \<Rightarrow> (GameStartV1, MatchStateErrorV1) result \<times> BestOfThreeMatchStateV1" where
  "choose_play_draw_v1 ch c s =
     (case validate_player_v1 ch of
        Inl e \<Rightarrow> (Inl e, s)
      | Inr _ \<Rightarrow>
          (case phase s of
             AwaitingGameResult _ \<Rightarrow> (Inl GameAlreadyStarted, s)
           | Complete _ \<Rightarrow> (Inl MatchComplete, s)
           | AwaitingPlayDrawChoice gi expected \<Rightarrow>
               if ch \<noteq> expected then (Inl (WrongChooser expected ch), s)
               else
                 (let st = \<lparr>game_index = gi, chooser = ch, choice = c,
                            starting_player = (case c of Play \<Rightarrow> ch | Draw \<Rightarrow> opponent ch)\<rparr>
                  in (Inr st, s\<lparr>phase := AwaitingGameResult st\<rparr>))))"

definition record_game_result_v1 ::
  "GameOutcomeV1 \<Rightarrow> BestOfThreeMatchStateV1
    \<Rightarrow> (MatchTransitionV1, MatchStateErrorV1) result \<times> BestOfThreeMatchStateV1" where
  "record_game_result_v1 out s =
     (case phase s of
        AwaitingPlayDrawChoice _ _ \<Rightarrow> (Inl PlayDrawChoiceRequired, s)
      | Complete _ \<Rightarrow> (Inl MatchComplete, s)
      | AwaitingGameResult st \<Rightarrow>
          (case (case out of GameWin w \<Rightarrow> and_then (validate_player_v1 w) (\<lambda>_. Inr (Some w))
                           | GameDraw \<Rightarrow> Inr None) of
             Inl e \<Rightarrow> (Inl e, s)
           | Inr gw \<Rightarrow>
               (let mw = (case gw of
                            Some w \<Rightarrow>
                              if wins s ! player_index w + 1 \<ge> BEST_OF_THREE_WINS_REQUIRED_V1
                              then Some w else None
                          | None \<Rightarrow> None)
                in case (if mw = None
                         then and_then (ok_or (checked_add (game_index st) 1) GameIndexExhausted)
                                (\<lambda>g. Inr (Some g))
                         else Inr None) of
                     Inl e \<Rightarrow> (Inl e, s)
                   | Inr next_game_index \<Rightarrow>
                       (let s1 = (case gw of
                                    Some w \<Rightarrow> s\<lparr>wins := (wins s)[player_index w :=
                                                  wins s ! player_index w + 1]\<rparr>
                                  | None \<Rightarrow> s);
                            s2 = s1\<lparr>games := games s1 @ [\<lparr>start = st, game_outcome = out\<rparr>]\<rparr>
                        in case mw of
                             Some w \<Rightarrow>
                               (Inr (TransitionComplete (MatchWinner w)),
                                s2\<lparr>phase := Complete (MatchWinner w)\<rparr>)
                           | None \<Rightarrow>
                               (let ch = (case out of GameWin w \<Rightarrow> opponent w
                                                    | GameDraw \<Rightarrow> chooser st);
                                    gi = the next_game_index
                                in (Inr (NextGameChoice gi ch),
                                    s2\<lparr>phase := AwaitingPlayDrawChoice gi ch\<rparr>))))))"

text \<open>The two mutating operations as one step, and a run from a fresh match.\<close>

datatype match_op = ChooseOp PlayerId PlayDrawChoiceV1 | RecordOp GameOutcomeV1

fun match_step ::
  "match_op \<Rightarrow> BestOfThreeMatchStateV1
    \<Rightarrow> (GameStartV1 + MatchTransitionV1, MatchStateErrorV1) result \<times> BestOfThreeMatchStateV1" where
  "match_step (ChooseOp p c) s =
     (case choose_play_draw_v1 p c s of (r, t) \<Rightarrow> (and_then r (\<lambda>x. Inr (Inl x)), t))"
| "match_step (RecordOp out) s =
     (case record_game_result_v1 out s of (r, t) \<Rightarrow> (and_then r (\<lambda>x. Inr (Inr x)), t))"

section \<open>Invariant\<close>

definition wins_of :: "PlayerId \<Rightarrow> CompletedMatchGameV1 list \<Rightarrow> nat" where
  "wins_of p gs = length (filter (\<lambda>g. game_outcome g = GameWin p) gs)"

fun chooser_after :: "PlayerId \<Rightarrow> GameOutcomeV1 \<Rightarrow> PlayerId" where
  "chooser_after c (GameWin w) = opponent w"
| "chooser_after c GameDraw = c"

definition next_chooser :: "PlayerId \<Rightarrow> CompletedMatchGameV1 list \<Rightarrow> PlayerId" where
  "next_chooser c gs = foldl (\<lambda>c g. chooser_after c (game_outcome g)) c gs"

text \<open>
  What the recorded games alone determine: the win counters, the number of the next game and
  who chooses. \<open>first\<close> is the chooser of game one.
\<close>

definition match_inv :: "PlayerId \<Rightarrow> BestOfThreeMatchStateV1 \<Rightarrow> bool" where
  "match_inv first s \<longleftrightarrow>
     valid_player first \<and>
     length (wins s) = 2 \<and>
     (\<forall>p. valid_player p \<longrightarrow> unat (wins s ! player_index p) = wins_of p (games s)) \<and>
     list_all (\<lambda>g. game_outcome g = GameDraw \<or> valid_player (game_winner (game_outcome g))) (games s) \<and>
     (case phase s of
        AwaitingPlayDrawChoice gi ch \<Rightarrow>
          unat gi = length (games s) + 1 \<and> ch = next_chooser first (games s) \<and>
          wins_of P0 (games s) < 2 \<and> wins_of P1 (games s) < 2
      | AwaitingGameResult st \<Rightarrow>
          unat (game_index st) = length (games s) + 1 \<and>
          chooser st = next_chooser first (games s) \<and>
          starting_player st = (case choice st of Play \<Rightarrow> chooser st | Draw \<Rightarrow> opponent (chooser st)) \<and>
          wins_of P0 (games s) < 2 \<and> wins_of P1 (games s) < 2
      | Complete out \<Rightarrow>
          (\<exists>w. out = MatchWinner w \<and> valid_player w \<and> wins_of w (games s) = 2 \<and>
               wins_of (opponent w) (games s) < 2 \<and> games s \<noteq> [] \<and>
               game_outcome (last (games s)) = GameWin w))"

section \<open>Lemmas\<close>

lemma validate_player_simps [simp]:
  "validate_player_v1 p = Inr () \<longleftrightarrow> valid_player p"
  "validate_player_v1 p = Inl e \<longleftrightarrow> \<not> valid_player p \<and> e = InvalidPlayer (player_raw p)"
  by (auto simp: validate_player_v1_def valid_player_def)

lemma validate_player_valid [simp]: "valid_player p \<Longrightarrow> validate_player_v1 p = Inr ()"
  by simp

lemma wins_of_simps [simp]:
  "wins_of p [] = 0"
  "wins_of p (gs @ [g]) = wins_of p gs + (if game_outcome g = GameWin p then 1 else 0)"
  by (simp_all add: wins_of_def)

lemma next_chooser_simps [simp]:
  "next_chooser c [] = c"
  "next_chooser c (gs @ [g]) = chooser_after (next_chooser c gs) (game_outcome g)"
  by (simp_all add: next_chooser_def)

lemma chooser_after_valid:
  "valid_player c \<Longrightarrow> out = GameDraw \<or> valid_player (game_winner out) \<Longrightarrow>
   valid_player (chooser_after c out)"
  by (cases out) (auto intro: opponent_valid)

lemma next_chooser_valid:
  "valid_player c \<Longrightarrow>
   list_all (\<lambda>g. game_outcome g = GameDraw \<or> valid_player (game_winner (game_outcome g))) gs \<Longrightarrow>
   valid_player (next_chooser c gs)"
  by (induction gs rule: rev_induct) (simp_all add: chooser_after_valid)

lemma snd_match_step [simp]:
  "snd (match_step (ChooseOp p c) s) = snd (choose_play_draw_v1 p c s)"
  "snd (match_step (RecordOp out) s) = snd (record_game_result_v1 out s)"
  by (simp_all split: prod.split)

declare match_step.simps [simp del]

lemma choose_play_draw_Inl: "choose_play_draw_v1 p c s = (Inl e, t) \<Longrightarrow> t = s"
  by (auto simp: choose_play_draw_v1_def Let_def
      split: sum.splits MatchPhaseV1.splits if_splits)

lemma choose_play_draw_Inr:
  assumes "choose_play_draw_v1 p c s = (Inr st, t)"
  obtains gi where "phase s = AwaitingPlayDrawChoice gi p"
    and "valid_player p"
    and "st = \<lparr>game_index = gi, chooser = p, choice = c,
               starting_player = (case c of Play \<Rightarrow> p | Draw \<Rightarrow> opponent p)\<rparr>"
    and "t = s\<lparr>phase := AwaitingGameResult st\<rparr>"
  using assms
  by (auto simp: choose_play_draw_v1_def Let_def
      split: sum.splits MatchPhaseV1.splits if_splits)

lemma record_game_result_Inl: "record_game_result_v1 out s = (Inl e, t) \<Longrightarrow> t = s"
  by (auto simp: record_game_result_v1_def Let_def
      split: sum.splits MatchPhaseV1.splits if_splits option.splits)

lemma ge_two_u8: "(2::u8) \<le> w + 1 \<longleftrightarrow> 1 \<le> unat w \<and> unat w < 255"
  by unat_arith auto

text \<open>The state after a recorded result, one lemma per outcome.\<close>

lemma record_win_complete:
  assumes "phase s = AwaitingGameResult st" "valid_player w"
    and "1 \<le> unat (wins s ! player_index w)" "unat (wins s ! player_index w) < 255"
  shows "record_game_result_v1 (GameWin w) s =
    (Inr (TransitionComplete (MatchWinner w)),
     s\<lparr>wins := (wins s)[player_index w := wins s ! player_index w + 1],
       games := games s @ [\<lparr>start = st, game_outcome = GameWin w\<rparr>],
       phase := Complete (MatchWinner w)\<rparr>)"
  using assms
  by (simp add: record_game_result_v1_def BEST_OF_THREE_WINS_REQUIRED_V1_def ge_two_u8)

lemma record_win_continue:
  assumes "phase s = AwaitingGameResult st" "valid_player w"
    and "unat (wins s ! player_index w) = 0" "unat (game_index st) < 255"
  shows "record_game_result_v1 (GameWin w) s =
    (Inr (NextGameChoice (game_index st + 1) (opponent w)),
     s\<lparr>wins := (wins s)[player_index w := wins s ! player_index w + 1],
       games := games s @ [\<lparr>start = st, game_outcome = GameWin w\<rparr>],
       phase := AwaitingPlayDrawChoice (game_index st + 1) (opponent w)\<rparr>)"
  using assms
  by (simp add: record_game_result_v1_def BEST_OF_THREE_WINS_REQUIRED_V1_def ge_two_u8
      checked_add_def Let_def)

lemma record_draw_continue:
  assumes "phase s = AwaitingGameResult st" "unat (game_index st) < 255"
  shows "record_game_result_v1 GameDraw s =
    (Inr (NextGameChoice (game_index st + 1) (chooser st)),
     s\<lparr>games := games s @ [\<lparr>start = st, game_outcome = GameDraw\<rparr>],
       phase := AwaitingPlayDrawChoice (game_index st + 1) (chooser st)\<rparr>)"
  using assms by (simp add: record_game_result_v1_def checked_add_def Let_def)

lemma record_exhausted:
  assumes "phase s = AwaitingGameResult st" "unat (game_index st) = 255"
    and "out = GameDraw \<or> (\<exists>w. out = GameWin w \<and> valid_player w \<and> unat (wins s ! player_index w) = 0)"
  shows "record_game_result_v1 out s = (Inl GameIndexExhausted, s)"
  using assms
  by (auto simp: record_game_result_v1_def BEST_OF_THREE_WINS_REQUIRED_V1_def ge_two_u8
      checked_add_def)

lemma record_game_result_Inr_cases:
  assumes "record_game_result_v1 out s = (Inr r, t)"
  obtains st where "phase s = AwaitingGameResult st"
    and "out = GameDraw \<or> (\<exists>w. out = GameWin w \<and> valid_player w)"
  using assms
  by (auto simp: record_game_result_v1_def Let_def and_then_eq_Inr
      split: sum.splits MatchPhaseV1.splits if_splits option.splits GameOutcomeV1.splits)

lemma match_inv_new: "match_new_v1 p = Inr s \<Longrightarrow> match_inv p s"
  by (auto simp: match_new_v1_def match_inv_def and_then_eq_Inr nth_Cons' elim!: valid_player_cases)

lemma match_inv_choose:
  assumes inv: "match_inv f s"
  shows "match_inv f (snd (choose_play_draw_v1 p c s))"
proof (cases "choose_play_draw_v1 p c s")
  case (Pair r t)
  show ?thesis
  proof (cases r)
    case (Inl e)
    with Pair choose_play_draw_Inl[of p c s e t] inv show ?thesis by simp
  next
    case (Inr st)
    with Pair have "choose_play_draw_v1 p c s = (Inr st, t)" by simp
    then show ?thesis
      using inv Pair
      by (elim choose_play_draw_Inr) (simp add: match_inv_def split: PlayDrawChoiceV1.split)
  qed
qed

text \<open>Bumping one counter keeps the counters equal to the number of recorded wins.\<close>

lemma wins_update:
  fixes ws :: "u8 list"
  assumes "length ws = 2" "valid_player w" "unat (ws ! player_index w) < 255"
    and "\<forall>p. valid_player p \<longrightarrow> unat (ws ! player_index p) = wins_of p gs"
    and "game_outcome g = GameWin w"
  shows "\<forall>p. valid_player p \<longrightarrow>
    unat (ws[player_index w := ws ! player_index w + 1] ! player_index p) = wins_of p (gs @ [g])"
  using assms
  by (auto simp: nth_list_update unat_word_ariths elim!: valid_player_cases)

lemma match_inv_record:
  assumes inv: "match_inv f s"
  shows "match_inv f (snd (record_game_result_v1 out s))"
proof (cases "record_game_result_v1 out s")
  case (Pair r t)
  show ?thesis
  proof (cases r)
    case (Inl e)
    with Pair record_game_result_Inl[of out s e t] inv show ?thesis by simp
  next
    case (Inr x)
    with Pair obtain st where st: "phase s = AwaitingGameResult st"
      and out: "out = GameDraw \<or> (\<exists>w. out = GameWin w \<and> valid_player w)"
      by (auto elim: record_game_result_Inr_cases)
    have gi: "unat (game_index st) < 255"
      if "out = GameDraw \<or> (\<exists>w. out = GameWin w \<and> valid_player w \<and> unat (wins s ! player_index w) = 0)"
      using record_exhausted[OF st _ that] Pair Inr unat_bound_u8[of "game_index st"] by force
    from out show ?thesis
    proof
      assume "out = GameDraw"
      with inv st gi record_draw_continue[OF st] show ?thesis
        by (auto simp: match_inv_def unat_word_ariths)
    next
      assume "\<exists>w. out = GameWin w \<and> valid_player w"
      then obtain w where w: "out = GameWin w" "valid_player w" by blast
      have lt: "unat (wins s ! player_index w) < 2"
        using inv st w(2) by (auto simp: match_inv_def elim!: valid_player_cases)
      note upd = wins_update[of "wins s" w "games s" "\<lparr>start = st, game_outcome = GameWin w\<rparr>"]
      show ?thesis
      proof (cases "unat (wins s ! player_index w) = 0")
        case True
        with inv st w gi record_win_continue[OF st w(2) True] upd show ?thesis
          by (auto simp: match_inv_def unat_word_ariths elim!: valid_player_cases)
      next
        case False
        with lt have "unat (wins s ! player_index w) = 1" by linarith
        with inv st w record_win_complete[OF st w(2)] upd show ?thesis
          by (auto simp: match_inv_def elim!: valid_player_cases)
      qed
    qed
  qed
qed

interpretation bo3: atomic_machine match_step "match_inv first" for first :: PlayerId
proof unfold_locales
  fix s op
  assume "match_inv first s"
  then show "match_inv first (snd (match_step op s))"
    using match_inv_choose[of first s] match_inv_record[of first s]
    by (cases op) simp_all
next
  fix op s e t
  assume "match_step op s = (Inl e, t)"
  then show "t = s"
    by (cases op)
      (auto simp: match_step.simps and_then_eq_Inl split: prod.splits
        dest: choose_play_draw_Inl record_game_result_Inl)
qed

section \<open>Playing a match to its end\<close>

text \<open>One physical game: the player whose turn it is chooses, then the result is recorded.\<close>

fun play_round :: "PlayDrawChoiceV1 \<times> GameOutcomeV1 \<Rightarrow> BestOfThreeMatchStateV1 \<Rightarrow> BestOfThreeMatchStateV1" where
  "play_round (c, out) s =
     (case phase s of
        AwaitingPlayDrawChoice gi ch \<Rightarrow> run_ops match_step [ChooseOp ch c, RecordOp out] s
      | _ \<Rightarrow> s)"

definition valid_outcome :: "GameOutcomeV1 \<Rightarrow> bool" where
  "valid_outcome out \<longleftrightarrow> out = GameDraw \<or> valid_player (game_winner out)"

definition decisive :: "CompletedMatchGameV1 list \<Rightarrow> nat" where
  "decisive gs = length (filter (\<lambda>g. game_outcome g \<noteq> GameDraw) gs)"

lemma decisive_wins:
  "list_all (\<lambda>g. game_outcome g = GameDraw \<or> valid_player (game_winner (game_outcome g))) gs \<Longrightarrow>
   decisive gs = wins_of P0 gs + wins_of P1 gs"
proof (induction gs)
  case Nil
  then show ?case by (simp add: decisive_def)
next
  case (Cons g gs)
  then show ?case
    by (cases "game_outcome g") (auto simp: decisive_def wins_of_def elim!: valid_player_cases)
qed

lemma decisive_bound: "match_inv f s \<Longrightarrow> decisive (games s) \<le> 3"
  by (auto simp: match_inv_def decisive_wins split: MatchPhaseV1.splits elim!: valid_player_cases)

lemma choose_expected:
  assumes "phase s = AwaitingPlayDrawChoice gi ch" "valid_player ch"
  shows "snd (choose_play_draw_v1 ch c s) =
    s\<lparr>phase := AwaitingGameResult \<lparr>game_index = gi, chooser = ch, choice = c,
        starting_player = (case c of Play \<Rightarrow> ch | Draw \<Rightarrow> opponent ch)\<rparr>\<rparr>"
  using assms by (simp add: choose_play_draw_v1_def Let_def)

lemma play_round_progress:
  assumes inv: "match_inv f s" and ph: "phase s = AwaitingPlayDrawChoice gi ch"
    and room: "length (games s) < 254" and out: "valid_outcome out"
  shows "match_inv f (play_round (c, out) s) \<and>
    (match_outcome (play_round (c, out) s) \<noteq> None \<or>
     (\<exists>gi' ch'. phase (play_round (c, out) s) = AwaitingPlayDrawChoice gi' ch') \<and>
     length (games (play_round (c, out) s)) = length (games s) + 1 \<and>
     decisive (games (play_round (c, out) s)) =
       decisive (games s) + (if out = GameDraw then 0 else 1))"
proof -
  let ?st = "\<lparr>game_index = gi, chooser = ch, choice = c,
              starting_player = (case c of Play \<Rightarrow> ch | Draw \<Rightarrow> opponent ch)\<rparr>"
  let ?s1 = "s\<lparr>phase := AwaitingGameResult ?st\<rparr>"
  have ch: "valid_player ch"
    using inv ph next_chooser_valid by (simp add: match_inv_def)
  have gi: "unat (game_index ?st) < 255"
    using inv ph room by (simp add: match_inv_def)
  have t: "play_round (c, out) s = snd (record_game_result_v1 out ?s1)"
    using choose_expected[OF ph ch, of c] ph by simp
  have st1: "phase ?s1 = AwaitingGameResult ?st" by simp
  have "match_inv f (play_round (c, out) s)"
    using bo3.run_inv[OF inv, of "[ChooseOp ch c, RecordOp out]"] ph by simp
  moreover from out consider "out = GameDraw" | w where "out = GameWin w" "valid_player w"
    by (cases out) (auto simp: valid_outcome_def)
  then have "match_outcome (play_round (c, out) s) \<noteq> None \<or>
     (\<exists>gi' ch'. phase (play_round (c, out) s) = AwaitingPlayDrawChoice gi' ch') \<and>
     length (games (play_round (c, out) s)) = length (games s) + 1 \<and>
     decisive (games (play_round (c, out) s)) =
       decisive (games s) + (if out = GameDraw then 0 else 1)"
  proof cases
    case 1
    with record_draw_continue[OF st1 gi] t show ?thesis by (simp add: decisive_def)
  next
    case 2
    have lt: "unat (wins ?s1 ! player_index w) < 2"
      using inv ph 2(2) by (auto simp: match_inv_def elim!: valid_player_cases)
    then consider "unat (wins ?s1 ! player_index w) = 0" | "1 \<le> unat (wins ?s1 ! player_index w)"
      by linarith
    then show ?thesis
    proof cases
      case 1
      with record_win_continue[OF st1 2(2) 1 gi] t 2(1) show ?thesis by (simp add: decisive_def)
    next
      case b: 2
      with record_win_complete[OF st1 2(2) b] lt t 2(1) show ?thesis
        by (simp add: match_outcome_def)
    qed
  qed
  ultimately show ?thesis by blast
qed

lemma play_round_complete: "match_outcome s \<noteq> None \<Longrightarrow> play_round r s = s"
  by (cases r) (auto simp: match_outcome_def split: MatchPhaseV1.splits)

lemma fold_play_round_complete: "match_outcome s \<noteq> None \<Longrightarrow> fold play_round rs s = s"
  by (induction rs) (auto simp: play_round_complete)

lemma play_rounds_complete:
  assumes "match_inv f s" "phase s = AwaitingPlayDrawChoice gi ch"
    and "length (games s) + length rs \<le> 254" "list_all (valid_outcome \<circ> snd) rs"
    and "3 \<le> decisive (games s) + length (filter (\<lambda>r. snd r \<noteq> GameDraw) rs)"
  shows "match_outcome (fold play_round rs s) \<noteq> None"
  using assms
proof (induction rs arbitrary: s gi ch)
  case Nil
  then show ?case by (auto simp: match_inv_def decisive_wins)
next
  case (Cons r rs)
  obtain c out where r: "r = (c, out)" by (cases r)
  note pr = play_round_progress[OF Cons.prems(1,2), of out c]
  show ?case
  proof (cases "match_outcome (play_round r s) = None")
    case True
    from pr Cons.prems(3,4) True obtain gi' ch' where
      p1: "match_inv f (play_round r s)"
      and p2: "phase (play_round r s) = AwaitingPlayDrawChoice gi' ch'"
      and p3: "length (games (play_round r s)) = length (games s) + 1"
      and p4: "decisive (games (play_round r s)) =
                 decisive (games s) + (if snd r = GameDraw then 0 else 1)"
      unfolding r by auto
    show ?thesis
      using Cons.IH[OF p1 p2] p3 p4 Cons.prems(3-5) by (simp split: if_splits)
  next
    case False
    then show ?thesis by (simp add: fold_play_round_complete)
  qed
qed

section \<open>Properties\<close>

text \<open>
  C14. However play/draw choices and game results are submitted to a fresh match, in any order
  and with any errors in between: the win counters equal the numbers of recorded wins, the match
  has a winner exactly when that player has two wins, no more than three decisive games are ever
  recorded, and while a choice is awaited the game number and the chooser are the ones the
  recorded games determine (loser of the last decisive game; a drawn game keeps the chooser).
\<close>

theorem match_run_correct:
  assumes "match_new_v1 first = Inr s0"
    and "s = run_ops match_step ops s0"
  shows "(\<forall>p. valid_player p \<longrightarrow>
      unat (wins s ! player_index p) = wins_of p (games s) \<and>
      (match_outcome s = Some (MatchWinner p) \<longleftrightarrow> wins_of p (games s) = 2)) \<and>
    decisive (games s) \<le> 3 \<and>
    (\<forall>gi ch. phase s = AwaitingPlayDrawChoice gi ch \<longrightarrow>
      unat gi = length (games s) + 1 \<and> ch = next_chooser first (games s))"
proof (intro conjI allI impI)
  have inv: "match_inv first s"
    using assms match_inv_new bo3.run_inv by blast
  then show "decisive (games s) \<le> 3"
    by (rule decisive_bound)
  {
    fix gi ch assume "phase s = AwaitingPlayDrawChoice gi ch"
    with inv show "unat gi = length (games s) + 1" "ch = next_chooser first (games s)"
      by (simp_all add: match_inv_def)
  }
  fix p assume p: "valid_player p"
  with inv show "unat (wins s ! player_index p) = wins_of p (games s)"
    by (simp add: match_inv_def)
  from inv p show "match_outcome s = Some (MatchWinner p) \<longleftrightarrow> wins_of p (games s) = 2"
    by (cases "phase s") (auto simp: match_inv_def match_outcome_def elim!: valid_player_cases)
qed

definition demo_start :: BestOfThreeMatchStateV1 where
  "demo_start = \<lparr>wins = [0, 0], games = [], phase = AwaitingPlayDrawChoice 1 P0\<rparr>"

definition demo_ops :: "match_op list" where
  "demo_ops = [ChooseOp P0 Play, RecordOp (GameWin P0), ChooseOp P1 Draw, RecordOp GameDraw,
               ChooseOp P0 Play, ChooseOp P1 Play, RecordOp (GameWin P0)]"

lemma match_new_demo: "match_new_v1 P0 = Inr demo_start"
  by (simp add: match_new_v1_def demo_start_def)

theorem match_run_correct_witness:
  "match_new_v1 P0 = Inr demo_start \<and>
   match_outcome (run_ops match_step demo_ops demo_start) = Some (MatchWinner P0) \<and>
   wins_of P0 (games (run_ops match_step demo_ops demo_start)) = 2"
proof -
  have "match_outcome (run_ops match_step demo_ops demo_start) = Some (MatchWinner P0)"
    by code_simp
  with match_run_correct[OF match_new_demo refl, of demo_ops] match_new_demo show ?thesis
    by blast
qed

text \<open>
  A submission the match rejects (wrong chooser, unknown player, wrong phase, exhausted
  game index) leaves no trace: any run reaches the state that its accepted submissions alone
  reach.
\<close>

lemma match_rejections_leave_no_trace:
  "run_ops match_step (accepted match_step ops s) s = run_ops match_step ops s"
  by (rule bo3.run_accepted)

text \<open>
  A match cannot go on for ever: from a fresh match, playing rounds in which the expected
  player chooses, the match has a winner as soon as three of the games were decisive, for any
  number of draws that the one-byte game index can count (254 games).
\<close>

theorem match_completes:
  assumes "match_new_v1 first = Inr s0"
    and "length rounds \<le> 254" and "list_all (valid_outcome \<circ> snd) rounds"
    and "3 \<le> length (filter (\<lambda>r. snd r \<noteq> GameDraw) rounds)"
  shows "\<exists>w. valid_player w \<and> match_outcome (fold play_round rounds s0) = Some (MatchWinner w)"
proof -
  have s0: "match_inv first s0" "phase s0 = AwaitingPlayDrawChoice 1 first" "games s0 = []"
    using assms(1) match_inv_new by (auto simp: match_new_v1_def and_then_eq_Inr)
  have "match_outcome (fold play_round rounds s0) \<noteq> None"
    using play_rounds_complete[OF s0(1,2)] assms(2-4) s0(3) by simp
  moreover have "match_inv first (fold play_round rounds s0)"
    using s0(1)
  proof (induction rounds arbitrary: s0)
    case (Cons r rs)
    then have "match_inv first (play_round r s0)"
      using bo3.run_inv by (cases r) (simp split: MatchPhaseV1.split del: run_ops_simps)
    with Cons.IH show ?case by simp
  qed simp
  ultimately show ?thesis
    by (cases "phase (fold play_round rounds s0)") (auto simp: match_inv_def match_outcome_def)
qed

theorem match_completes_witness:
  "match_new_v1 P0 = Inr demo_start \<and>
   (\<exists>w. valid_player w \<and>
     match_outcome (fold play_round
       [(Play, GameWin P0), (Draw, GameDraw), (Play, GameWin P1), (Play, GameWin P1)] demo_start)
     = Some (MatchWinner w))"
  using match_completes[OF match_new_demo,
      of "[(Play, GameWin P0), (Draw, GameDraw), (Play, GameWin P1), (Play, GameWin P1)]"]
    match_new_demo
  by (simp add: valid_outcome_def)

text \<open>
  The 255th game is the last one the match can represent: recording a result there that
  would need another game fails with \<open>GameIndexExhausted\<close> and changes nothing, instead of
  wrapping the index to zero; a result that ends the match is still recorded.
\<close>

lemma game_index_never_wraps:
  assumes "phase s = AwaitingGameResult st" and "unat (game_index st) = 255"
    and "valid_player w" and "unat (wins s ! player_index w) < 2"
  shows "record_game_result_v1 GameDraw s = (Inl GameIndexExhausted, s) \<and>
    (if wins s ! player_index w = 0
     then record_game_result_v1 (GameWin w) s = (Inl GameIndexExhausted, s)
     else fst (record_game_result_v1 (GameWin w) s) = Inr (TransitionComplete (MatchWinner w)))"
  using assms record_exhausted[OF assms(1,2)] record_win_complete[OF assms(1,3)]
  by (auto simp: unat_gt_0 Suc_le_eq)

lemma game_index_never_wraps_witness:
  "record_game_result_v1 GameDraw
     \<lparr>wins = [1, 0], games = [], phase = AwaitingGameResult
        \<lparr>game_index = 255, chooser = P0, choice = Play, starting_player = P0\<rparr>\<rparr>
   = (Inl GameIndexExhausted,
      \<lparr>wins = [1, 0], games = [], phase = AwaitingGameResult
        \<lparr>game_index = 255, chooser = P0, choice = Play, starting_player = P0\<rparr>\<rparr>)"
  using game_index_never_wraps
    [of "\<lparr>wins = [1, 0], games = [], phase = AwaitingGameResult
        \<lparr>game_index = 255, chooser = P0, choice = Play, starting_player = P0\<rparr>\<rparr>"
      "\<lparr>game_index = 255, chooser = P0, choice = Play, starting_player = P0\<rparr>" P0]
  by simp

end
