(* ===== verification/Sideboard.thy ===== *)
theory Sideboard
  imports Prelude "HOL-Library.Char_ord" "HOL-Library.List_Lexorder" "HOL-Library.Product_Lexorder"
begin

text \<open>
  \<^verbatim>\<open>mtg-kernel/src/sideboard.rs\<close>: registered 60/15 decks, sideboard plans, and deterministic
  policies that choose a plan per matchup and game.

  A \<^verbatim>\<open>BTreeMap<u16, u8>\<close> is an association list in ascending key order; \<^verbatim>\<open>usize\<close> totals are
  \<open>nat\<close>. Strings compare by bytes, which is the order of the library theories imported here.
  SHA-256 and the card table are arguments (\<open>sha\<close>, \<open>defs\<close>, \<open>by_name\<close>), and the functions
  that read a checked-in JSON file take the result of deserializing it. The byte writers
  are total here; in the code a length of \<open>2 ^ 32\<close> or more is a panic, and every theorem about
  them asks for smaller lengths.
\<close>

section \<open>Data\<close>

definition REGISTERED_MAINBOARD_SIZE_V1 :: nat where
  "REGISTERED_MAINBOARD_SIZE_V1 = 60"

definition REGISTERED_SIDEBOARD_SIZE_V1 :: nat where
  "REGISTERED_SIDEBOARD_SIZE_V1 = 15"

record CardCountV1 =
  card_id :: u16
  row_count :: u8

record DeckConfigurationV1 =
  mainboard :: "u16 list"
  sideboard :: "u16 list"

record RegisteredDeckV1 =
  deck_id :: string
  configuration :: DeckConfigurationV1

record SideboardPlanV1 =
  plan_self_deck_id :: string
  plan_opponent_deck_id :: string
  plan_game_index :: u8
  cards_in :: "CardCountV1 list"
  cards_out :: "CardCountV1 list"

datatype SideboardDefaultPlanV1 = KeepRegisteredConfiguration

record DeterministicSideboardPolicyV1 =
  policy_id :: string
  policy_deck_ids :: "string list"
  default_plan :: SideboardDefaultPlanV1
  plans :: "SideboardPlanV1 list"

record AppliedSideboardReceiptV1 =
  receipt_schema :: string
  receipt_policy_id :: string
  policy_sha256 :: "u8 list"
  receipt_self_deck_id :: string
  receipt_opponent_deck_id :: string
  receipt_game_index :: u8
  registered_75_sha256 :: "u8 list"
  before_mainboard_sha256 :: "u8 list"
  before_sideboard_sha256 :: "u8 list"
  receipt_cards_in :: "CardCountV1 list"
  receipt_cards_out :: "CardCountV1 list"
  after_mainboard_sha256 :: "u8 list"
  after_sideboard_sha256 :: "u8 list"

datatype SideboardZoneV1 = RegisteredMainboard | RegisteredSideboard

datatype SideboardErrorV1 =
    InvalidIdentifier string
  | WrongMainboardSize nat
  | WrongSideboardSize nat
  | InvalidPostboardGameIndex u8
  | ZeroCardCount u16
  | DuplicateCardCount u16
  | UnequalExchangeCounts nat nat
  | ExchangeTooLarge nat
  | CardListedBothInAndOut u16
  | CardUnavailable SideboardZoneV1 u16 u8 u8
  | PlanDeckMismatch string string
  | RegisteredMultisetChanged
  | UnknownRegisteredCardId SideboardZoneV1 u16
  | TokenInRegisteredDeck SideboardZoneV1 u16 string
  | CardNotFullySupported SideboardZoneV1 u16 string
  | NonbasicCopyLimitExceeded u16 u8
  | PoolJson string
  | PoolSchemaMismatch string
  | PoolDeckCount nat
  | EmptyPool
  | DuplicatePoolDeckId string
  | UnknownPoolDeckId string
  | PoolPolicyDeckSetMismatch
  | PoolCopyCountMismatch string SideboardZoneV1 nat nat
  | DuplicatePoolCardName string SideboardZoneV1 string
  | ZeroPoolCardCount string SideboardZoneV1 string
  | UnregisteredPoolCard string SideboardZoneV1 string
  | EmptyPolicyDeckSet
  | DuplicatePolicyDeckId string
  | UnknownPolicyDeckId string
  | DuplicatePlanKey string string u8
  | PolicyJson string
  | PolicySchemaMismatch string
  | PolicyCoverageMismatch
  | UnknownDefaultPlan string

text \<open>The parts of a card definition that deck registration reads.\<close>

datatype CardCapability = NoEffect | Partial | Full

fun is_executable :: "CardCapability \<Rightarrow> bool" where
  "is_executable NoEffect = False"
| "is_executable _ = True"

fun is_fully_supported :: "CardCapability \<Rightarrow> bool" where
  "is_fully_supported Full = True"
| "is_fully_supported _ = False"

datatype Supertype = Basic | Snow | Legendary

record CardDef =
  def_name :: string
  is_token :: bool
  capability :: CardCapability
  supertypes :: "Supertype list"

section \<open>Count maps\<close>

type_synonym counts = "(u16 \<times> u8) list"

fun counts_get :: "u16 \<Rightarrow> counts \<Rightarrow> u8 option" where
  "counts_get k [] = None"
| "counts_get k ((j, v) # m) = (if k = j then Some v else counts_get k m)"

fun counts_insert :: "u16 \<Rightarrow> u8 \<Rightarrow> counts \<Rightarrow> counts" where
  "counts_insert k v [] = [(k, v)]"
| "counts_insert k v ((j, w) # m) =
     (if k < j then (k, v) # (j, w) # m
      else if k = j then (k, v) # m
      else (j, w) # counts_insert k v m)"

definition counts_remove :: "u16 \<Rightarrow> counts \<Rightarrow> counts" where
  "counts_remove k m = filter (\<lambda>(j, _). j \<noteq> k) m"

text \<open>\<^verbatim>\<open>*counts.entry(k).or_insert(0) += v\<close>\<close>

definition counts_add :: "u16 \<Rightarrow> u8 \<Rightarrow> counts \<Rightarrow> counts" where
  "counts_add k v m = counts_insert k ((case counts_get k m of Some w \<Rightarrow> w | None \<Rightarrow> 0) + v) m"

definition counts_from_cards_v1 :: "u16 list \<Rightarrow> counts" where
  "counts_from_cards_v1 cards = fold (\<lambda>c m. counts_add c 1 m) cards []"

definition counts_to_rows_v1 :: "counts \<Rightarrow> CardCountV1 list" where
  "counts_to_rows_v1 m = map (\<lambda>(k, v). \<lparr>card_id = k, row_count = v\<rparr>) m"

definition expand_counts_v1 :: "counts \<Rightarrow> u16 list" where
  "expand_counts_v1 m = concat (map (\<lambda>(k, v). replicate (unat v) k) m)"

definition remove_count_v1 ::
  "counts \<Rightarrow> CardCountV1 \<Rightarrow> SideboardZoneV1 \<Rightarrow> (counts, SideboardErrorV1) result" where
  "remove_count_v1 m row zone =
     (let available = (case counts_get (card_id row) m of Some v \<Rightarrow> v | None \<Rightarrow> 0) in
      if available < row_count row
      then Inl (CardUnavailable zone (card_id row) (row_count row) available)
      else if available = row_count row then Inr (counts_remove (card_id row) m)
      else Inr (counts_insert (card_id row) (available - row_count row) m))"

definition add_count_v1 :: "counts \<Rightarrow> CardCountV1 \<Rightarrow> counts" where
  "add_count_v1 m row = counts_add (card_id row) (row_count row) m"

definition count_total_v1 :: "CardCountV1 list \<Rightarrow> nat" where
  "count_total_v1 rows = sum_list (map (unat \<circ> row_count) rows)"

section \<open>Validation\<close>

text \<open>The first pair of equal neighbours (\<^verbatim>\<open>windows(2)\<close>).\<close>

fun first_dup :: "('a \<Rightarrow> 'k) \<Rightarrow> 'a list \<Rightarrow> 'a option" where
  "first_dup key (x # y # xs) = (if key x = key y then Some x else first_dup key (y # xs))"
| "first_dup key _ = None"

text \<open>Visible ASCII or a space.\<close>

definition identifier_byte :: "char \<Rightarrow> bool" where
  "identifier_byte c \<longleftrightarrow> 32 \<le> (of_char c :: nat) \<and> (of_char c :: nat) \<le> 126"

definition validate_identifier_v1 :: "string \<Rightarrow> string \<Rightarrow> (unit, SideboardErrorV1) result" where
  "validate_identifier_v1 field value =
     (if value = [] \<or> length value > 128 \<or> \<not> list_all identifier_byte value
      then Inl (InvalidIdentifier field) else Inr ())"

definition validate_postboard_game_index_v1 :: "u8 \<Rightarrow> (unit, SideboardErrorV1) result" where
  "validate_postboard_game_index_v1 gi =
     (if gi < 2 then Inl (InvalidPostboardGameIndex gi) else Inr ())"

definition canonicalize_card_counts_v1 ::
  "CardCountV1 list \<Rightarrow> (CardCountV1 list, SideboardErrorV1) result" where
  "canonicalize_card_counts_v1 rows =
     (let sorted_rows = sort_key (\<lambda>r. (card_id r, row_count r)) rows in
      case find (\<lambda>r. row_count r = 0) sorted_rows of
        Some r \<Rightarrow> Inl (ZeroCardCount (card_id r))
      | None \<Rightarrow>
          (case first_dup card_id sorted_rows of
             Some r \<Rightarrow> Inl (DuplicateCardCount (card_id r))
           | None \<Rightarrow> Inr sorted_rows))"

text \<open>A check of every element in order, stopping at the first error.\<close>

fun check_each :: "('a \<Rightarrow> (unit, 'e) result) \<Rightarrow> 'a list \<Rightarrow> (unit, 'e) result" where
  "check_each f [] = Inr ()"
| "check_each f (x # xs) = and_then (f x) (\<lambda>_. check_each f xs)"

definition validate_registered_cards_v1 ::
  "CardDef list \<Rightarrow> u16 list \<Rightarrow> SideboardZoneV1 \<Rightarrow> (unit, SideboardErrorV1) result" where
  "validate_registered_cards_v1 defs cards zone =
     check_each
       (\<lambda>c. if \<not> unat c < length defs then Inl (UnknownRegisteredCardId zone c)
            else
              (let d = defs ! unat c in
               if is_token d then Inl (TokenInRegisteredDeck zone c (def_name d))
               else if \<not> is_fully_supported (capability d) \<or> \<not> is_executable (capability d)
               then Inl (CardNotFullySupported zone c (def_name d))
               else Inr ()))
       cards"

section \<open>Decks\<close>

definition new_exact_v1 ::
  "u16 list \<Rightarrow> u16 list \<Rightarrow> (DeckConfigurationV1, SideboardErrorV1) result" where
  "new_exact_v1 main side =
     (if length main \<noteq> REGISTERED_MAINBOARD_SIZE_V1 then Inl (WrongMainboardSize (length main))
      else if length side \<noteq> REGISTERED_SIDEBOARD_SIZE_V1 then Inl (WrongSideboardSize (length side))
      else Inr \<lparr>mainboard = sort main, sideboard = sort side\<rparr>)"

definition combined_card_counts_v1 :: "DeckConfigurationV1 \<Rightarrow> CardCountV1 list" where
  "combined_card_counts_v1 cfg =
     counts_to_rows_v1
       (fold (\<lambda>c m. counts_add c 1 m) (sideboard cfg) (counts_from_cards_v1 (mainboard cfg)))"

definition registered_new_exact_v1 ::
  "string \<Rightarrow> u16 list \<Rightarrow> u16 list \<Rightarrow> (RegisteredDeckV1, SideboardErrorV1) result" where
  "registered_new_exact_v1 did main side =
     and_then (validate_identifier_v1 ''deck_id'' did)
       (\<lambda>_. and_then (new_exact_v1 main side)
          (\<lambda>cfg. Inr \<lparr>deck_id = did, configuration = cfg\<rparr>))"

definition new_fully_supported_v1 ::
  "CardDef list \<Rightarrow> string \<Rightarrow> u16 list \<Rightarrow> u16 list \<Rightarrow> (RegisteredDeckV1, SideboardErrorV1) result" where
  "new_fully_supported_v1 defs did main side =
     and_then (registered_new_exact_v1 did main side)
       (\<lambda>deck. and_then (validate_registered_cards_v1 defs (mainboard (configuration deck)) RegisteredMainboard)
          (\<lambda>_. and_then (validate_registered_cards_v1 defs (sideboard (configuration deck)) RegisteredSideboard)
             (\<lambda>_. Inr deck)))"

definition validate_executable_v1 ::
  "CardDef list \<Rightarrow> RegisteredDeckV1 \<Rightarrow> (unit, SideboardErrorV1) result" where
  "validate_executable_v1 defs deck =
     and_then (validate_registered_cards_v1 defs (mainboard (configuration deck)) RegisteredMainboard)
       (\<lambda>_. and_then (validate_registered_cards_v1 defs (sideboard (configuration deck)) RegisteredSideboard)
          (\<lambda>_. check_each
                 (\<lambda>row. if row_count row > 4 \<and> Basic \<notin> set (supertypes (defs ! unat (card_id row)))
                        then Inl (NonbasicCopyLimitExceeded (card_id row) (row_count row)) else Inr ())
                 (combined_card_counts_v1 (configuration deck))))"

definition new_executable_v1 ::
  "CardDef list \<Rightarrow> string \<Rightarrow> u16 list \<Rightarrow> u16 list \<Rightarrow> (RegisteredDeckV1, SideboardErrorV1) result" where
  "new_executable_v1 defs did main side =
     and_then (registered_new_exact_v1 did main side)
       (\<lambda>deck. and_then (validate_executable_v1 defs deck) (\<lambda>_. Inr deck))"

section \<open>Plans\<close>

definition plan_new_v1 ::
  "string \<Rightarrow> string \<Rightarrow> u8 \<Rightarrow> CardCountV1 list \<Rightarrow> CardCountV1 list
    \<Rightarrow> (SideboardPlanV1, SideboardErrorV1) result" where
  "plan_new_v1 self_id opp_id gi cin cout =
     and_then (validate_identifier_v1 ''self_deck_id'' self_id) (\<lambda>_.
     and_then (validate_identifier_v1 ''opponent_deck_id'' opp_id) (\<lambda>_.
     and_then (validate_postboard_game_index_v1 gi) (\<lambda>_.
     and_then (canonicalize_card_counts_v1 cin) (\<lambda>cin'.
     and_then (canonicalize_card_counts_v1 cout) (\<lambda>cout'.
       (let tin = count_total_v1 cin'; tout = count_total_v1 cout' in
        if tin \<noteq> tout then Inl (UnequalExchangeCounts tin tout)
        else if tin > REGISTERED_SIDEBOARD_SIZE_V1 then Inl (ExchangeTooLarge tin)
        else
          (case find (\<lambda>c. c \<in> set (map card_id cout')) (map card_id cin') of
             Some c \<Rightarrow> Inl (CardListedBothInAndOut c)
           | None \<Rightarrow>
               Inr \<lparr>plan_self_deck_id = self_id, plan_opponent_deck_id = opp_id,
                    plan_game_index = gi, cards_in = cin', cards_out = cout'\<rparr>)))))))"

definition keep_registered_v1 ::
  "string \<Rightarrow> string \<Rightarrow> u8 \<Rightarrow> (SideboardPlanV1, SideboardErrorV1) result" where
  "keep_registered_v1 self_id opp_id gi = plan_new_v1 self_id opp_id gi [] []"

definition plan_key_v1 :: "SideboardPlanV1 \<Rightarrow> string \<times> string \<times> u8" where
  "plan_key_v1 p = (plan_self_deck_id p, plan_opponent_deck_id p, plan_game_index p)"

section \<open>Canonical bytes\<close>

definition push_len_v1 :: "nat \<Rightarrow> u8 list" where
  [enc_defs]: "push_len_v1 n = be_bytes 4 n"

definition push_bytes_v1 :: "u8 list \<Rightarrow> u8 list" where
  [enc_defs]: "push_bytes_v1 bs = push_len_v1 (length bs) @ bs"

definition push_string_v1 :: "string \<Rightarrow> u8 list" where
  [enc_defs]: "push_string_v1 s = push_bytes_v1 (as_bytes s)"

definition push_strings_v1 :: "string list \<Rightarrow> u8 list" where
  [enc_defs]: "push_strings_v1 vs = push_len_v1 (length vs) @ concat (map push_string_v1 vs)"

definition push_cards_v1 :: "u16 list \<Rightarrow> u8 list" where
  [enc_defs]: "push_cards_v1 cs = push_len_v1 (length cs) @ concat (map (\<lambda>c. be_bytes 2 (unat c)) cs)"

definition push_card_counts_v1 :: "CardCountV1 list \<Rightarrow> u8 list" where
  [enc_defs]: "push_card_counts_v1 rows =
     push_len_v1 (length rows) @ concat (map (\<lambda>r. be_bytes 2 (unat (card_id r)) @ [row_count r]) rows)"

definition append_canonical_bytes_v1 :: "SideboardPlanV1 \<Rightarrow> u8 list" where
  [enc_defs]: "append_canonical_bytes_v1 p =
     push_string_v1 (plan_self_deck_id p) @ push_string_v1 (plan_opponent_deck_id p) @
     [plan_game_index p] @ push_card_counts_v1 (cards_in p) @ push_card_counts_v1 (cards_out p)"

definition DECK_CONFIGURATION_HASH_DOMAIN_V1 :: string where
  "DECK_CONFIGURATION_HASH_DOMAIN_V1 = ''kernel-deck-configuration-sha256/v1''"

definition REGISTERED_DECK_HASH_DOMAIN_V1 :: string where
  "REGISTERED_DECK_HASH_DOMAIN_V1 = ''kernel-registered-75-sha256/v1''"

definition SIDEBOARD_POLICY_HASH_DOMAIN_V1 :: string where
  "SIDEBOARD_POLICY_HASH_DOMAIN_V1 = ''kernel-sideboard-policy-sha256/v1''"

definition SIDEBOARD_RECEIPT_HASH_DOMAIN_V1 :: string where
  "SIDEBOARD_RECEIPT_HASH_DOMAIN_V1 = ''kernel-sideboard-receipt-sha256/v1''"

definition SIDEBOARD_POLICY_SCHEMA_V1 :: string where
  "SIDEBOARD_POLICY_SCHEMA_V1 = ''kernel_pauper_sideboard_policy/v1''"

definition SIDEBOARD_RECEIPT_SCHEMA_V1 :: string where
  "SIDEBOARD_RECEIPT_SCHEMA_V1 = ''kernel_sideboard_receipt/v1''"

definition configuration_zone_bytes :: "string \<Rightarrow> u16 list \<Rightarrow> u8 list" where
  "configuration_zone_bytes zone cards =
     push_string_v1 DECK_CONFIGURATION_HASH_DOMAIN_V1 @ push_bytes_v1 (as_bytes zone) @ push_cards_v1 cards"

definition configuration_zone_sha256_v1 :: "(u8 list \<Rightarrow> u8 list) \<Rightarrow> string \<Rightarrow> u16 list \<Rightarrow> u8 list" where
  "configuration_zone_sha256_v1 sha zone cards = sha (configuration_zone_bytes zone cards)"

definition mainboard_sha256_v1 :: "(u8 list \<Rightarrow> u8 list) \<Rightarrow> DeckConfigurationV1 \<Rightarrow> u8 list" where
  "mainboard_sha256_v1 sha cfg = configuration_zone_sha256_v1 sha ''mainboard'' (mainboard cfg)"

definition sideboard_sha256_v1 :: "(u8 list \<Rightarrow> u8 list) \<Rightarrow> DeckConfigurationV1 \<Rightarrow> u8 list" where
  "sideboard_sha256_v1 sha cfg = configuration_zone_sha256_v1 sha ''sideboard'' (sideboard cfg)"

definition registered_75_bytes :: "RegisteredDeckV1 \<Rightarrow> u8 list" where
  "registered_75_bytes d =
     push_string_v1 REGISTERED_DECK_HASH_DOMAIN_V1 @ push_string_v1 (deck_id d) @
     push_cards_v1 (mainboard (configuration d)) @ push_cards_v1 (sideboard (configuration d))"

definition registered_75_sha256_v1 :: "(u8 list \<Rightarrow> u8 list) \<Rightarrow> RegisteredDeckV1 \<Rightarrow> u8 list" where
  "registered_75_sha256_v1 sha d = sha (registered_75_bytes d)"

definition policy_canonical_bytes_v1 :: "DeterministicSideboardPolicyV1 \<Rightarrow> u8 list" where
  "policy_canonical_bytes_v1 pol =
     push_string_v1 SIDEBOARD_POLICY_HASH_DOMAIN_V1 @ push_string_v1 SIDEBOARD_POLICY_SCHEMA_V1 @
     push_string_v1 (policy_id pol) @ push_strings_v1 (policy_deck_ids pol) @
     [case default_plan pol of KeepRegisteredConfiguration \<Rightarrow> 0] @
     push_len_v1 (length (plans pol)) @ concat (map append_canonical_bytes_v1 (plans pol))"

definition policy_sha256_v1 :: "(u8 list \<Rightarrow> u8 list) \<Rightarrow> DeterministicSideboardPolicyV1 \<Rightarrow> u8 list" where
  "policy_sha256_v1 sha pol = sha (policy_canonical_bytes_v1 pol)"

definition receipt_canonical_bytes_v1 :: "AppliedSideboardReceiptV1 \<Rightarrow> u8 list" where
  "receipt_canonical_bytes_v1 r =
     push_string_v1 SIDEBOARD_RECEIPT_HASH_DOMAIN_V1 @ push_string_v1 (receipt_schema r) @
     push_string_v1 (receipt_policy_id r) @ policy_sha256 r @
     push_string_v1 (receipt_self_deck_id r) @ push_string_v1 (receipt_opponent_deck_id r) @
     [receipt_game_index r] @ registered_75_sha256 r @ before_mainboard_sha256 r @
     before_sideboard_sha256 r @ push_card_counts_v1 (receipt_cards_in r) @
     push_card_counts_v1 (receipt_cards_out r) @ after_mainboard_sha256 r @ after_sideboard_sha256 r"

definition receipt_sha256_v1 :: "(u8 list \<Rightarrow> u8 list) \<Rightarrow> AppliedSideboardReceiptV1 \<Rightarrow> u8 list" where
  "receipt_sha256_v1 sha r = sha (receipt_canonical_bytes_v1 r)"

section \<open>Applying a plan\<close>

text \<open>One of the two exchange loops: each row leaves the first map and enters the second.\<close>

fun move_rows ::
  "SideboardZoneV1 \<Rightarrow> CardCountV1 list \<Rightarrow> counts \<Rightarrow> counts \<Rightarrow> (counts \<times> counts, SideboardErrorV1) result" where
  "move_rows zone [] src dst = Inr (src, dst)"
| "move_rows zone (row # rows) src dst =
     and_then (remove_count_v1 src row zone)
       (\<lambda>src'. move_rows zone rows src' (add_count_v1 dst row))"

definition apply_plan_v1 ::
  "(u8 list \<Rightarrow> u8 list) \<Rightarrow> RegisteredDeckV1 \<Rightarrow> SideboardPlanV1 \<Rightarrow> string \<Rightarrow> u8 list
    \<Rightarrow> (DeckConfigurationV1 \<times> AppliedSideboardReceiptV1, SideboardErrorV1) result" where
  "apply_plan_v1 sha deck p pid psha =
     (if plan_self_deck_id p \<noteq> deck_id deck
      then Inl (PlanDeckMismatch (deck_id deck) (plan_self_deck_id p))
      else
        and_then (validate_identifier_v1 ''policy_id'' pid) (\<lambda>_.
        and_then (move_rows RegisteredMainboard (cards_out p)
                    (counts_from_cards_v1 (mainboard (configuration deck)))
                    (counts_from_cards_v1 (sideboard (configuration deck)))) (\<lambda>(main1, side1).
        and_then (move_rows RegisteredSideboard (cards_in p) side1 main1) (\<lambda>(side2, main2).
        and_then (new_exact_v1 (expand_counts_v1 main2) (expand_counts_v1 side2)) (\<lambda>cfg.
          if combined_card_counts_v1 cfg \<noteq> combined_card_counts_v1 (configuration deck)
          then Inl RegisteredMultisetChanged
          else Inr (cfg,
            \<lparr>receipt_schema = SIDEBOARD_RECEIPT_SCHEMA_V1, receipt_policy_id = pid,
             policy_sha256 = psha, receipt_self_deck_id = deck_id deck,
             receipt_opponent_deck_id = plan_opponent_deck_id p,
             receipt_game_index = plan_game_index p,
             registered_75_sha256 = registered_75_sha256_v1 sha deck,
             before_mainboard_sha256 = mainboard_sha256_v1 sha (configuration deck),
             before_sideboard_sha256 = sideboard_sha256_v1 sha (configuration deck),
             receipt_cards_in = cards_in p, receipt_cards_out = cards_out p,
             after_mainboard_sha256 = mainboard_sha256_v1 sha cfg,
             after_sideboard_sha256 = sideboard_sha256_v1 sha cfg\<rparr>))))))"

section \<open>Policies\<close>

definition policy_new_v1 ::
  "string \<Rightarrow> string list \<Rightarrow> SideboardDefaultPlanV1 \<Rightarrow> SideboardPlanV1 list
    \<Rightarrow> (DeterministicSideboardPolicyV1, SideboardErrorV1) result" where
  "policy_new_v1 pid dids dflt ps =
     and_then (validate_identifier_v1 ''policy_id'' pid) (\<lambda>_.
       if dids = [] then Inl EmptyPolicyDeckSet
       else
         and_then (check_each (validate_identifier_v1 ''policy deck_id'') dids) (\<lambda>_.
           (case first_dup id (sort dids) of
              Some d \<Rightarrow> Inl (DuplicatePolicyDeckId d)
            | None \<Rightarrow>
                and_then
                  (check_each
                     (\<lambda>p. if plan_self_deck_id p \<notin> set dids
                          then Inl (UnknownPolicyDeckId (plan_self_deck_id p))
                          else if plan_opponent_deck_id p \<notin> set dids
                          then Inl (UnknownPolicyDeckId (plan_opponent_deck_id p))
                          else Inr ()) ps)
                  (\<lambda>_. (let sorted_plans = sort_key plan_key_v1 ps in
                        case first_dup plan_key_v1 sorted_plans of
                          Some p \<Rightarrow>
                            Inl (DuplicatePlanKey (plan_self_deck_id p) (plan_opponent_deck_id p)
                                   (plan_game_index p))
                        | None \<Rightarrow>
                            Inr \<lparr>policy_id = pid, policy_deck_ids = sort dids,
                                 default_plan = dflt, plans = sorted_plans\<rparr>)))))"

text \<open>\<^verbatim>\<open>binary_search_by\<close> on the sorted deck ids finds an id exactly when it is there.\<close>

definition plan_for_v1 ::
  "DeterministicSideboardPolicyV1 \<Rightarrow> string \<Rightarrow> string \<Rightarrow> u8 \<Rightarrow> (SideboardPlanV1, SideboardErrorV1) result" where
  "plan_for_v1 pol self_id opp_id gi =
     and_then (validate_postboard_game_index_v1 gi) (\<lambda>_.
     and_then
       (check_each (\<lambda>d. if d \<in> set (policy_deck_ids pol) then Inr () else Inl (UnknownPolicyDeckId d))
          [self_id, opp_id]) (\<lambda>_.
       (case find (\<lambda>p. plan_self_deck_id p = self_id \<and> plan_opponent_deck_id p = opp_id \<and>
                        plan_game_index p = gi) (plans pol) of
          Some p \<Rightarrow> Inr p
        | None \<Rightarrow>
            (case default_plan pol of
               KeepRegisteredConfiguration \<Rightarrow> keep_registered_v1 self_id opp_id gi))))"

definition policy_apply_v1 ::
  "(u8 list \<Rightarrow> u8 list) \<Rightarrow> DeterministicSideboardPolicyV1 \<Rightarrow> RegisteredDeckV1 \<Rightarrow> string \<Rightarrow> u8
    \<Rightarrow> (DeckConfigurationV1 \<times> AppliedSideboardReceiptV1, SideboardErrorV1) result" where
  "policy_apply_v1 sha pol deck opp_id gi =
     and_then (plan_for_v1 pol (deck_id deck) opp_id gi)
       (\<lambda>p. apply_plan_v1 sha deck p (policy_id pol) (policy_sha256_v1 sha pol))"

section \<open>Checked-in documents\<close>

text \<open>The deserialized documents; \<open>(_, string) result\<close> below is what \<^verbatim>\<open>serde_json::from_str\<close>
  returned, with the text of its error.\<close>

record SideboardPlanDocumentV1 =
  doc_self_deck_id :: string
  doc_opponent_deck_id :: string
  doc_game_index :: u8
  doc_cards_in :: "CardCountV1 list"
  doc_cards_out :: "CardCountV1 list"

record SideboardPolicyDocumentV1 =
  doc_schema :: string
  doc_policy_id :: string
  doc_deck_ids :: "string list"
  ordered_matchups :: string
  postboard_game_index_minimum :: u8
  doc_default_plan :: string
  doc_plans :: "SideboardPlanDocumentV1 list"

record PauperPoolZoneDocumentV1 =
  copy_count :: nat
  zone_cards :: "(string \<times> u8) list"

record PauperPoolDeckDocumentV1 =
  pool_deck_id :: string
  pool_mainboard :: PauperPoolZoneDocumentV1
  pool_sideboard :: PauperPoolZoneDocumentV1

record PauperPoolDocumentV1 =
  pool_schema :: string
  decks :: "PauperPoolDeckDocumentV1 list"

definition SIDEBOARD_POLICY_MATCHUP_COVERAGE_V1 :: string where
  "SIDEBOARD_POLICY_MATCHUP_COVERAGE_V1 = ''all_registered_deck_pairs''"

definition PAUPER_POOL_SCHEMA_V1 :: string where
  "PAUPER_POOL_SCHEMA_V1 = ''kernel_pauper_pool/v1''"

fun map_result :: "('a \<Rightarrow> ('b, 'e) result) \<Rightarrow> 'a list \<Rightarrow> ('b list, 'e) result" where
  "map_result f [] = Inr []"
| "map_result f (x # xs) = and_then (f x) (\<lambda>y. and_then (map_result f xs) (\<lambda>ys. Inr (y # ys)))"

definition from_json_v1 ::
  "(SideboardPolicyDocumentV1, string) result
    \<Rightarrow> (DeterministicSideboardPolicyV1, SideboardErrorV1) result" where
  "from_json_v1 parsed =
     and_then (map_err PolicyJson parsed) (\<lambda>doc.
       if doc_schema doc \<noteq> SIDEBOARD_POLICY_SCHEMA_V1 then Inl (PolicySchemaMismatch (doc_schema doc))
       else if ordered_matchups doc \<noteq> SIDEBOARD_POLICY_MATCHUP_COVERAGE_V1 \<or>
               postboard_game_index_minimum doc \<noteq> 2
       then Inl PolicyCoverageMismatch
       else if doc_default_plan doc \<noteq> ''keep_registered_configuration''
       then Inl (UnknownDefaultPlan (doc_default_plan doc))
       else
         and_then
           (map_result (\<lambda>p. plan_new_v1 (doc_self_deck_id p) (doc_opponent_deck_id p)
                              (doc_game_index p) (doc_cards_in p) (doc_cards_out p))
              (doc_plans doc))
           (\<lambda>ps. policy_new_v1 (doc_policy_id doc) (doc_deck_ids doc) KeepRegisteredConfiguration ps))"

fun expand_pool_rows ::
  "(string \<Rightarrow> u16 option) \<Rightarrow> string \<Rightarrow> SideboardZoneV1 \<Rightarrow> string list \<Rightarrow> (string \<times> u8) list
    \<Rightarrow> (u16 list, SideboardErrorV1) result" where
  "expand_pool_rows by_name did zone names [] = Inr []"
| "expand_pool_rows by_name did zone names ((nm, n) # rows) =
     (if nm \<in> set names then Inl (DuplicatePoolCardName did zone nm)
      else if n = 0 then Inl (ZeroPoolCardCount did zone nm)
      else
        (case by_name nm of
           None \<Rightarrow> Inl (UnregisteredPoolCard did zone nm)
         | Some c \<Rightarrow>
             and_then (expand_pool_rows by_name did zone (nm # names) rows)
               (\<lambda>cs. Inr (replicate (unat n) c @ cs))))"

definition expand_pool_zone_v1 ::
  "(string \<Rightarrow> u16 option) \<Rightarrow> string \<Rightarrow> SideboardZoneV1 \<Rightarrow> PauperPoolZoneDocumentV1
    \<Rightarrow> (u16 list, SideboardErrorV1) result" where
  "expand_pool_zone_v1 by_name did zone doc =
     and_then (expand_pool_rows by_name did zone [] (zone_cards doc))
       (\<lambda>cards. if length cards \<noteq> copy_count doc
                then Inl (PoolCopyCountMismatch did zone (copy_count doc) (length cards))
                else Inr cards)"

definition register_pauper_pool_deck_v1 ::
  "CardDef list \<Rightarrow> (string \<Rightarrow> u16 option) \<Rightarrow> PauperPoolDeckDocumentV1
    \<Rightarrow> (RegisteredDeckV1, SideboardErrorV1) result" where
  "register_pauper_pool_deck_v1 defs by_name deck =
     and_then (expand_pool_zone_v1 by_name (pool_deck_id deck) RegisteredMainboard (pool_mainboard deck)) (\<lambda>main.
     and_then (expand_pool_zone_v1 by_name (pool_deck_id deck) RegisteredSideboard (pool_sideboard deck)) (\<lambda>side.
       new_fully_supported_v1 defs (pool_deck_id deck) main side))"

definition checked_in_pauper_pool_document_v1 ::
  "(PauperPoolDocumentV1, string) result \<Rightarrow> (SideboardPolicyDocumentV1, string) result
    \<Rightarrow> (PauperPoolDocumentV1, SideboardErrorV1) result" where
  "checked_in_pauper_pool_document_v1 pool policy_doc =
     and_then (map_err PoolJson pool) (\<lambda>doc.
       if pool_schema doc \<noteq> PAUPER_POOL_SCHEMA_V1 then Inl (PoolSchemaMismatch (pool_schema doc))
       else if decks doc = [] then Inl EmptyPool
       else
         (let ids = map pool_deck_id (decks doc) in
          and_then (check_each (validate_identifier_v1 ''pool deck id'') ids) (\<lambda>_.
            (case first_dup id (sort ids) of
               Some d \<Rightarrow> Inl (DuplicatePoolDeckId d)
             | None \<Rightarrow>
                 and_then (from_json_v1 policy_doc) (\<lambda>pol.
                   if sort ids \<noteq> policy_deck_ids pol then Inl PoolPolicyDeckSetMismatch
                   else Inr doc)))))"

definition checked_in_pauper_registered_decks_v1 ::
  "CardDef list \<Rightarrow> (string \<Rightarrow> u16 option) \<Rightarrow> (PauperPoolDocumentV1, string) result
    \<Rightarrow> (SideboardPolicyDocumentV1, string) result \<Rightarrow> (RegisteredDeckV1 list, SideboardErrorV1) result" where
  "checked_in_pauper_registered_decks_v1 defs by_name pool policy_doc =
     and_then (checked_in_pauper_pool_document_v1 pool policy_doc)
       (\<lambda>doc. map_result (register_pauper_pool_deck_v1 defs by_name) (decks doc))"

definition checked_in_pauper_registered_deck_by_id_v1 ::
  "CardDef list \<Rightarrow> (string \<Rightarrow> u16 option) \<Rightarrow> (PauperPoolDocumentV1, string) result
    \<Rightarrow> (SideboardPolicyDocumentV1, string) result \<Rightarrow> string \<Rightarrow> (RegisteredDeckV1, SideboardErrorV1) result" where
  "checked_in_pauper_registered_deck_by_id_v1 defs by_name pool policy_doc did =
     and_then (validate_identifier_v1 ''pool deck id'' did) (\<lambda>_.
     and_then (checked_in_pauper_pool_document_v1 pool policy_doc) (\<lambda>doc.
     and_then (ok_or (find (\<lambda>d. pool_deck_id d = did) (decks doc)) (UnknownPoolDeckId did))
       (register_pauper_pool_deck_v1 defs by_name)))"

end
