(* ===== verification/Sideboard_Exchange.thy ===== *)
theory Sideboard_Exchange
  imports Sideboard
begin

text \<open>
  Sideboarding conserves the registered 75 cards. Count maps are related to the multisets they
  stand for; applying a plan is then multiset arithmetic, and the result is characterised
  completely: which plans are accepted, what the new configuration is, and which error a refused
  plan gives.
\<close>

section \<open>Count maps as multisets\<close>

definition amount :: "counts \<Rightarrow> u16 \<Rightarrow> nat" where
  "amount m k = (case counts_get k m of Some v \<Rightarrow> unat v | None \<Rightarrow> 0)"

definition canonical :: "counts \<Rightarrow> bool" where
  "canonical m \<longleftrightarrow> sorted_wrt (<) (map fst m) \<and> (\<forall>(k, v) \<in> set m. v \<noteq> 0)"

lemma canonical_simps [simp]:
  "canonical []"
  "canonical ((k, v) # m) \<longleftrightarrow> v \<noteq> 0 \<and> (\<forall>j \<in> fst ` set m. k < j) \<and> canonical m"
  by (auto simp: canonical_def)

lemma amount_simps [simp]:
  "amount [] k = 0"
  "amount ((j, v) # m) k = (if k = j then unat v else amount m k)"
  by (simp_all add: amount_def)

lemma counts_get_None: "k \<notin> fst ` set m \<Longrightarrow> counts_get k m = None"
  by (induction m) auto

lemma amount_notin: "k \<notin> fst ` set m \<Longrightarrow> amount m k = 0"
  by (simp add: amount_def counts_get_None)

lemma fst_counts_insert: "fst ` set (counts_insert k v m) = insert k (fst ` set m)"
  by (induction k v m rule: counts_insert.induct) auto

lemma canonical_insert: "canonical m \<Longrightarrow> v \<noteq> 0 \<Longrightarrow> canonical (counts_insert k v m)"
  by (induction k v m rule: counts_insert.induct) (auto simp: fst_counts_insert)

lemma amount_insert: "amount (counts_insert k v m) j = (if j = k then unat v else amount m j)"
  by (induction k v m rule: counts_insert.induct) auto

lemma canonical_remove: "canonical m \<Longrightarrow> canonical (counts_remove k m)"
  by (induction m) (auto simp: counts_remove_def)

lemma amount_remove:
  "canonical m \<Longrightarrow> amount (counts_remove k m) j = (if j = k then 0 else amount m j)"
  by (induction m) (auto simp: counts_remove_def amount_notin)

lemma count_expand:
  "canonical m \<Longrightarrow> count (mset (expand_counts_v1 m)) k = amount m k"
proof (induction m)
  case Nil
  then show ?case by (simp add: expand_counts_v1_def)
next
  case (Cons a m)
  obtain j v where a: "a = (j, v)" by fastforce
  with Cons have IH: "count (mset (expand_counts_v1 m)) k = amount m k" by simp
  have "amount m j = 0" if "k = j"
    using Cons.prems a by (intro amount_notin) auto
  with IH a show ?case by (auto simp: expand_counts_v1_def)
qed

text \<open>A canonical map is determined by its amounts.\<close>

lemma amount_pos: "canonical m \<Longrightarrow> (k, v) \<in> set m \<Longrightarrow> 0 < amount m k"
  by (induction m) (force simp: unat_gt_0)+

lemma amount_in: "0 < amount m k \<Longrightarrow> k \<in> fst ` set m"
  using amount_notin by fastforce

lemma canonical_eqI:
  assumes "canonical m" "canonical n" "\<And>k. amount m k = amount n k"
  shows "m = n"
  using assms
proof (induction m arbitrary: n)
  case Nil
  then show ?case
    by (cases n) (auto simp: unsigned_eq_0_iff split: if_splits, metis unsigned_eq_0_iff)
next
  case (Cons a m)
  obtain k v where a: "a = (k, v)" by fastforce
  obtain j w n' where n: "n = (j, w) # n'"
    using Cons.prems(3)[of k] Cons.prems(1) a by (cases n) (auto simp: unsigned_eq_0_iff)
  have kn: "k \<in> fst ` set n"
    using Cons.prems(1) Cons.prems(3)[of k, symmetric] a by (intro amount_in) (simp add: unat_gt_0)
  have jm: "j \<in> fst ` set (a # m)"
    using Cons.prems(2) Cons.prems(3)[of j] n by (intro amount_in) (simp add: unat_gt_0)
  have "k = j"
    using kn jm Cons.prems(1,2) a n by (auto dest: order.strict_trans)
  moreover have "v = w"
    using Cons.prems(3)[of k] a n \<open>k = j\<close> by (simp add: word_unat_eq_iff)
  moreover have "m = n'"
  proof (rule Cons.IH)
    show "canonical m" "canonical n'" using Cons.prems(1,2) a n by auto
    fix i
    show "amount m i = amount n' i"
    proof (cases "i = k")
      case True
      then have "i \<notin> fst ` set m" "i \<notin> fst ` set n'"
        using Cons.prems(1,2) a n \<open>k = j\<close> by auto
      then show ?thesis by (simp add: amount_notin)
    next
      case False
      then show ?thesis using Cons.prems(3)[of i] a n \<open>k = j\<close> by simp
    qed
  qed
  ultimately show ?case using a n by simp
qed

lemma counts_add_ok:
  assumes "canonical m" "0 < v" "amount m k + unat v \<le> 255"
  shows "canonical (counts_add k v m)"
    "amount (counts_add k v m) j = amount m j + (if j = k then unat v else 0)"
proof -
  let ?w = "case counts_get k m of Some w \<Rightarrow> w | None \<Rightarrow> 0"
  have w: "unat ?w = amount m k" by (simp add: amount_def split: option.split)
  have u: "unat (?w + v) = amount m k + unat v"
    using assms(3) w unat_add_no_overflow[of ?w v] by simp
  then have "?w + v \<noteq> 0" using assms(2) by (metis add_is_0 unat_0 unat_gt_0 word_gt_0 less_irrefl)
  then show "canonical (counts_add k v m)"
    using assms(1) by (simp add: counts_add_def canonical_insert)
  show "amount (counts_add k v m) j = amount m j + (if j = k then unat v else 0)"
    using u by (simp add: counts_add_def amount_insert)
qed

lemma counts_from_fold:
  assumes "canonical m" "\<And>k. amount m k + length cards \<le> 255"
  shows "canonical (fold (\<lambda>c m. counts_add c 1 m) cards m) \<and>
    (\<forall>k. amount (fold (\<lambda>c m. counts_add c 1 m) cards m) k = amount m k + count (mset cards) k)"
  using assms
proof (induction cards arbitrary: m)
  case Nil
  then show ?case by simp
next
  case (Cons c cards)
  have le: "amount m c + unat (1::u8) \<le> 255" using Cons.prems(2)[of c] by simp
  note ad = counts_add_ok[OF Cons.prems(1) _ le]
  have "amount (counts_add c 1 m) k + length cards \<le> 255" for k
    using ad(2)[of k] Cons.prems(2)[of k] by auto
  with Cons.IH[of "counts_add c 1 m"] ad show ?case by auto
qed

lemma counts_from_cards:
  assumes "length cards \<le> 255"
  shows "canonical (counts_from_cards_v1 cards)"
    "amount (counts_from_cards_v1 cards) k = count (mset cards) k"
  using counts_from_fold[of "[]" cards] assms by (simp_all add: counts_from_cards_v1_def)

lemma combined_counts_eq_iff:
  assumes "length (mainboard a) + length (sideboard a) \<le> 255"
    and "length (mainboard b) + length (sideboard b) \<le> 255"
  shows "combined_card_counts_v1 a = combined_card_counts_v1 b \<longleftrightarrow>
    mset (mainboard a) + mset (sideboard a) = mset (mainboard b) + mset (sideboard b)"
proof -
  define f where "f cfg = fold (\<lambda>c m. counts_add c 1 m) (sideboard cfg)
    (counts_from_cards_v1 (mainboard cfg))" for cfg :: DeckConfigurationV1
  have f: "canonical (f cfg) \<and>
      (\<forall>k. amount (f cfg) k = count (mset (mainboard cfg) + mset (sideboard cfg)) k)"
    if "length (mainboard cfg) + length (sideboard cfg) \<le> 255" for cfg :: DeckConfigurationV1
  proof -
    have "count (mset (mainboard cfg)) k \<le> length (mainboard cfg)" for k
      by (metis count_le_size size_mset)
    then have "amount (counts_from_cards_v1 (mainboard cfg)) k + length (sideboard cfg) \<le> 255" for k
      using that counts_from_cards(2)[of "mainboard cfg" k] by (metis add_le_mono1 le_trans add_leD1)
    then show ?thesis
      using counts_from_fold[of "counts_from_cards_v1 (mainboard cfg)" "sideboard cfg"]
        counts_from_cards[of "mainboard cfg"] that unfolding f_def by auto
  qed
  have inj: "counts_to_rows_v1 m = counts_to_rows_v1 n \<longleftrightarrow> m = n" for m n
    unfolding counts_to_rows_v1_def
    by (subst inj_map_eq_map) (auto simp: inj_def)
  have "f a = f b \<longleftrightarrow> (\<forall>k. amount (f a) k = amount (f b) k)"
    using canonical_eqI[of "f a" "f b"] f[OF assms(1)] f[OF assms(2)] by auto
  then show ?thesis
    using f[OF assms(1)] f[OF assms(2)] inj[of "f a" "f b"]
    by (simp add: combined_card_counts_v1_def f_def[symmetric] multiset_eq_iff)
qed

section \<open>Well-formed decks and plans\<close>

definition config_ok :: "DeckConfigurationV1 \<Rightarrow> bool" where
  "config_ok cfg \<longleftrightarrow> length (mainboard cfg) = 60 \<and> length (sideboard cfg) = 15 \<and>
     sorted (mainboard cfg) \<and> sorted (sideboard cfg)"

definition rows_mset :: "CardCountV1 list \<Rightarrow> u16 multiset" where
  "rows_mset rows = sum_list (map (\<lambda>r. replicate_mset (unat (row_count r)) (card_id r)) rows)"

text \<open>What \<^verbatim>\<open>SideboardPlanV1::new_v1\<close> guarantees of its rows.\<close>

definition rows_ok :: "CardCountV1 list \<Rightarrow> bool" where
  "rows_ok rows \<longleftrightarrow> sorted_wrt (<) (map card_id rows) \<and> (\<forall>r \<in> set rows. row_count r \<noteq> 0)"

definition plan_ok :: "SideboardPlanV1 \<Rightarrow> bool" where
  "plan_ok p \<longleftrightarrow> rows_ok (cards_in p) \<and> rows_ok (cards_out p) \<and>
     count_total_v1 (cards_in p) = count_total_v1 (cards_out p) \<and>
     count_total_v1 (cards_in p) \<le> 15 \<and>
     set (map card_id (cards_in p)) \<inter> set (map card_id (cards_out p)) = {} \<and>
     2 \<le> plan_game_index p"

lemma rows_mset_simps [simp]:
  "rows_mset [] = {#}"
  "rows_mset (r # rows) = replicate_mset (unat (row_count r)) (card_id r) + rows_mset rows"
  by (simp_all add: rows_mset_def)

lemma size_rows_mset: "size (rows_mset rows) = count_total_v1 rows"
  by (induction rows) (auto simp: count_total_v1_def)

lemma set_rows_mset: "rows_ok rows \<Longrightarrow> set_mset (rows_mset rows) = set (map card_id rows)"
  by (induction rows) (auto simp: rows_ok_def unsigned_eq_0_iff)

lemma rows_ok_Cons:
  "rows_ok (r # rows) \<longleftrightarrow> row_count r \<noteq> 0 \<and> (\<forall>s \<in> set rows. card_id r < card_id s) \<and> rows_ok rows"
  by (auto simp: rows_ok_def)

lemma first_dup_None:
  fixes key :: "'a \<Rightarrow> 'k::linorder"
  shows "sorted (map key xs) \<Longrightarrow> first_dup key xs = None \<longleftrightarrow> sorted_wrt (<) (map key xs)"
proof (induction key xs rule: first_dup.induct)
  case (1 key x y xs)
  then show ?case by (auto simp: order.strict_iff_order)
qed auto

lemma sorted_key_card_id:
  "sorted (map (\<lambda>r. (card_id r, row_count r)) rows) \<Longrightarrow> sorted (map card_id rows)"
  by (induction rows) (auto simp: less_eq_prod_def)

lemma canonicalize_Inr:
  assumes "canonicalize_card_counts_v1 rows = Inr rows'"
  shows "rows_ok rows' \<and> mset rows' = mset rows"
proof -
  let ?s = "sort_key (\<lambda>r. (card_id r, row_count r)) rows"
  have "rows' = ?s" "find (\<lambda>r. row_count r = 0) ?s = None" "first_dup card_id ?s = None"
    using assms by (auto simp: canonicalize_card_counts_v1_def Let_def split: option.splits)
  moreover have "sorted (map card_id ?s)" by (rule sorted_key_card_id) simp
  ultimately show ?thesis
    by (auto simp: rows_ok_def first_dup_None find_None_iff)
qed

lemma plan_new_Inr:
  assumes "plan_new_v1 self_id opp_id gi cin cout = Inr p"
  shows "plan_ok p" "plan_self_deck_id p = self_id" "plan_opponent_deck_id p = opp_id"
    "plan_game_index p = gi" "mset (cards_in p) = mset cin" "mset (cards_out p) = mset cout"
proof -
  obtain cin' cout' where c: "canonicalize_card_counts_v1 cin = Inr cin'"
    "canonicalize_card_counts_v1 cout = Inr cout'"
    "validate_postboard_game_index_v1 gi = Inr ()"
    "count_total_v1 cin' = count_total_v1 cout'" "\<not> count_total_v1 cin' > REGISTERED_SIDEBOARD_SIZE_V1"
    "find (\<lambda>c. c \<in> set (map card_id cout')) (map card_id cin') = None"
    "p = \<lparr>plan_self_deck_id = self_id, plan_opponent_deck_id = opp_id,
          plan_game_index = gi, cards_in = cin', cards_out = cout'\<rparr>"
    using assms
    by (auto simp: plan_new_v1_def and_then_eq_Inr Let_def split: if_splits option.splits)
  have g: "2 \<le> gi" using c(3) by (simp add: validate_postboard_game_index_v1_def split: if_splits)
  show "plan_ok p"
    using canonicalize_Inr[OF c(1)] canonicalize_Inr[OF c(2)] c(4,5,6,7) g
    by (auto simp: plan_ok_def REGISTERED_SIDEBOARD_SIZE_V1_def find_None_iff)
  show "plan_self_deck_id p = self_id" "plan_opponent_deck_id p = opp_id" "plan_game_index p = gi"
    "mset (cards_in p) = mset cin" "mset (cards_out p) = mset cout"
    using canonicalize_Inr[OF c(1)] canonicalize_Inr[OF c(2)] c(7) by simp_all
qed

section \<open>The exchange\<close>

definition represents :: "counts \<Rightarrow> u16 multiset \<Rightarrow> bool" where
  "represents m M \<longleftrightarrow> canonical m \<and> (\<forall>k. amount m k = count M k)"

lemma represents_counts: "length cards \<le> 255 \<Longrightarrow> represents (counts_from_cards_v1 cards) (mset cards)"
  by (simp add: represents_def counts_from_cards)

lemma represents_expand: "represents m M \<Longrightarrow> mset (expand_counts_v1 m) = M"
  by (simp add: represents_def multiset_eq_iff count_expand)

lemma represents_remove:
  assumes "represents m M" "row_count row \<noteq> 0"
  shows "case remove_count_v1 m row zone of
      Inr m' \<Rightarrow> unat (row_count row) \<le> count M (card_id row) \<and>
        represents m' (M - replicate_mset (unat (row_count row)) (card_id row))
    | Inl e \<Rightarrow> count M (card_id row) < unat (row_count row) \<and>
        (\<exists>av. e = CardUnavailable zone (card_id row) (row_count row) av \<and> unat av = count M (card_id row))"
proof -
  let ?av = "case counts_get (card_id row) m of Some v \<Rightarrow> v | None \<Rightarrow> 0"
  have "unat ?av = amount m (card_id row)" by (simp add: amount_def split: option.split)
  with assms(1) have av: "unat ?av = count M (card_id row)" by (simp add: represents_def)
  have c: "canonical m" "\<And>k. amount m k = count M k" using assms(1) by (auto simp: represents_def)
  consider (lt) "?av < row_count row" | (eq) "?av = row_count row" | (gt) "row_count row < ?av"
    by (rule linorder_cases)
  then show ?thesis
  proof cases
    case lt
    then show ?thesis using av by (auto simp: remove_count_v1_def Let_def word_less_nat_alt)
  next
    case eq
    then show ?thesis
      using av c by (auto simp: remove_count_v1_def Let_def represents_def canonical_remove amount_remove)
  next
    case gt
    then have "unat (?av - row_count row) = count M (card_id row) - unat (row_count row)"
      "?av - row_count row \<noteq> 0" "unat (row_count row) \<le> count M (card_id row)"
      using av by (auto simp: unat_sub word_le_nat_alt word_less_nat_alt)
    with gt c show ?thesis
      by (auto simp: remove_count_v1_def Let_def represents_def canonical_insert amount_insert)
  qed
qed

lemma represents_add:
  assumes "represents m M" "row_count row \<noteq> 0" "size M + unat (row_count row) \<le> 255"
  shows "represents (add_count_v1 m row) (M + replicate_mset (unat (row_count row)) (card_id row))"
proof -
  have "amount m (card_id row) + unat (row_count row) \<le> 255"
    using assms(1,3) count_le_size[of M "card_id row"] by (simp add: represents_def)
  with assms(1,2) show ?thesis
    using counts_add_ok[of m "row_count row" "card_id row"]
    by (simp add: represents_def add_count_v1_def word_gt_0)
qed

lemma rows_subset_Cons:
  assumes "rows_ok (r # rows)"
  shows "rows_mset (r # rows) \<subseteq># M \<longleftrightarrow> unat (row_count r) \<le> count M (card_id r) \<and>
    rows_mset rows \<subseteq># M - replicate_mset (unat (row_count r)) (card_id r)"
proof -
  have "card_id r \<notin># rows_mset rows"
    using assms set_rows_mset[of rows] by (auto simp: rows_ok_Cons)
  then have z: "count (rows_mset rows) (card_id r) = 0" by (simp add: not_in_iff)
  show ?thesis
    unfolding subseteq_mset_def
    by (auto simp: z le_diff_conv2 split: if_splits)
qed

lemma move_rows_spec:
  assumes "represents src S" "represents dst D" "rows_ok rows" "size S + size D \<le> 255"
  shows "case move_rows zone rows src dst of
      Inr (src', dst') \<Rightarrow> rows_mset rows \<subseteq># S \<and>
        represents src' (S - rows_mset rows) \<and> represents dst' (D + rows_mset rows)
    | Inl e \<Rightarrow> \<not> rows_mset rows \<subseteq># S \<and> (\<exists>c n av. e = CardUnavailable zone c n av)"
  using assms
proof (induction zone rows src dst arbitrary: S D rule: move_rows.induct)
  case (1 zone src dst)
  then show ?case by simp
next
  case (2 zone row rows src dst)
  have ok: "row_count row \<noteq> 0" "rows_ok rows" using "2.prems"(3) by (auto simp: rows_ok_Cons)
  note rm = represents_remove[OF "2.prems"(1) ok(1), of zone]
  show ?case
  proof (cases "remove_count_v1 src row zone")
    case (Inl e)
    then show ?thesis using rm rows_subset_Cons[OF "2.prems"(3), of S] by auto
  next
    case (Inr src')
    let ?R = "replicate_mset (unat (row_count row)) (card_id row)"
    have le: "unat (row_count row) \<le> count S (card_id row)" and rs: "represents src' (S - ?R)"
      using rm Inr by auto
    have sub: "?R \<subseteq># S" using le by (simp add: count_le_replicate_mset_subset_eq)
    have szle: "unat (row_count row) \<le> size S" using size_mset_mono[OF sub] by simp
    have sz: "size (S - ?R) = size S - unat (row_count row)"
      using sub by (simp add: size_Diff_submset)
    have rd: "represents (add_count_v1 dst row) (D + ?R)"
      using "2.prems"(2,4) ok(1) szle by (intro represents_add) auto
    have tot: "size (S - ?R) + size (D + ?R) \<le> 255" using sz szle "2.prems"(4) by simp
    show ?thesis
      using "2.IH"[OF Inr rs rd ok(2) tot] Inr rows_subset_Cons[OF "2.prems"(3), of S] le
      by (auto split: sum.splits prod.splits simp: ac_simps)
  qed
qed

section \<open>Applying a plan\<close>

lemma new_exact_Inr:
  "length main = 60 \<Longrightarrow> length side = 15 \<Longrightarrow>
   new_exact_v1 main side = Inr \<lparr>mainboard = sort main, sideboard = sort side\<rparr>"
  by (simp add: new_exact_v1_def REGISTERED_MAINBOARD_SIZE_V1_def REGISTERED_SIDEBOARD_SIZE_V1_def)

lemma new_exact_config_ok: "new_exact_v1 main side = Inr cfg \<Longrightarrow> config_ok cfg"
  by (auto simp: new_exact_v1_def REGISTERED_MAINBOARD_SIZE_V1_def REGISTERED_SIDEBOARD_SIZE_V1_def
      config_ok_def split: if_splits)

lemma disjoint_subset_add:
  assumes "set_mset A \<inter> set_mset B = {}"
  shows "A \<subseteq># S + B \<longleftrightarrow> A \<subseteq># S"
proof -
  have "count B k = 0" if "0 < count A k" for k
    using assms that by (metis count_greater_zero_iff disjoint_iff not_in_iff)
  then show ?thesis
    unfolding subseteq_mset_def by (metis add.right_neutral count_union gr0I le0 trans_le_add1)
qed

lemma exchange_sum:
  "Out \<subseteq># M \<Longrightarrow> In \<subseteq># S \<Longrightarrow> (M - Out + In) + (S - In + Out) = M + (S :: 'a multiset)"
proof (rule multiset_eqI)
  fix k
  assume "Out \<subseteq># M" "In \<subseteq># S"
  then have "count Out k \<le> count M k" "count In k \<le> count S k"
    by (simp_all add: mset_subset_eq_count)
  then show "count ((M - Out + In) + (S - In + Out)) k = count (M + S) k" by simp
qed

lemma apply_plan_char:
  assumes "config_ok (configuration deck)" "plan_ok p"
    and "plan_self_deck_id p = deck_id deck" "validate_identifier_v1 ''policy_id'' pid = Inr ()"
    and "Out = rows_mset (cards_out p)" "In = rows_mset (cards_in p)"
    and "M = mset (mainboard (configuration deck))" "S = mset (sideboard (configuration deck))"
  shows "case apply_plan_v1 sha deck p pid psha of
      Inr (cfg, r) \<Rightarrow> Out \<subseteq># M \<and> In \<subseteq># S \<and> config_ok cfg \<and>
        mset (mainboard cfg) = M - Out + In \<and> mset (sideboard cfg) = S - In + Out
    | Inl e \<Rightarrow> \<not> (Out \<subseteq># M \<and> In \<subseteq># S) \<and> (\<exists>zone c n av. e = CardUnavailable zone c n av)"
proof -
  have len: "length (mainboard (configuration deck)) = 60" "length (sideboard (configuration deck)) = 15"
    using assms(1) by (simp_all add: config_ok_def)
  have sz: "size M = 60" "size S = 15" "size Out = size In"
    using assms(2,5-8) len by (simp_all add: size_rows_mset plan_ok_def)
  have rows: "rows_ok (cards_in p)" "rows_ok (cards_out p)" using assms(2) by (simp_all add: plan_ok_def)
  have dj: "set_mset In \<inter> set_mset Out = {}"
    using assms(2,5,6) rows by (simp add: set_rows_mset plan_ok_def)
  let ?m0 = "counts_from_cards_v1 (mainboard (configuration deck))"
  let ?s0 = "counts_from_cards_v1 (sideboard (configuration deck))"
  have r0: "represents ?m0 M" "represents ?s0 S"
    using len assms(7,8) by (auto intro: represents_counts)
  note first = move_rows_spec[OF r0 rows(2), of RegisteredMainboard, folded assms(5)]
  show ?thesis
  proof (cases "move_rows RegisteredMainboard (cards_out p) ?m0 ?s0")
    case (Inl e)
    then show ?thesis using first sz assms(3,4) by (auto simp: apply_plan_v1_def)
  next
    case (Inr ms)
    obtain m1 s1 where ms: "ms = (m1, s1)" by fastforce
    have f: "Out \<subseteq># M" "represents m1 (M - Out)" "represents s1 (S + Out)"
      using first Inr ms sz by auto
    have ol: "size Out \<le> 60" using size_mset_mono[OF f(1)] sz by simp
    have "size (S + Out) + size (M - Out) \<le> 255" using f(1) sz ol by (simp add: size_Diff_submset)
    note second = move_rows_spec[OF f(3,2) rows(1) this, of RegisteredSideboard, folded assms(6)]
    show ?thesis
    proof (cases "move_rows RegisteredSideboard (cards_in p) s1 m1")
      case (Inl e)
      then show ?thesis
        using second Inr ms assms(3,4) disjoint_subset_add[OF dj, of S] by (auto simp: apply_plan_v1_def)
    next
      case (Inr sm)
      obtain s2 m2 where sm: "sm = (s2, m2)" by fastforce
      have g: "In \<subseteq># S" "represents s2 (S + Out - In)" "represents m2 (M - Out + In)"
        using second Inr sm disjoint_subset_add[OF dj, of S] by auto
      have il: "size In \<le> 15" using size_mset_mono[OF g(1)] sz by simp
      have e: "mset (expand_counts_v1 m2) = M - Out + In" "mset (expand_counts_v1 s2) = S - In + Out"
        using represents_expand[OF g(3)] represents_expand[OF g(2)] g(1)
        by (simp_all add: subset_mset.add_diff_assoc2)
      have le: "length (expand_counts_v1 m2) = 60" "length (expand_counts_v1 s2) = 15"
        using e[THEN arg_cong[where f = size], unfolded size_union size_mset size_Diff_submset[OF f(1)]
            size_Diff_submset[OF g(1)]] sz ol il by linarith+
      let ?cfg = "\<lparr>mainboard = sort (expand_counts_v1 m2), sideboard = sort (expand_counts_v1 s2)\<rparr>"
      have "(M - Out + In) + (S - In + Out) = M + S"
        using f(1) g(1) by (rule exchange_sum)
      then have cc: "combined_card_counts_v1 ?cfg = combined_card_counts_v1 (configuration deck)"
        using le len e assms(7,8) by (subst combined_counts_eq_iff) simp_all
      have res: "new_exact_v1 (expand_counts_v1 m2) (expand_counts_v1 s2) = Inr ?cfg"
        using le by (rule new_exact_Inr)
      show ?thesis
        using res cc e f(1) g(1) new_exact_config_ok[OF res] assms(3,4) Inr sm
          \<open>move_rows RegisteredMainboard _ _ _ = Inr ms\<close> ms
        by (simp add: apply_plan_v1_def)
    qed
  qed
qed

text \<open>
  C15. Applying a well-formed plan to a registered deck under a valid policy id swaps exactly the
  listed cards and conserves the 75: it succeeds exactly when the cards going out are all in the
  registered mainboard and the cards coming in all in the registered sideboard; the new
  configuration is again 60/15 in canonical order, with the listed cards exchanged, and the
  whole multiset unchanged. Otherwise the error names a card that is not available; the size and
  conservation checks after the exchange never fire.
\<close>

theorem sideboarding_conserves_registered_75:
  assumes "config_ok (configuration deck)" "plan_ok p"
    and "plan_self_deck_id p = deck_id deck" "validate_identifier_v1 ''policy_id'' pid = Inr ()"
  shows "case apply_plan_v1 sha deck p pid psha of
      Inr (cfg, r) \<Rightarrow>
        rows_mset (cards_out p) \<subseteq># mset (mainboard (configuration deck)) \<and>
        rows_mset (cards_in p) \<subseteq># mset (sideboard (configuration deck)) \<and>
        config_ok cfg \<and>
        mset (mainboard cfg)
          = mset (mainboard (configuration deck)) - rows_mset (cards_out p) + rows_mset (cards_in p) \<and>
        mset (mainboard cfg) + mset (sideboard cfg)
          = mset (mainboard (configuration deck)) + mset (sideboard (configuration deck)) \<and>
        receipt_cards_in r = cards_in p \<and> receipt_cards_out r = cards_out p
    | Inl e \<Rightarrow>
        \<not> (rows_mset (cards_out p) \<subseteq># mset (mainboard (configuration deck)) \<and>
           rows_mset (cards_in p) \<subseteq># mset (sideboard (configuration deck))) \<and>
        (\<exists>zone c n av. e = CardUnavailable zone c n av)"
proof -
  have rc: "receipt_cards_in r = cards_in p \<and> receipt_cards_out r = cards_out p"
    if "apply_plan_v1 sha deck p pid psha = Inr (cfg, r)" for cfg r
    using that by (auto simp: apply_plan_v1_def and_then_eq_Inr split: if_splits)
  note ch = apply_plan_char[OF assms refl refl refl refl, of sha psha]
  show ?thesis
  proof (cases "apply_plan_v1 sha deck p pid psha")
    case (Inl e)
    then show ?thesis using ch by simp
  next
    case (Inr cr)
    obtain cfg r where cr: "cr = (cfg, r)" by fastforce
    show ?thesis
      using ch rc[of cfg r] Inr cr
        exchange_sum[of "rows_mset (cards_out p)" "mset (mainboard (configuration deck))"
          "rows_mset (cards_in p)" "mset (sideboard (configuration deck))"]
      by simp
  qed
qed

text \<open>A deck of forty copies of card 1 and twenty of card 2, with fifteen of card 3 beside it.\<close>

definition demo_deck :: RegisteredDeckV1 where
  "demo_deck = \<lparr>deck_id = ''burn'', configuration =
     \<lparr>mainboard = replicate 40 1 @ replicate 20 2, sideboard = replicate 15 3\<rparr>\<rparr>"

definition demo_plan :: SideboardPlanV1 where
  "demo_plan = \<lparr>plan_self_deck_id = ''burn'', plan_opponent_deck_id = ''elves'', plan_game_index = 2,
     cards_in = [\<lparr>card_id = 3, row_count = 4\<rparr>], cards_out = [\<lparr>card_id = 2, row_count = 4\<rparr>]\<rparr>"

theorem sideboarding_conserves_registered_75_witness:
  "case apply_plan_v1 id demo_deck demo_plan ''p'' [] of
     Inr (cfg, r) \<Rightarrow>
       config_ok cfg \<and>
       mset (mainboard cfg) = mset (replicate 40 1 @ replicate 20 2) - replicate_mset 4 2 + replicate_mset 4 3
   | Inl e \<Rightarrow> False"
proof -
  have ok: "config_ok (configuration demo_deck)" "plan_ok demo_plan"
    "plan_self_deck_id demo_plan = deck_id demo_deck" "validate_identifier_v1 ''policy_id'' ''p'' = Inr ()"
    by (simp_all add: config_ok_def demo_deck_def sorted_append plan_ok_def rows_ok_def demo_plan_def
        count_total_v1_def validate_identifier_v1_def identifier_byte_def)
  have av: "rows_mset (cards_out demo_plan) \<subseteq># mset (mainboard (configuration demo_deck))"
    "rows_mset (cards_in demo_plan) \<subseteq># mset (sideboard (configuration demo_deck))"
    by (simp_all add: demo_deck_def demo_plan_def subseteq_mset_def)
  show ?thesis
    using sideboarding_conserves_registered_75[OF ok, of id "[]"] av
    by (auto simp: demo_deck_def demo_plan_def split: sum.splits prod.splits)
qed

end
