(* ===== verification/Sideboard_Policy.thy ===== *)
theory Sideboard_Policy
  imports Sideboard_Exchange
begin

text \<open>
  Canonical bytes and policies of \<^verbatim>\<open>sideboard.rs\<close>. Every writer of the file is a prefix code, so
  the bytes that are hashed determine the deck, the policy and the receipt they describe. A policy
  is canonical: it does not depend on the order in which its decks and plans were listed.
\<close>

section \<open>Writers\<close>

interpretation len_code: prefix_code push_len_v1 "\<lambda>n. n < 2 ^ 32"
  by unfold_locales (rule be_bytes_cut[of _ 4], auto simp: push_len_v1_def)

interpretation byte_code: prefix_code "\<lambda>b::u8. [b]" "\<lambda>_. True"
  by unfold_locales auto

interpretation card_code: prefix_code "\<lambda>c::u16. be_bytes 2 (unat c)" "\<lambda>_. True"
proof
  fix a b :: u16 and r s
  assume "be_bytes 2 (unat a) @ r = be_bytes 2 (unat b) @ s"
  then have "unat a = unat b \<and> r = s"
    using unat_bound_u16[of a] unat_bound_u16[of b] by (intro be_bytes_cut[of _ 2]) auto
  then show "a = b \<and> r = s" by (simp add: word_unat_eq_iff)
qed

interpretation string_code: prefix_code push_string_v1 "\<lambda>s. length s < 2 ^ 32"
proof
  fix a b r s
  assume ab: "length a < 2 ^ 32" "length b < 2 ^ 32" and eq: "push_string_v1 a @ r = push_string_v1 b @ s"
  then have "length a = length b \<and> as_bytes a @ r = as_bytes b @ s"
    by (intro len_code.cut) (auto simp: push_string_v1_def push_bytes_v1_def)
  then have "as_bytes a = as_bytes b \<and> r = s" by (intro append_eq_append_conv[THEN iffD1]) auto
  then show "a = b \<and> r = s" by (simp add: as_bytes_inj)
qed

interpretation row_parts: prefix_code_pair "\<lambda>c::u16. be_bytes 2 (unat c)" "\<lambda>_. True"
  "\<lambda>b::u8. [b]" "\<lambda>_. True"
  by unfold_locales

interpretation row_code: prefix_code "\<lambda>r. be_bytes 2 (unat (card_id r)) @ [row_count r]"
  "\<lambda>r::CardCountV1. True"
proof
  fix a b :: CardCountV1 and r s
  assume "(be_bytes 2 (unat (card_id a)) @ [row_count a]) @ r = (be_bytes 2 (unat (card_id b)) @ [row_count b]) @ s"
  then have "card_id a = card_id b \<and> row_count a = row_count b \<and> r = s"
    by (intro row_parts.pair_cut) auto
  then show "a = b \<and> r = s" by (cases a; cases b) simp
qed

interpretation cards_code: prefix_code push_cards_v1 "\<lambda>cs. length cs < 2 ^ 32"
  using card_code.framed_list by (simp add: enc_defs[abs_def] list_all_def)

interpretation rows_code: prefix_code push_card_counts_v1 "\<lambda>rows. length rows < 2 ^ 32"
  using row_code.framed_list by (simp add: enc_defs[abs_def] list_all_def)

interpretation strings_code: prefix_code push_strings_v1
  "\<lambda>vs. length vs < 2 ^ 32 \<and> list_all (\<lambda>s. length s < 2 ^ 32) vs"
  using string_code.framed_list by (simp add: push_strings_v1_def[abs_def] push_len_v1_def)

definition plan_fits :: "SideboardPlanV1 \<Rightarrow> bool" where
  "plan_fits p \<longleftrightarrow> length (plan_self_deck_id p) < 2 ^ 32 \<and> length (plan_opponent_deck_id p) < 2 ^ 32 \<and>
     length (cards_in p) < 2 ^ 32 \<and> length (cards_out p) < 2 ^ 32"

interpretation plan_code: prefix_code append_canonical_bytes_v1 plan_fits
proof
  fix a b r s
  assume fa: "plan_fits a" and fb: "plan_fits b"
    and eq: "append_canonical_bytes_v1 a @ r = append_canonical_bytes_v1 b @ s"
  note fits = fa[unfolded plan_fits_def] fb[unfolded plan_fits_def]
  have 1: "plan_self_deck_id a = plan_self_deck_id b \<and>
      push_string_v1 (plan_opponent_deck_id a) @ [plan_game_index a] @ push_card_counts_v1 (cards_in a) @
        push_card_counts_v1 (cards_out a) @ r =
      push_string_v1 (plan_opponent_deck_id b) @ [plan_game_index b] @ push_card_counts_v1 (cards_in b) @
        push_card_counts_v1 (cards_out b) @ s"
    using fits eq by (intro string_code.cut) (auto simp: append_canonical_bytes_v1_def)
  then have 2: "plan_opponent_deck_id a = plan_opponent_deck_id b \<and>
      [plan_game_index a] @ push_card_counts_v1 (cards_in a) @ push_card_counts_v1 (cards_out a) @ r =
      [plan_game_index b] @ push_card_counts_v1 (cards_in b) @ push_card_counts_v1 (cards_out b) @ s"
    using fits by (intro string_code.cut) auto
  then have 3: "plan_game_index a = plan_game_index b" "cards_in a = cards_in b \<and>
      push_card_counts_v1 (cards_out a) @ r = push_card_counts_v1 (cards_out b) @ s"
    using fits rows_code.cut[of "cards_in a" "cards_in b"] by auto
  then have "cards_out a = cards_out b \<and> r = s"
    using fits by (intro rows_code.cut) auto
  with 1 2 3 show "a = b \<and> r = s" by (cases a; cases b) simp
qed

section \<open>The bytes determine what they describe\<close>

definition deck_fits :: "RegisteredDeckV1 \<Rightarrow> bool" where
  "deck_fits d \<longleftrightarrow> length (deck_id d) < 2 ^ 32 \<and> length (mainboard (configuration d)) < 2 ^ 32 \<and>
     length (sideboard (configuration d)) < 2 ^ 32"

lemma registered_75_bytes_inj:
  assumes "deck_fits a" "deck_fits b" "registered_75_bytes a = registered_75_bytes b"
  shows "a = b"
proof -
  note fits = assms(1,2)[unfolded deck_fits_def]
  let ?m = "\<lambda>d. mainboard (configuration d)" and ?s = "\<lambda>d. sideboard (configuration d)"
  have "push_string_v1 (deck_id a) @ push_cards_v1 (?m a) @ push_cards_v1 (?s a) =
      push_string_v1 (deck_id b) @ push_cards_v1 (?m b) @ push_cards_v1 (?s b)"
    using assms(3) by (simp add: registered_75_bytes_def)
  then have 1: "deck_id a = deck_id b \<and>
      push_cards_v1 (?m a) @ push_cards_v1 (?s a) = push_cards_v1 (?m b) @ push_cards_v1 (?s b)"
    using fits by (intro string_code.cut) auto
  then have 2: "?m a = ?m b \<and> push_cards_v1 (?s a) = push_cards_v1 (?s b)"
    using fits by (intro cards_code.cut) auto
  then have "?s a = ?s b" using fits by (intro cards_code.enc_inj) auto
  with 1 2 show ?thesis
    by (cases a; cases b) (auto intro: DeckConfigurationV1.equality)
qed

definition policy_fits :: "DeterministicSideboardPolicyV1 \<Rightarrow> bool" where
  "policy_fits pol \<longleftrightarrow> length (policy_id pol) < 2 ^ 32 \<and> length (policy_deck_ids pol) < 2 ^ 32 \<and>
     list_all (\<lambda>s. length s < 2 ^ 32) (policy_deck_ids pol) \<and>
     length (plans pol) < 2 ^ 32 \<and> list_all plan_fits (plans pol)"

text \<open>
  C26. The canonical bytes of a policy determine the policy: two policies whose strings and lists
  fit the four-byte lengths and whose hashed bytes agree are equal, so every plan, deck id and
  count is under the policy hash.
\<close>

theorem policy_bytes_injective:
  assumes "policy_fits a" "policy_fits b" "policy_canonical_bytes_v1 a = policy_canonical_bytes_v1 b"
  shows "a = b"
proof -
  note fits = assms(1,2)[unfolded policy_fits_def]
  let ?ps = "\<lambda>p. concat (map append_canonical_bytes_v1 (plans p))"
  let ?d = "\<lambda>p. [case default_plan p of KeepRegisteredConfiguration \<Rightarrow> (0 :: u8)]"
  have "push_string_v1 (policy_id a) @ push_strings_v1 (policy_deck_ids a) @ ?d a @
        push_len_v1 (length (plans a)) @ ?ps a =
      push_string_v1 (policy_id b) @ push_strings_v1 (policy_deck_ids b) @ ?d b @
        push_len_v1 (length (plans b)) @ ?ps b"
    using assms(3) by (simp add: policy_canonical_bytes_v1_def)
  then have 1: "policy_id a = policy_id b \<and>
      push_strings_v1 (policy_deck_ids a) @ ?d a @ push_len_v1 (length (plans a)) @ ?ps a =
      push_strings_v1 (policy_deck_ids b) @ ?d b @ push_len_v1 (length (plans b)) @ ?ps b"
    using fits by (intro string_code.cut) auto
  then have 2: "policy_deck_ids a = policy_deck_ids b \<and>
      ?d a @ push_len_v1 (length (plans a)) @ ?ps a = ?d b @ push_len_v1 (length (plans b)) @ ?ps b"
    using fits by (intro strings_code.cut) auto
  then have 3: "length (plans a) = length (plans b) \<and> ?ps a = ?ps b"
    using fits by (intro len_code.cut) auto
  then have "plans a = plans b \<and> ([]::u8 list) = []"
    using fits by (intro plan_code.concat_cut) auto
  with 1 2 show ?thesis
    by (cases a; cases b; cases "default_plan a"; cases "default_plan b") simp
qed

definition demo_policy :: DeterministicSideboardPolicyV1 where
  "demo_policy = \<lparr>policy_id = ''p'', policy_deck_ids = [''burn'', ''elves''],
     default_plan = KeepRegisteredConfiguration, plans = [demo_plan]\<rparr>"

theorem policy_bytes_injective_witness:
  "\<exists>b. policy_fits b \<and> policy_canonical_bytes_v1 b \<noteq> policy_canonical_bytes_v1 demo_policy"
proof -
  let ?b = "demo_policy\<lparr>plans := []\<rparr>"
  have f: "policy_fits demo_policy" "policy_fits ?b"
    by (simp_all add: policy_fits_def plan_fits_def demo_policy_def demo_plan_def)
  have "?b \<noteq> demo_policy" by (simp add: demo_policy_def)
  with policy_bytes_injective[OF f(2,1)] f show ?thesis by blast
qed

section \<open>Policies are canonical\<close>

definition policy_inv :: "DeterministicSideboardPolicyV1 \<Rightarrow> bool" where
  "policy_inv pol \<longleftrightarrow>
     policy_deck_ids pol \<noteq> [] \<and> sorted_wrt (<) (policy_deck_ids pol) \<and>
     sorted_wrt (<) (map plan_key_v1 (plans pol)) \<and>
     (\<forall>p \<in> set (plans pol). plan_self_deck_id p \<in> set (policy_deck_ids pol) \<and>
        plan_opponent_deck_id p \<in> set (policy_deck_ids pol))"

lemma check_each_Inr: "check_each f xs = Inr () \<longleftrightarrow> (\<forall>x \<in> set xs. f x = Inr ())"
  by (induction xs) (auto simp: and_then_eq_Inr)

lemma check_each_Inr': "check_each f xs = Inr u \<longleftrightarrow> (\<forall>x \<in> set xs. f x = Inr ())"
  using check_each_Inr[of f xs] by simp

text \<open>What the constructor accepts, as a condition on the sets and multisets it was given.\<close>

lemma policy_new_Inr_iff:
  "policy_new_v1 pid dids dflt ps = Inr pol \<longleftrightarrow>
     validate_identifier_v1 ''policy_id'' pid = Inr () \<and> dids \<noteq> [] \<and>
     (\<forall>d \<in> set dids. validate_identifier_v1 ''policy deck_id'' d = Inr ()) \<and>
     sorted_wrt (<) (sort dids) \<and>
     (\<forall>p \<in> set ps. plan_self_deck_id p \<in> set dids \<and> plan_opponent_deck_id p \<in> set dids) \<and>
     sorted_wrt (<) (map plan_key_v1 (sort_key plan_key_v1 ps)) \<and>
     pol = \<lparr>policy_id = pid, policy_deck_ids = sort dids, default_plan = dflt,
            plans = sort_key plan_key_v1 ps\<rparr>"
proof -
  have d: "first_dup id (sort dids) = None \<longleftrightarrow> sorted_wrt (<) (sort dids)"
    using first_dup_None[of id "sort dids"] by simp
  have p: "first_dup plan_key_v1 (sort_key plan_key_v1 ps) = None \<longleftrightarrow>
      sorted_wrt (<) (map plan_key_v1 (sort_key plan_key_v1 ps))"
    using first_dup_None[of plan_key_v1 "sort_key plan_key_v1 ps"] by simp
  show ?thesis
    unfolding policy_new_v1_def d[symmetric] p[symmetric]
    by (auto simp: and_then_eq_Inr check_each_Inr' Let_def split: option.splits if_splits)
qed

lemma sort_key_unique:
  fixes f :: "'a \<Rightarrow> 'k::linorder"
  assumes "sorted_wrt (<) (map f (sort_key f xs))" "mset xs = mset ys"
  shows "sort_key f ys = sort_key f xs"
proof -
  have "distinct (map f (sort_key f xs))" using assms(1) strict_sorted_iff by blast
  then have "inj_on f (set xs)" by (simp add: distinct_map)
  moreover have "set xs = set ys" using assms(2) by (metis set_mset_mset)
  ultimately show ?thesis
    using assms(2) by (intro sort_key_inj_key_eq) simp_all
qed

text \<open>
  C25. A sideboard policy is canonical: listing its decks and plans in another order gives the
  same policy (hence the same policy hash), and every policy the constructor returns has strictly
  increasing deck ids and plan keys, with all plans between its decks.
\<close>

theorem policy_is_canonical:
  assumes "policy_new_v1 pid dids dflt ps = Inr pol" "mset dids' = mset dids" "mset ps' = mset ps"
  shows "policy_new_v1 pid dids' dflt ps' = Inr pol \<and> policy_inv pol"
proof -
  note iff = assms(1)[unfolded policy_new_Inr_iff]
  have s: "sort dids' = sort dids" "sort_key plan_key_v1 ps' = sort_key plan_key_v1 ps"
    using iff assms(2,3) sort_key_unique[of "\<lambda>x. x" dids dids'] sort_key_unique[of plan_key_v1 ps ps']
    by simp_all
  have sets: "set dids' = set dids" "set ps' = set ps"
    using assms(2,3) by (metis set_mset_mset)+
  have ne: "dids' \<noteq> []" using iff sets(1) by auto
  show ?thesis
    using iff s sets ne by (simp add: policy_new_Inr_iff policy_inv_def)
      (metis length_0_conv length_sort)
qed

theorem policy_is_canonical_witness:
  "policy_new_v1 ''p'' [''elves'', ''burn''] KeepRegisteredConfiguration [demo_plan] = Inr demo_policy \<and>
   policy_inv demo_policy"
proof -
  have "policy_new_v1 ''p'' [''burn'', ''elves''] KeepRegisteredConfiguration [demo_plan] = Inr demo_policy"
    by code_simp
  then show ?thesis by (rule policy_is_canonical) simp_all
qed

lemma find_key:
  assumes "distinct (map f xs)" "x \<in> set xs" "f x = k"
  shows "find (\<lambda>y. f y = k) xs = Some x"
  using assms by (induction xs) (auto simp: image_iff)

lemma plan_key_match:
  "(plan_self_deck_id p = a \<and> plan_opponent_deck_id p = b \<and> plan_game_index p = g) = (plan_key_v1 p = (a, b, g))"
  by (auto simp: plan_key_v1_def)



section \<open>Executable registrations\<close>

definition card_admitted :: "CardDef list \<Rightarrow> u16 \<Rightarrow> bool" where
  "card_admitted defs c \<longleftrightarrow>
     unat c < length defs \<and> \<not> is_token (defs ! unat c) \<and> capability (defs ! unat c) = Full"

lemma validate_registered_cards_Inr:
  "validate_registered_cards_v1 defs cards zone = Inr () \<longleftrightarrow> (\<forall>c \<in> set cards. card_admitted defs c)"
proof -
  have cap: "is_fully_supported k \<and> is_executable k \<longleftrightarrow> k = Full" for k by (cases k) auto
  show ?thesis
    unfolding validate_registered_cards_v1_def check_each_Inr
    using cap by (auto simp: card_admitted_def Let_def split: if_splits)
qed

lemma amount_of_mem: "canonical m \<Longrightarrow> (k, v) \<in> set m \<Longrightarrow> amount m k = unat v"
  by (induction m) fastforce+

lemma mem_of_amount: "0 < amount m k \<Longrightarrow> \<exists>v. (k, v) \<in> set m \<and> unat v = amount m k"
  by (induction m) (auto split: if_splits)

lemma combined_rows:
  assumes "config_ok cfg"
  shows "(\<forall>row \<in> set (combined_card_counts_v1 cfg). row_count row > 4 \<longrightarrow> P (card_id row)) \<longleftrightarrow>
    (\<forall>c. count (mset (mainboard cfg @ sideboard cfg)) c > 4 \<longrightarrow> P c)"
proof -
  define m where "m = fold (\<lambda>c m. counts_add c 1 m) (sideboard cfg) (counts_from_cards_v1 (mainboard cfg))"
  have len: "length (mainboard cfg) = 60" "length (sideboard cfg) = 15"
    using assms by (simp_all add: config_ok_def)
  have "count (mset (mainboard cfg)) k \<le> 60" for k
    by (metis count_le_size size_mset len(1))
  then have am: "amount (counts_from_cards_v1 (mainboard cfg)) k \<le> 60" for k
    using counts_from_cards(2)[of "mainboard cfg" k] len by simp
  have "amount (counts_from_cards_v1 (mainboard cfg)) k + length (sideboard cfg) \<le> 255" for k
    using am[of k] len by simp
  then have m: "canonical m" "\<And>k. amount m k = count (mset (mainboard cfg @ sideboard cfg)) k"
    using counts_from_fold[of "counts_from_cards_v1 (mainboard cfg)" "sideboard cfg"]
      counts_from_cards[of "mainboard cfg"] len unfolding m_def by simp_all
  have "(\<forall>row \<in> set (combined_card_counts_v1 cfg). row_count row > 4 \<longrightarrow> P (card_id row)) \<longleftrightarrow>
      (\<forall>(k, v) \<in> set m. 4 < unat v \<longrightarrow> P k)"
    by (auto simp: combined_card_counts_v1_def m_def[symmetric] counts_to_rows_v1_def word_less_nat_alt)
  also have "\<dots> \<longleftrightarrow> (\<forall>c. amount m c > 4 \<longrightarrow> P c)"
  proof
    assume l: "\<forall>(k, v) \<in> set m. 4 < unat v \<longrightarrow> P k"
    show "\<forall>c. amount m c > 4 \<longrightarrow> P c"
    proof (intro allI impI)
      fix c assume "amount m c > 4"
      with mem_of_amount[of m c] l show "P c" by fastforce
    qed
  next
    assume "\<forall>c. amount m c > 4 \<longrightarrow> P c"
    with amount_of_mem[OF m(1)] show "\<forall>(k, v) \<in> set m. 4 < unat v \<longrightarrow> P k" by fastforce
  qed
  finally show ?thesis using m(2) by simp
qed

text \<open>
  A registration is admitted for play exactly when its id is valid, it is 60 and 15 cards,
  every card is a known non-token card with full rules support, and no card except basic lands
  occurs more than four times in the whole 75.
\<close>

theorem executable_registration:
  "(\<exists>deck. new_executable_v1 defs did main side = Inr deck) \<longleftrightarrow>
     validate_identifier_v1 ''deck_id'' did = Inr () \<and> length main = 60 \<and> length side = 15 \<and>
     (\<forall>c \<in> set (main @ side). card_admitted defs c) \<and>
     (\<forall>c. count (mset (main @ side)) c > 4 \<longrightarrow> Basic \<in> set (supertypes (defs ! unat c)))"
proof (cases "validate_identifier_v1 ''deck_id'' did = Inr () \<and> length main = 60 \<and> length side = 15")
  case True
  let ?cfg = "\<lparr>mainboard = sort main, sideboard = sort side\<rparr>"
  have ok: "config_ok ?cfg" using True by (simp add: config_ok_def)
  have "(\<exists>deck. new_executable_v1 defs did main side = Inr deck) \<longleftrightarrow>
      (\<forall>c \<in> set (main @ side). card_admitted defs c) \<and>
      (\<forall>row \<in> set (combined_card_counts_v1 ?cfg).
         row_count row > 4 \<longrightarrow> Basic \<in> set (supertypes (defs ! unat (card_id row))))"
    using True
    by (auto simp: new_executable_v1_def registered_new_exact_v1_def new_exact_Inr and_then_eq_Inr
        validate_executable_v1_def validate_registered_cards_Inr check_each_Inr' split: if_splits)
  with True combined_rows[OF ok, of "\<lambda>c. Basic \<in> set (supertypes (defs ! unat c))"]
  show ?thesis by simp
next
  case False
  then show ?thesis
    by (auto simp: new_executable_v1_def registered_new_exact_v1_def new_exact_v1_def and_then_eq_Inr
        REGISTERED_MAINBOARD_SIZE_V1_def REGISTERED_SIDEBOARD_SIZE_V1_def split: if_splits)
qed

definition demo_defs :: "CardDef list" where
  "demo_defs = [\<lparr>def_name = ''Mountain'', is_token = False, capability = Full, supertypes = [Basic]\<rparr>,
                \<lparr>def_name = ''Bolt'', is_token = False, capability = Full, supertypes = []\<rparr>]"

theorem executable_registration_witness:
  "\<nexists>deck. new_executable_v1 demo_defs ''burn'' (replicate 55 0 @ replicate 5 1) (replicate 15 0) = Inr deck"
proof -
  have "count (mset ((replicate 55 0 @ replicate 5 1) @ replicate 15 0)) (1::u16) > 4" by simp
  moreover have "Basic \<notin> set (supertypes (demo_defs ! unat (1::u16)))" by (simp add: demo_defs_def)
  ultimately show ?thesis
    using executable_registration[of demo_defs "''burn''" "replicate 55 0 @ replicate 5 1" "replicate 15 0"]
    by blast
qed

end
