(* ===== verification/Bo3_Session.thy ===== *)
theory Bo3_Session
  imports Bo3_Match Sideboard_Policy
begin

text \<open>
  \<^verbatim>\<open>mtg-kernel/src/bo3_session.rs\<close>: a best-of-three match between two registered decks. It
  composes the match state of \<open>Bo3_Match\<close> with the sideboarding of \<open>Sideboard\<close>: preparing a
  game advances a copy of the match state, resolves both seats' configurations, and commits the
  copy only when everything succeeded.

  The two-element arrays are pairs (seat 0, seat 1). A live sideboard policy is an argument: its
  state type, and the function \<open>select\<close> that the trait method \<^verbatim>\<open>select_live_v1\<close> is, which
  returns its result and the policy's new state.
\<close>

section \<open>Data\<close>

record PreparedMatchGameV1 =
  prepared_start :: GameStartV1
  configurations :: "DeckConfigurationV1 \<times> DeckConfigurationV1"
  sideboard_receipts :: "AppliedSideboardReceiptV1 option \<times> AppliedSideboardReceiptV1 option"

record ('p, 'ev) LiveSideboardConsultationV1 =
  live_policy :: 'p
  evidence :: 'ev
  current :: DeckConfigurationV1

record 'act LiveGamePreparationV1 =
  prepared :: PreparedMatchGameV1
  live_selections :: "'act list option \<times> 'act list option"

record BestOfThreeDeckMatchV1 =
  registered_decks :: "RegisteredDeckV1 \<times> RegisteredDeckV1"
  sideboard_policy :: "DeterministicSideboardPolicyV1 option"
  match_state :: BestOfThreeMatchStateV1

datatype Bo3SessionErrorV1 =
    MatchError MatchStateErrorV1
  | SideboardError SideboardErrorV1
  | MirrorRegistrationMismatch string
  | GameOneConfigurationChanged PlayerId
  | LiveConfigurationsRequired
  | LivePolicy string

section \<open>Operations\<close>

definition session_new_v1 ::
  "(u8 list \<Rightarrow> u8 list) \<Rightarrow> RegisteredDeckV1 \<Rightarrow> RegisteredDeckV1 \<Rightarrow> DeterministicSideboardPolicyV1
    \<Rightarrow> PlayerId \<Rightarrow> (BestOfThreeDeckMatchV1, Bo3SessionErrorV1) result" where
  "session_new_v1 sha p0 p1 pol first =
     (if deck_id p0 = deck_id p1 \<and> registered_75_sha256_v1 sha p0 \<noteq> registered_75_sha256_v1 sha p1
      then Inl (MirrorRegistrationMismatch (deck_id p0))
      else
        and_then (map_err SideboardError (plan_for_v1 pol (deck_id p0) (deck_id p1) 2)) (\<lambda>_.
        and_then (map_err SideboardError (plan_for_v1 pol (deck_id p1) (deck_id p0) 2)) (\<lambda>_.
        and_then (map_err MatchError (match_new_v1 first)) (\<lambda>ms.
          Inr \<lparr>registered_decks = (p0, p1), sideboard_policy = Some pol, match_state = ms\<rparr>))))"

definition session_new_live_v1 ::
  "CardDef list \<Rightarrow> RegisteredDeckV1 \<times> RegisteredDeckV1 \<Rightarrow> PlayerId
    \<Rightarrow> (BestOfThreeDeckMatchV1, Bo3SessionErrorV1) result" where
  "session_new_live_v1 defs decks_pair first =
     and_then (map_err SideboardError
                 (check_each (validate_executable_v1 defs) [fst decks_pair, snd decks_pair])) (\<lambda>_.
     and_then (map_err MatchError (match_new_v1 first)) (\<lambda>ms.
       Inr \<lparr>registered_decks = decks_pair, sideboard_policy = None, match_state = ms\<rparr>))"

definition checked_in_pauper_v1 ::
  "(u8 list \<Rightarrow> u8 list) \<Rightarrow> CardDef list \<Rightarrow> (string \<Rightarrow> u16 option)
    \<Rightarrow> (PauperPoolDocumentV1, string) result \<Rightarrow> (SideboardPolicyDocumentV1, string) result
    \<Rightarrow> string \<Rightarrow> string \<Rightarrow> PlayerId \<Rightarrow> (BestOfThreeDeckMatchV1, Bo3SessionErrorV1) result" where
  "checked_in_pauper_v1 sha defs by_name pool policy_doc id0 id1 first =
     and_then (map_err SideboardError
                 (checked_in_pauper_registered_deck_by_id_v1 defs by_name pool policy_doc id0)) (\<lambda>p0.
     and_then (map_err SideboardError
                 (checked_in_pauper_registered_deck_by_id_v1 defs by_name pool policy_doc id1)) (\<lambda>p1.
     and_then (map_err SideboardError (from_json_v1 policy_doc)) (\<lambda>pol.
       session_new_v1 sha p0 p1 pol first)))"

text \<open>The configurations and receipts of both seats under the installed policy.\<close>

definition static_configurations ::
  "(u8 list \<Rightarrow> u8 list) \<Rightarrow> DeterministicSideboardPolicyV1 \<Rightarrow> RegisteredDeckV1 \<times> RegisteredDeckV1 \<Rightarrow> u8
    \<Rightarrow> ((DeckConfigurationV1 \<times> DeckConfigurationV1) \<times>
        (AppliedSideboardReceiptV1 option \<times> AppliedSideboardReceiptV1 option), Bo3SessionErrorV1) result" where
  "static_configurations sha pol ds gi =
     (if gi = 1
      then Inr ((configuration (fst ds), configuration (snd ds)), (None, None))
      else
        and_then (map_err SideboardError (policy_apply_v1 sha pol (fst ds) (deck_id (snd ds)) gi)) (\<lambda>(c0, r0).
        and_then (map_err SideboardError (policy_apply_v1 sha pol (snd ds) (deck_id (fst ds)) gi)) (\<lambda>(c1, r1).
          Inr ((c0, c1), (Some r0, Some r1)))))"

definition prepare_game_v1 ::
  "(u8 list \<Rightarrow> u8 list) \<Rightarrow> PlayerId \<Rightarrow> PlayDrawChoiceV1 \<Rightarrow> BestOfThreeDeckMatchV1
    \<Rightarrow> (PreparedMatchGameV1, Bo3SessionErrorV1) result \<times> BestOfThreeDeckMatchV1" where
  "prepare_game_v1 sha ch c s =
     (case sideboard_policy s of
        None \<Rightarrow> (Inl LiveConfigurationsRequired, s)
      | Some pol \<Rightarrow>
          (case choose_play_draw_v1 ch c (match_state s) of
             (Inl e, _) \<Rightarrow> (Inl (MatchError e), s)
           | (Inr st, next_match_state) \<Rightarrow>
               (case static_configurations sha pol (registered_decks s) (game_index st) of
                  Inl e \<Rightarrow> (Inl e, s)
                | Inr (cfgs, receipts) \<Rightarrow>
                    (Inr \<lparr>prepared_start = st, configurations = cfgs, sideboard_receipts = receipts\<rparr>,
                     s\<lparr>match_state := next_match_state\<rparr>))))"

definition session_record_game_result_v1 ::
  "GameOutcomeV1 \<Rightarrow> BestOfThreeDeckMatchV1
    \<Rightarrow> (MatchTransitionV1, Bo3SessionErrorV1) result \<times> BestOfThreeDeckMatchV1" where
  "session_record_game_result_v1 out s =
     (case record_game_result_v1 out (match_state s) of
        (r, ms) \<Rightarrow> (map_err MatchError r, s\<lparr>match_state := ms\<rparr>))"

definition check_seat ::
  "u8 \<Rightarrow> u8 \<times> DeckConfigurationV1 \<times> RegisteredDeckV1 \<Rightarrow> (unit, Bo3SessionErrorV1) result" where
  "check_seat gi = (\<lambda>(seat, cfg, deck).
     if combined_card_counts_v1 cfg \<noteq> combined_card_counts_v1 (configuration deck)
     then Inl (SideboardError RegisteredMultisetChanged)
     else if gi = 1 \<and> cfg \<noteq> configuration deck
     then Inl (GameOneConfigurationChanged (PlayerId seat))
     else Inr ())"

definition prepare_game_with_configurations_v1 ::
  "PlayerId \<Rightarrow> PlayDrawChoiceV1 \<Rightarrow> DeckConfigurationV1 \<times> DeckConfigurationV1 \<Rightarrow> BestOfThreeDeckMatchV1
    \<Rightarrow> (PreparedMatchGameV1, Bo3SessionErrorV1) result \<times> BestOfThreeDeckMatchV1" where
  "prepare_game_with_configurations_v1 ch c cfgs s =
     (case choose_play_draw_v1 ch c (match_state s) of
        (Inl e, _) \<Rightarrow> (Inl (MatchError e), s)
      | (Inr st, next_match_state) \<Rightarrow>
          (case check_each (check_seat (game_index st))
                  [(0, fst cfgs, fst (registered_decks s)), (1, snd cfgs, snd (registered_decks s))] of
             Inl e \<Rightarrow> (Inl e, s)
           | Inr _ \<Rightarrow>
               (Inr \<lparr>prepared_start = st, configurations = cfgs, sideboard_receipts = (None, None)\<rparr>,
                s\<lparr>match_state := next_match_state\<rparr>)))"

text \<open>One seat of the live path: consult its policy, or fall back to the installed one.\<close>

definition live_seat ::
  "(u8 list \<Rightarrow> u8 list) \<Rightarrow> ('p \<Rightarrow> 'ev \<Rightarrow> DeckConfigurationV1 \<Rightarrow> (DeckConfigurationV1 \<times> 'act list, string) result \<times> 'p)
    \<Rightarrow> DeterministicSideboardPolicyV1 option \<Rightarrow> u8 \<Rightarrow> RegisteredDeckV1 \<Rightarrow> RegisteredDeckV1
    \<Rightarrow> ('p, 'ev) LiveSideboardConsultationV1 option
    \<Rightarrow> (DeckConfigurationV1 \<times> 'act list option, Bo3SessionErrorV1) result
       \<times> ('p, 'ev) LiveSideboardConsultationV1 option" where
  "live_seat sha select pol_opt gi deck opp live =
     (case live of
        Some con \<Rightarrow>
          (case select (live_policy con) (evidence con) (current con) of
             (r, p') \<Rightarrow>
               (and_then (map_err LivePolicy r) (\<lambda>(cfg, acts). Inr (cfg, Some acts)),
                Some (con\<lparr>live_policy := p'\<rparr>)))
      | None \<Rightarrow>
          (case pol_opt of
             None \<Rightarrow> (Inl LiveConfigurationsRequired, None)
           | Some pol \<Rightarrow>
               (and_then (map_err SideboardError (policy_apply_v1 sha pol deck (deck_id opp) gi))
                  (\<lambda>(cfg, _). Inr (cfg, None)), None)))"

definition prepare_game_with_live_policies_v1 ::
  "(u8 list \<Rightarrow> u8 list) \<Rightarrow> ('p \<Rightarrow> 'ev \<Rightarrow> DeckConfigurationV1 \<Rightarrow> (DeckConfigurationV1 \<times> 'act list, string) result \<times> 'p)
    \<Rightarrow> PlayerId \<Rightarrow> PlayDrawChoiceV1
    \<Rightarrow> ('p, 'ev) LiveSideboardConsultationV1 option \<times> ('p, 'ev) LiveSideboardConsultationV1 option
    \<Rightarrow> BestOfThreeDeckMatchV1
    \<Rightarrow> ('act LiveGamePreparationV1, Bo3SessionErrorV1) result
       \<times> ('p, 'ev) LiveSideboardConsultationV1 option \<times> ('p, 'ev) LiveSideboardConsultationV1 option
       \<times> BestOfThreeDeckMatchV1" where
  "prepare_game_with_live_policies_v1 sha select ch c live s =
     (let no_live = (\<lambda>(r, s'). (and_then r (\<lambda>g. Inr \<lparr>prepared = g, live_selections = (None, None)\<rparr>),
                                fst live, snd live, s'))
      in
      if fst live = None \<and> snd live = None \<and> sideboard_policy s \<noteq> None
      then no_live (prepare_game_v1 sha ch c s)
      else
        (case choose_play_draw_v1 ch c (match_state s) of
           (Inl e, _) \<Rightarrow> (Inl (MatchError e), fst live, snd live, s)
         | (Inr st, _) \<Rightarrow>
             if game_index st = 1
             then no_live (prepare_game_with_configurations_v1 ch c
                    (configuration (fst (registered_decks s)), configuration (snd (registered_decks s))) s)
             else
               (case live_seat sha select (sideboard_policy s) (game_index st)
                       (fst (registered_decks s)) (snd (registered_decks s)) (fst live) of
                  (Inl e, l0) \<Rightarrow> (Inl e, l0, snd live, s)
                | (Inr (c0, a0), l0) \<Rightarrow>
                    (case live_seat sha select (sideboard_policy s) (game_index st)
                            (snd (registered_decks s)) (fst (registered_decks s)) (snd live) of
                       (Inl e, l1) \<Rightarrow> (Inl e, l0, l1, s)
                     | (Inr (c1, a1), l1) \<Rightarrow>
                         (case prepare_game_with_configurations_v1 ch c (c0, c1) s of
                            (r, s') \<Rightarrow>
                              (and_then r (\<lambda>g. Inr \<lparr>prepared = g, live_selections = (a0, a1)\<rparr>),
                               l0, l1, s'))))))"

section \<open>The session as a machine\<close>

datatype session_op =
    PrepareOp PlayerId PlayDrawChoiceV1
  | PrepareWithOp PlayerId PlayDrawChoiceV1 "DeckConfigurationV1 \<times> DeckConfigurationV1"
  | ResultOp GameOutcomeV1

datatype session_out = GamePrepared PreparedMatchGameV1 | ResultRecorded MatchTransitionV1

fun session_step ::
  "(u8 list \<Rightarrow> u8 list) \<Rightarrow> session_op \<Rightarrow> BestOfThreeDeckMatchV1
    \<Rightarrow> (session_out, Bo3SessionErrorV1) result \<times> BestOfThreeDeckMatchV1" where
  "session_step sha (PrepareOp p c) s =
     (case prepare_game_v1 sha p c s of (r, t) \<Rightarrow> (and_then r (\<lambda>x. Inr (GamePrepared x)), t))"
| "session_step sha (PrepareWithOp p c cfgs) s =
     (case prepare_game_with_configurations_v1 p c cfgs s of
        (r, t) \<Rightarrow> (and_then r (\<lambda>x. Inr (GamePrepared x)), t))"
| "session_step sha (ResultOp out) s =
     (case session_record_game_result_v1 out s of (r, t) \<Rightarrow> (and_then r (\<lambda>x. Inr (ResultRecorded x)), t))"

definition session_inv ::
  "PlayerId \<Rightarrow> RegisteredDeckV1 \<times> RegisteredDeckV1 \<Rightarrow> DeterministicSideboardPolicyV1 option
    \<Rightarrow> BestOfThreeDeckMatchV1 \<Rightarrow> bool" where
  "session_inv first ds pol s \<longleftrightarrow>
     match_inv first (match_state s) \<and> registered_decks s = ds \<and> sideboard_policy s = pol"

text \<open>A seat's configuration for a game: 60/15, the registered 75, and untouched in game one.\<close>

definition seat_ok :: "u8 \<Rightarrow> RegisteredDeckV1 \<Rightarrow> DeckConfigurationV1 \<Rightarrow> bool" where
  "seat_ok gi deck cfg \<longleftrightarrow> config_ok cfg \<and>
     mset (mainboard cfg) + mset (sideboard cfg)
       = mset (mainboard (configuration deck)) + mset (sideboard (configuration deck)) \<and>
     (gi = 1 \<longrightarrow> cfg = configuration deck)"

fun op_ok :: "session_op \<Rightarrow> bool" where
  "op_ok (PrepareWithOp p c (c0, c1)) = (config_ok c0 \<and> config_ok c1)"
| "op_ok _ = True"

section \<open>Lemmas\<close>

lemma choose_match_inv: "match_inv first s \<Longrightarrow> match_inv first (snd (choose_play_draw_v1 p c s))"
  using bo3.step_inv[of first s "ChooseOp p c"] by simp

lemma record_match_inv: "match_inv first s \<Longrightarrow> match_inv first (snd (record_game_result_v1 out s))"
  using bo3.step_inv[of first s "RecordOp out"] by simp

lemma prepare_game_frame:
  "prepare_game_v1 sha p c s = (r, t) \<Longrightarrow>
     (\<exists>e. r = Inl e) \<and> t = s \<or>
     (\<exists>g. r = Inr g) \<and> t = s\<lparr>match_state := snd (choose_play_draw_v1 p c (match_state s))\<rparr>"
  by (auto simp: prepare_game_v1_def split: option.splits prod.splits sum.splits)

lemma prepare_with_frame:
  "prepare_game_with_configurations_v1 p c cfgs s = (r, t) \<Longrightarrow>
     (\<exists>e. r = Inl e) \<and> t = s \<or>
     (\<exists>g. r = Inr g) \<and> t = s\<lparr>match_state := snd (choose_play_draw_v1 p c (match_state s))\<rparr>"
  by (auto simp: prepare_game_with_configurations_v1_def split: prod.splits sum.splits)

lemma record_frame:
  "session_record_game_result_v1 out s = (r, t) \<Longrightarrow>
     (\<exists>e. r = Inl e) \<and> t = s \<or>
     (\<exists>g. r = Inr g) \<and> t = s\<lparr>match_state := snd (record_game_result_v1 out (match_state s))\<rparr>"
  by (cases "fst (record_game_result_v1 out (match_state s))")
    (auto simp: session_record_game_result_v1_def split: prod.splits dest!: record_game_result_Inl)

interpretation session: atomic_machine "session_step sha" "session_inv first ds pol"
proof
  show "session_inv first ds pol s \<Longrightarrow> session_inv first ds pol (snd (session_step sha op s))" for s op
  proof (cases op)
    case (PrepareOp p c)
    assume "session_inv first ds pol s"
    with PrepareOp prepare_game_frame[of sha p c s] show ?thesis
      by (cases "prepare_game_v1 sha p c s") (auto simp: session_inv_def choose_match_inv)
  next
    case (PrepareWithOp p c cfgs)
    assume "session_inv first ds pol s"
    with PrepareWithOp prepare_with_frame[of p c cfgs s] show ?thesis
      by (cases "prepare_game_with_configurations_v1 p c cfgs s")
        (auto simp: session_inv_def choose_match_inv)
  next
    case (ResultOp out)
    assume "session_inv first ds pol s"
    with ResultOp record_frame[of out s] show ?thesis
      by (cases "session_record_game_result_v1 out s") (auto simp: session_inv_def record_match_inv)
  qed
  show "session_step sha op s = (Inl e, t) \<Longrightarrow> t = s" for op s e t
    by (cases op)
      (auto split: prod.splits simp: and_then_eq_Inl
        dest!: prepare_game_frame prepare_with_frame record_frame)
qed

lemma apply_plan_Inr:
  assumes "config_ok (configuration deck)" "plan_ok p" "apply_plan_v1 sha deck p pid psha = Inr (cfg, r)"
  shows "config_ok cfg \<and> mset (mainboard cfg) + mset (sideboard cfg)
    = mset (mainboard (configuration deck)) + mset (sideboard (configuration deck))"
proof -
  have self: "plan_self_deck_id p = deck_id deck" and pid: "validate_identifier_v1 ''policy_id'' pid = Inr ()"
    using assms(3) by (auto simp: apply_plan_v1_def and_then_eq_Inr split: if_splits)
  show ?thesis
    using apply_plan_char[OF assms(1,2) self pid refl refl refl refl, of sha psha] assms(3)
      exchange_sum[of "rows_mset (cards_out p)" "mset (mainboard (configuration deck))"
        "rows_mset (cards_in p)" "mset (sideboard (configuration deck))"]
    by simp
qed

lemma plan_for_plan_ok:
  assumes "\<forall>p \<in> set (plans pol). plan_ok p" "plan_for_v1 pol a b gi = Inr p"
  shows "plan_ok p"
  using assms
  by (auto simp: plan_for_v1_def and_then_eq_Inr keep_registered_v1_def find_Some_iff
      split: option.splits SideboardDefaultPlanV1.splits intro: plan_new_Inr(1))

lemma policy_apply_seat_ok:
  assumes "\<forall>p \<in> set (plans pol). plan_ok p" "config_ok (configuration deck)"
    and "policy_apply_v1 sha pol deck opp_id gi = Inr (cfg, r)" "gi \<noteq> 1"
  shows "seat_ok gi deck cfg"
proof -
  obtain p where p: "plan_for_v1 pol (deck_id deck) opp_id gi = Inr p"
    "apply_plan_v1 sha deck p (policy_id pol) (policy_sha256_v1 sha pol) = Inr (cfg, r)"
    using assms(3) by (auto simp: policy_apply_v1_def and_then_eq_Inr)
  show ?thesis
    using apply_plan_Inr[OF assms(2) plan_for_plan_ok[OF assms(1) p(1)] p(2)] assms(4)
    by (simp add: seat_ok_def)
qed

lemma static_configurations_ok:
  assumes "\<forall>p \<in> set (plans pol). plan_ok p" "config_ok (configuration (fst ds))" "config_ok (configuration (snd ds))"
    and "static_configurations sha pol ds gi = Inr (cfgs, receipts)"
  shows "seat_ok gi (fst ds) (fst cfgs) \<and> seat_ok gi (snd ds) (snd cfgs)"
proof (cases "gi = 1")
  case True
  with assms(2-4) show ?thesis by (auto simp: static_configurations_def seat_ok_def)
next
  case False
  with assms show ?thesis
    by (auto simp: static_configurations_def and_then_eq_Inr intro: policy_apply_seat_ok)
qed

lemma check_seat_Inr:
  assumes "config_ok cfg" "config_ok (configuration deck)" "check_seat gi (seat, cfg, deck) = Inr u"
  shows "seat_ok gi deck cfg"
proof -
  have "combined_card_counts_v1 cfg = combined_card_counts_v1 (configuration deck)"
    "gi = 1 \<longrightarrow> cfg = configuration deck"
    using assms(3) by (auto simp: check_seat_def split: if_splits)
  with assms(1,2) combined_counts_eq_iff[of cfg "configuration deck"] show ?thesis
    by (simp add: seat_ok_def config_ok_def)
qed

lemma prepared_ok:
  assumes "config_ok (configuration (fst ds))" "config_ok (configuration (snd ds))"
    and "\<forall>p. pol = Some p \<longrightarrow> (\<forall>q \<in> set (plans p). plan_ok q)"
    and "session_inv first ds pol s" "op_ok op" "session_step sha op s = (Inr (GamePrepared g), t)"
  shows "seat_ok (game_index (prepared_start g)) (fst ds) (fst (configurations g)) \<and>
    seat_ok (game_index (prepared_start g)) (snd ds) (snd (configurations g)) \<and>
    unat (game_index (prepared_start g)) = length (games (match_state s)) + 1"
proof -
  have ds: "registered_decks s = ds" "sideboard_policy s = pol" and mi: "match_inv first (match_state s)"
    using assms(4) by (simp_all add: session_inv_def)
  have gi: "unat (game_index st) = length (games (match_state s)) + 1"
    if "choose_play_draw_v1 p c (match_state s) = (Inr st, ms)" for p c st ms
    using that mi by (auto elim!: choose_play_draw_Inr simp: match_inv_def)
  show ?thesis
  proof (cases op)
    case (PrepareOp p c)
    then obtain pl st ms cfgs rs where
      "pol = Some pl" "choose_play_draw_v1 p c (match_state s) = (Inr st, ms)"
      "static_configurations sha pl ds (game_index st) = Inr (cfgs, rs)"
      "g = \<lparr>prepared_start = st, configurations = cfgs, sideboard_receipts = rs\<rparr>"
      using assms(6) ds
      by (auto simp: prepare_game_v1_def and_then_eq_Inr split: prod.splits option.splits sum.splits)
    then show ?thesis
      using static_configurations_ok[of pl ds sha "game_index st" cfgs rs] assms(1-3) gi by simp
  next
    case (PrepareWithOp p c cfgs)
    then obtain st ms u where w: "choose_play_draw_v1 p c (match_state s) = (Inr st, ms)"
      "check_each (check_seat (game_index st)) [(0, fst cfgs, fst ds), (1, snd cfgs, snd ds)] = Inr u"
      "g = \<lparr>prepared_start = st, configurations = cfgs, sideboard_receipts = (None, None)\<rparr>"
      using assms(6) ds
      by (auto simp: prepare_game_with_configurations_v1_def and_then_eq_Inr simp del: check_each.simps
          split: prod.splits sum.splits)
    have ok: "config_ok (fst cfgs)" "config_ok (snd cfgs)"
      using assms(5) PrepareWithOp by (cases cfgs; simp)+
    from w(2) have "check_seat (game_index st) (0, fst cfgs, fst ds) = Inr ()"
      "check_seat (game_index st) (1, snd cfgs, snd ds) = Inr ()"
      unfolding check_each_Inr' by auto
    then show ?thesis
      using check_seat_Inr[OF ok(1) assms(1)] check_seat_Inr[OF ok(2) assms(2)] w gi by auto
  next
    case (ResultOp out)
    with assms(6) show ?thesis by (auto simp: and_then_eq_Inr split: prod.splits)
  qed
qed

section \<open>Properties\<close>

text \<open>
  C16. Whatever sequence of calls a best-of-three session has seen since it was created (prepared
  games, supplied configurations, recorded results, rejected calls), each game it prepares gives
  both seats a 60/15 configuration of exactly their registered 75 cards, game one uses the
  registered configurations unchanged, and the game number is one more than the number of
  recorded games.
\<close>

theorem session_games_conserve_decks:
  assumes "session_new_v1 sha p0 p1 pol first = Inr s0"
    and "config_ok (configuration p0)" "config_ok (configuration p1)" "\<forall>p \<in> set (plans pol). plan_ok p"
    and "op_ok op" "session_step sha op (run_ops (session_step sha) ops s0) = (Inr (GamePrepared g), t)"
  shows "seat_ok (game_index (prepared_start g)) p0 (fst (configurations g)) \<and>
    seat_ok (game_index (prepared_start g)) p1 (snd (configurations g)) \<and>
    unat (game_index (prepared_start g))
      = length (games (match_state (run_ops (session_step sha) ops s0))) + 1"
proof -
  have "session_inv first (p0, p1) (Some pol) s0"
    using assms(1) by (auto simp: session_new_v1_def and_then_eq_Inr session_inv_def
        intro: match_inv_new split: if_splits)
  then have "session_inv first (p0, p1) (Some pol) (run_ops (session_step sha) ops s0)"
    by (rule session.run_inv)
  from prepared_ok[OF _ _ _ this assms(5,6)] assms(2-4) show ?thesis by simp
qed

text \<open>
  A session call that fails leaves the whole session (decks, policy and match state) as it
  was, so dropping the failed calls from any sequence leads to the same session.
\<close>

lemma session_calls_transactional:
  "run_ops (session_step sha) (accepted (session_step sha) ops s) s = run_ops (session_step sha) ops s"
  by (rule session.run_accepted)

definition demo_opponent :: RegisteredDeckV1 where
  "demo_opponent = \<lparr>deck_id = ''elves'', configuration =
     \<lparr>mainboard = replicate 60 4, sideboard = replicate 15 5\<rparr>\<rparr>"

definition demo_session :: BestOfThreeDeckMatchV1 where
  "demo_session = \<lparr>registered_decks = (demo_deck, demo_opponent), sideboard_policy = Some demo_policy,
     match_state = demo_start\<rparr>"

theorem session_games_conserve_decks_witness:
  "\<exists>g. fst (session_step (\<lambda>_. []) (PrepareOp P1 Draw)
       (run_ops (session_step (\<lambda>_. [])) [PrepareOp P0 Play, ResultOp (GameWin P0)] demo_session))
     = Inr (GamePrepared g) \<and> game_index (prepared_start g) = 2 \<and> seat_ok 2 demo_deck (fst (configurations g))"
proof -
  let ?s = "run_ops (session_step (\<lambda>_. [])) [PrepareOp P0 Play, ResultOp (GameWin P0)] demo_session"
  let ?r = "session_step (\<lambda>_. []) (PrepareOp P1 Draw) ?s"
  have new: "session_new_v1 (\<lambda>_. []) demo_deck demo_opponent demo_policy P0 = Inr demo_session"
    by code_simp
  have ok: "config_ok (configuration demo_deck)" "config_ok (configuration demo_opponent)"
    "\<forall>p \<in> set (plans demo_policy). plan_ok p"
    by (simp_all add: config_ok_def demo_deck_def demo_opponent_def sorted_append demo_policy_def
        plan_ok_def rows_ok_def demo_plan_def count_total_v1_def)
  have r: "case fst ?r of Inr (GamePrepared g) \<Rightarrow> game_index (prepared_start g) = 2 | _ \<Rightarrow> False"
    by code_simp
  then obtain g where g: "?r = (Inr (GamePrepared g), snd ?r)" "game_index (prepared_start g) = 2"
    by (cases ?r) (auto split: sum.splits session_out.splits)
  have "seat_ok (game_index (prepared_start g)) demo_deck (fst (configurations g))"
    using session_games_conserve_decks[OF new ok _ g(1)] by simp
  with g show ?thesis by (metis fst_conv)
qed

text \<open>How the live preparation ends: a failure changes nothing, a success is one of the two preparations.\<close>

lemma live_frame:
  assumes "prepare_game_with_live_policies_v1 sha select ch c live s = (Inl e, l0, l1, t)"
  shows "t = s"
proof -
  have frames: "prepare_game_v1 sha ch c s = (Inl d, t) \<Longrightarrow> t = s"
    "prepare_game_with_configurations_v1 ch c cfgs s = (Inl d, t) \<Longrightarrow> t = s" for d t cfgs
    by (auto dest: prepare_game_frame prepare_with_frame)
  show ?thesis
    using assms frames
    by (auto simp: prepare_game_with_live_policies_v1_def Let_def and_then_eq_Inl split: if_splits prod.splits sum.splits)
qed

lemma live_success:
  assumes "prepare_game_with_live_policies_v1 sha select ch c live s = (Inr lp, l0, l1, t)"
  shows "if fst live = None \<and> snd live = None \<and> sideboard_policy s \<noteq> None
    then prepare_game_v1 sha ch c s = (Inr (prepared lp), t)
    else \<exists>st c0 c1. prepare_game_with_configurations_v1 ch c (c0, c1) s = (Inr (prepared lp), t) \<and>
      (c0 = configuration (fst (registered_decks s)) \<and> c1 = configuration (snd (registered_decks s)) \<or>
       st \<noteq> 1 \<and>
       (\<exists>a0 a1 l. live_seat sha select (sideboard_policy s) st (fst (registered_decks s)) (snd (registered_decks s)) (fst live) = (Inr (c0, a0), l) \<and>
         (\<exists>l. live_seat sha select (sideboard_policy s) st (snd (registered_decks s)) (fst (registered_decks s)) (snd live) = (Inr (c1, a1), l))))"
proof (cases "fst live = None \<and> snd live = None \<and> sideboard_policy s \<noteq> None")
  case True
  then show ?thesis
    using assms by (auto simp: prepare_game_with_live_policies_v1_def and_then_eq_Inr split: prod.splits)
next
  case False
  then show ?thesis
    using assms unfolding prepare_game_with_live_policies_v1_def Let_def if_not_P[OF False]
    by (auto simp: and_then_eq_Inr split: if_splits prod.splits sum.splits) blast+
qed

lemma live_seat_ok:
  assumes "live_seat sha select pol gi deck opp l = (Inr (cfg, acts), l')" "gi \<noteq> 1" "config_ok (configuration deck)"
    and "\<forall>p. pol = Some p \<longrightarrow> (\<forall>q \<in> set (plans p). plan_ok q)"
    and "\<And>p ev cur cfg acts p'. select p ev cur = (Inr (cfg, acts), p') \<Longrightarrow> config_ok cfg"
  shows "config_ok cfg"
  using assms policy_apply_seat_ok[of "the pol" deck sha "deck_id opp" gi cfg]
  by (auto simp: live_seat_def and_then_eq_Inr seat_ok_def split: option.splits prod.splits)

text \<open>
  C19. Preparing a game with live sideboard policies is transactional and conserves the decks:
  on any failure, of a live policy too, the session is unchanged; on success both seats get
  60/15 configurations of their registered 75, the registered ones in game one; and when no
  seat is live and a policy is installed, the call is \<^verbatim>\<open>prepare_game_v1\<close>. The live
  policies are assumed to return well-formed configurations, which is all their type allows.
\<close>

theorem live_preparation_correct:
  assumes "config_ok (configuration (fst ds))" "config_ok (configuration (snd ds))"
    and "\<forall>p. pol = Some p \<longrightarrow> (\<forall>q \<in> set (plans p). plan_ok q)"
    and "session_inv first ds pol s"
    and "\<And>p ev cur cfg acts p'. select p ev cur = (Inr (cfg, acts), p') \<Longrightarrow> config_ok cfg"
  shows "case prepare_game_with_live_policies_v1 sha select ch c live s of
      (Inl e, _, _, t) \<Rightarrow> t = s
    | (Inr lp, _, _, t) \<Rightarrow>
        (let g = prepared lp in
         seat_ok (game_index (prepared_start g)) (fst ds) (fst (configurations g)) \<and>
         seat_ok (game_index (prepared_start g)) (snd ds) (snd (configurations g)) \<and>
         (live = (None, None) \<and> pol \<noteq> None \<longrightarrow> prepare_game_v1 sha ch c s = (Inr g, t)))"
proof -
  have ds: "registered_decks s = ds" "sideboard_policy s = pol"
    using assms(4) by (simp_all add: session_inv_def)
  note prep = prepared_ok[OF assms(1-4)]
  obtain r l0 l1 t where out: "prepare_game_with_live_policies_v1 sha select ch c live s = (r, l0, l1, t)"
    by (cases "prepare_game_with_live_policies_v1 sha select ch c live s")
  show ?thesis
  proof (cases r)
    case (Inl e)
    then show ?thesis using out live_frame[of sha select ch c live s e l0 l1 t] by simp
  next
    case (Inr lp)
    note ok = live_success[OF out[unfolded Inr]]
    show ?thesis
    proof (cases "fst live = None \<and> snd live = None \<and> pol \<noteq> None")
      case True
      then have "prepare_game_v1 sha ch c s = (Inr (prepared lp), t)" using ok ds by simp
      then show ?thesis using prep[of "PrepareOp ch c" sha "prepared lp" t] out Inr by (simp add: Let_def)
    next
      case False
      then have no: "\<not> (fst live = None \<and> snd live = None \<and> sideboard_policy s \<noteq> None)" using ds by simp
      obtain st c0 c1 where w: "prepare_game_with_configurations_v1 ch c (c0, c1) s = (Inr (prepared lp), t)"
        and from_seats: "c0 = configuration (fst ds) \<and> c1 = configuration (snd ds) \<or>
          st \<noteq> 1 \<and> (\<exists>a0 a1 l. live_seat sha select pol st (fst ds) (snd ds) (fst live) = (Inr (c0, a0), l) \<and>
            (\<exists>l. live_seat sha select pol st (snd ds) (fst ds) (snd live) = (Inr (c1, a1), l)))"
        using ok unfolding if_not_P[OF no] unfolding ds by blast
      have "config_ok c0 \<and> config_ok c1"
        using from_seats
      proof
        assume "st \<noteq> 1 \<and> (\<exists>a0 a1 l. live_seat sha select pol st (fst ds) (snd ds) (fst live) = (Inr (c0, a0), l) \<and>
            (\<exists>l. live_seat sha select pol st (snd ds) (fst ds) (snd live) = (Inr (c1, a1), l)))"
        then obtain a0 a1 k0 k1 where seats: "st \<noteq> 1"
          "live_seat sha select pol st (fst ds) (snd ds) (fst live) = (Inr (c0, a0), k0)"
          "live_seat sha select pol st (snd ds) (fst ds) (snd live) = (Inr (c1, a1), k1)" by blast
        have "config_ok c0" by (rule live_seat_ok[OF seats(2,1) assms(1,3)]) (rule assms(5))
        moreover have "config_ok c1" by (rule live_seat_ok[OF seats(3,1) assms(2,3)]) (rule assms(5))
        ultimately show ?thesis ..
      qed (use assms(1,2) in simp)
      then show ?thesis
        using w prep[of "PrepareWithOp ch c (c0, c1)" sha "prepared lp" t] out Inr False by (auto simp: Let_def)
    qed
  qed
qed

definition keep_select :: "unit \<Rightarrow> nat \<Rightarrow> DeckConfigurationV1 \<Rightarrow> (DeckConfigurationV1 \<times> nat list, string) result \<times> unit" where
  "keep_select p ev cur = (Inr (configuration demo_deck, [ev]), p)"

definition demo_live :: "(unit, nat) LiveSideboardConsultationV1" where
  "demo_live = \<lparr>live_policy = (), evidence = 7, current = configuration demo_deck\<rparr>"

lemma demo_session_inv: "session_inv P0 (demo_deck, demo_opponent) (Some demo_policy) demo_session"
  using match_inv_new[OF match_new_demo] by (simp add: session_inv_def demo_session_def)

theorem live_preparation_correct_witness:
  "\<exists>lp. fst (prepare_game_with_live_policies_v1 (\<lambda>_. []) keep_select P1 Draw (Some demo_live, None)
       (run_ops (session_step (\<lambda>_. [])) [PrepareOp P0 Play, ResultOp (GameWin P0)] demo_session)) = Inr lp \<and>
     seat_ok (game_index (prepared_start (prepared lp))) demo_opponent (snd (configurations (prepared lp)))"
proof -
  let ?s = "run_ops (session_step (\<lambda>_. [])) [PrepareOp P0 Play, ResultOp (GameWin P0)] demo_session"
  let ?r = "prepare_game_with_live_policies_v1 (\<lambda>_. []) keep_select P1 Draw (Some demo_live, None) ?s"
  have ok: "config_ok (configuration (fst (demo_deck, demo_opponent)))"
    "config_ok (configuration (snd (demo_deck, demo_opponent)))"
    "\<forall>p. Some demo_policy = Some p \<longrightarrow> (\<forall>q \<in> set (plans p). plan_ok q)"
    by (simp_all add: config_ok_def demo_deck_def demo_opponent_def sorted_append demo_policy_def
        plan_ok_def rows_ok_def demo_plan_def count_total_v1_def)
  have inv: "session_inv P0 (demo_deck, demo_opponent) (Some demo_policy) ?s"
    by (rule session.run_inv) (rule demo_session_inv)
  have sel: "config_ok cfg" if "keep_select p ev cur = (Inr (cfg, acts), p')" for p ev cur cfg acts p'
    using that ok(1) by (simp add: keep_select_def)
  have "case fst ?r of Inr lp \<Rightarrow> True | Inl _ \<Rightarrow> False" by code_simp
  then obtain lp rest where r: "?r = (Inr lp, rest)" by (cases ?r) (auto split: sum.splits)
  note lc = live_preparation_correct[OF ok inv, of keep_select, where sha = "\<lambda>_. []" and ch = P1
      and c = Draw and live = "(Some demo_live, None)", OF sel]
  show ?thesis
    using lc[unfolded r] unfolding r
    by (cases rest) (simp add: Let_def)
qed

end
