(* ===== verification/Randomization.thy ===== *)
theory Randomization
  imports Ids
begin

text \<open>
  \<^verbatim>\<open>mtg-kernel/src/environment_randomization_v2.rs\<close> and the generator and token types of
  \<^verbatim>\<open>mtg-kernel/src/state.rs\<close>: the SplitMix64 stream, the Fisher-Yates shuffle, and the
  derivation of one seed per owner, purpose and ordinal from length-framed atoms.

  SHA-256 is an argument \<open>sha\<close>. The tags and names are the constants of the source; the
  length conversions that the code guards with \<^verbatim>\<open>expect\<close> cannot fail for them.
\<close>

unbundle bit_operations_syntax

section \<open>SplitMix64\<close>

datatype SplitMix64 = SplitMix64 (rng_state: u64)

definition rng_seed :: "u64 \<Rightarrow> SplitMix64" where
  "rng_seed s = SplitMix64 s"

definition next_u64 :: "SplitMix64 \<Rightarrow> u64 \<times> SplitMix64" where
  "next_u64 rng =
     (let s = rng_state rng + 0x9E3779B97F4A7C15;
          z1 = (s XOR drop_bit 30 s) * 0xBF58476D1CE4E5B9;
          z2 = (z1 XOR drop_bit 27 z1) * 0x94D049BB133111EB
      in (z2 XOR drop_bit 31 z2, SplitMix64 s))"

section \<open>The descending Fisher-Yates shuffle\<close>

definition swap :: "nat \<Rightarrow> nat \<Rightarrow> 'a list \<Rightarrow> 'a list" where
  "swap i j xs = xs[i := xs ! j, j := xs ! i]"

text \<open>The loop \<^verbatim>\<open>for i in (1..=n).rev()\<close>; the generator it leaves behind is returned too.\<close>

primrec shuffle_down :: "nat \<Rightarrow> SplitMix64 \<Rightarrow> 'a list \<Rightarrow> 'a list \<times> SplitMix64" where
  "shuffle_down 0 rng xs = (xs, rng)"
| "shuffle_down (Suc n) rng xs =
     (case next_u64 rng of
        (r, rng') \<Rightarrow>
          shuffle_down n rng' (swap (Suc n) (nat (uint r mod (int (Suc n) + 1))) xs))"

definition shuffle_with :: "SplitMix64 \<Rightarrow> 'a list \<Rightarrow> 'a list \<times> SplitMix64" where
  "shuffle_with rng xs = shuffle_down (length xs - 1) rng xs"

definition shuffle_slice_in_place_v2 :: "u64 \<Rightarrow> 'a list \<Rightarrow> 'a list" where
  "shuffle_slice_in_place_v2 derived_seed xs = fst (shuffle_with (rng_seed derived_seed) xs)"

definition permutation_v2 :: "u64 \<Rightarrow> u16 list \<Rightarrow> u16 list" where
  "permutation_v2 derived_seed ids = shuffle_slice_in_place_v2 derived_seed ids"

section \<open>Seed derivation\<close>

datatype PhysicalOwnerV2 = OwnerP0 | OwnerP1

datatype ShufflePurposeV2 = InitialLibraryShuffle | InGameLibraryShuffle

datatype EnvironmentRandomizationErrorV2 =
    InvalidOwner
  | InvalidPurpose
  | NonZeroInitialOrdinal
  | OrdinalOverflow

fun owner_as_str :: "PhysicalOwnerV2 \<Rightarrow> string" where
  "owner_as_str OwnerP0 = ''p0''"
| "owner_as_str OwnerP1 = ''p1''"

definition owner_parse :: "string \<Rightarrow> (PhysicalOwnerV2, EnvironmentRandomizationErrorV2) result" where
  "owner_parse v = (if v = ''p0'' then Inr OwnerP0 else if v = ''p1'' then Inr OwnerP1 else Inl InvalidOwner)"

fun purpose_as_str :: "ShufflePurposeV2 \<Rightarrow> string" where
  "purpose_as_str InitialLibraryShuffle = ''initial-library-shuffle''"
| "purpose_as_str InGameLibraryShuffle = ''in-game-library-shuffle''"

definition purpose_parse :: "string \<Rightarrow> (ShufflePurposeV2, EnvironmentRandomizationErrorV2) result" where
  "purpose_parse v =
     (if v = ''initial-library-shuffle'' then Inr InitialLibraryShuffle
      else if v = ''in-game-library-shuffle'' then Inr InGameLibraryShuffle
      else Inl InvalidPurpose)"

definition append_atom :: "string \<Rightarrow> u8 list \<Rightarrow> u8 list" where
  "append_atom tag payload =
     be_bytes 4 (length tag) @ as_bytes tag @ be_bytes 8 (length payload) @ payload"

definition to_be_bytes_u64 :: "u64 \<Rightarrow> u8 list" where
  "to_be_bytes_u64 v = be_bytes 8 (unat v)"

definition from_be_bytes_u64 :: "u8 list \<Rightarrow> u64" where
  "from_be_bytes_u64 bs = word_of_nat (from_be_bytes bs)"

definition ENVIRONMENT_RANDOMIZATION_IDENTITY_V2 :: string where
  "ENVIRONMENT_RANDOMIZATION_IDENTITY_V2 = ''mtg-kernel-environment-randomization-sha256-v2''"

definition ENVIRONMENT_RANDOMIZATION_NAMESPACE_V2 :: string where
  "ENVIRONMENT_RANDOMIZATION_NAMESPACE_V2 = ''environment-randomization-substream''"

text \<open>The bytes that are hashed.\<close>

definition derivation_preimage :: "u64 \<Rightarrow> PhysicalOwnerV2 \<Rightarrow> ShufflePurposeV2 \<Rightarrow> u64 \<Rightarrow> u8 list" where
  "derivation_preimage pair_seed owner purpose ordinal =
     append_atom ''version'' (as_bytes ENVIRONMENT_RANDOMIZATION_IDENTITY_V2) @
     append_atom ''namespace'' (as_bytes ENVIRONMENT_RANDOMIZATION_NAMESPACE_V2) @
     append_atom ''field-name'' (as_bytes ''pair_environment_seed'') @
     append_atom ''u64'' (to_be_bytes_u64 pair_seed) @
     append_atom ''field-name'' (as_bytes ''physical_owner'') @
     append_atom ''str'' (as_bytes (owner_as_str owner)) @
     append_atom ''field-name'' (as_bytes ''purpose'') @
     append_atom ''str'' (as_bytes (purpose_as_str purpose)) @
     append_atom ''field-name'' (as_bytes ''ordinal'') @
     append_atom ''u64'' (to_be_bytes_u64 ordinal)"

definition derive_environment_randomization_seed_v2 ::
  "(u8 list \<Rightarrow> u8 list) \<Rightarrow> u64 \<Rightarrow> PhysicalOwnerV2 \<Rightarrow> ShufflePurposeV2 \<Rightarrow> u64
    \<Rightarrow> (u64, EnvironmentRandomizationErrorV2) result" where
  "derive_environment_randomization_seed_v2 sha pair_seed owner purpose ordinal =
     (if ordinal = - 1 then Inl OrdinalOverflow
      else if purpose = InitialLibraryShuffle \<and> ordinal \<noteq> 0 then Inl NonZeroInitialOrdinal
      else Inr (from_be_bytes_u64 (take 8 (sha (derivation_preimage pair_seed owner purpose ordinal)))))"

section \<open>Ordinals per owner\<close>

record GameEnvironmentRandomizationV2 =
  pair_environment_seed :: u64
  ordinal_p0 :: u64
  ordinal_p1 :: u64

definition environment_new :: "u64 \<Rightarrow> GameEnvironmentRandomizationV2" where
  "environment_new s = \<lparr>pair_environment_seed = s, ordinal_p0 = 0, ordinal_p1 = 0\<rparr>"

fun next_live_shuffle_ordinal :: "GameEnvironmentRandomizationV2 \<Rightarrow> PhysicalOwnerV2 \<Rightarrow> u64" where
  "next_live_shuffle_ordinal v OwnerP0 = ordinal_p0 v"
| "next_live_shuffle_ordinal v OwnerP1 = ordinal_p1 v"

fun set_live_shuffle_ordinal ::
  "PhysicalOwnerV2 \<Rightarrow> u64 \<Rightarrow> GameEnvironmentRandomizationV2 \<Rightarrow> GameEnvironmentRandomizationV2" where
  "set_live_shuffle_ordinal OwnerP0 n v = v\<lparr>ordinal_p0 := n\<rparr>"
| "set_live_shuffle_ordinal OwnerP1 n v = v\<lparr>ordinal_p1 := n\<rparr>"

section \<open>Lemmas\<close>

lemma set_live_shuffle_ordinal_fields [simp]:
  "pair_environment_seed (set_live_shuffle_ordinal o1 n v) = pair_environment_seed v"
  "next_live_shuffle_ordinal (set_live_shuffle_ordinal o1 n v) o2 =
     (if o1 = o2 then n else next_live_shuffle_ordinal v o2)"
  by (cases o1; cases o2; simp)+

lemma set_live_shuffle_ordinal_commute:
  "o1 \<noteq> o2 \<Longrightarrow> set_live_shuffle_ordinal o1 m (set_live_shuffle_ordinal o2 n v) =
     set_live_shuffle_ordinal o2 n (set_live_shuffle_ordinal o1 m v)"
  by (cases o1; cases o2; simp)

lemma owner_parse_as_str: "owner_parse (owner_as_str p) = Inr p"
  by (cases p) (simp_all add: owner_parse_def)

lemma purpose_parse_as_str: "purpose_parse (purpose_as_str p) = Inr p"
  by (cases p) (simp_all add: purpose_parse_def)

lemma mset_swap: "i < length xs \<Longrightarrow> j < length xs \<Longrightarrow> mset (swap i j xs) = mset xs"
  by (simp add: swap_def mset_swap)

lemma length_swap [simp]: "length (swap i j xs) = length xs"
  by (simp add: swap_def)

lemma shuffle_index_bound: "nat (uint (r::u64) mod (int (Suc n) + 1)) \<le> Suc n"
proof -
  have "uint r mod (int (Suc n) + 1) < int (Suc n) + 1" by (rule pos_mod_bound) simp
  then show ?thesis by linarith
qed

lemma mset_shuffle_down: "n < length xs \<Longrightarrow> mset (fst (shuffle_down n rng xs)) = mset xs"
proof (induction n arbitrary: rng xs)
  case 0
  then show ?case by simp
next
  case (Suc n)
  obtain r rng' where r: "next_u64 rng = (r, rng')" by fastforce
  let ?j = "nat (uint r mod (int (Suc n) + 1))"
  have "?j < length xs" using shuffle_index_bound[of r n] Suc.prems by linarith
  with r Suc show ?case by (simp add: mset_swap del: of_nat_Suc)
qed

lemma mset_shuffle_with [simp]: "mset (fst (shuffle_with rng xs)) = mset xs"
  by (cases xs) (simp_all add: shuffle_with_def mset_shuffle_down)

lemma mset_shuffle_slice [simp]: "mset (shuffle_slice_in_place_v2 s xs) = mset xs"
  by (simp add: shuffle_slice_in_place_v2_def)

lemma length_shuffle [simp]:
  "length (fst (shuffle_with rng xs)) = length xs"
  "length (shuffle_slice_in_place_v2 s xs) = length xs"
  by (metis mset_shuffle_with size_mset, metis mset_shuffle_slice size_mset)

section \<open>Atoms\<close>

interpretation atom_code: prefix_code "\<lambda>(tag, payload). append_atom tag payload"
  "\<lambda>(tag, payload). length tag < 2 ^ 32 \<and> length payload < 2 ^ 64"
proof
  fix a b :: "string \<times> u8 list" and r s
  assume da: "case a of (tag, payload) \<Rightarrow> length tag < 2 ^ 32 \<and> length payload < 2 ^ 64"
    and db: "case b of (tag, payload) \<Rightarrow> length tag < 2 ^ 32 \<and> length payload < 2 ^ 64"
    and eq: "(case a of (tag, payload) \<Rightarrow> append_atom tag payload) @ r =
      (case b of (tag, payload) \<Rightarrow> append_atom tag payload) @ s"
  obtain t p u q where ab: "a = (t, p)" "b = (u, q)" by fastforce
  have "length t = length u \<and> as_bytes t @ be_bytes 8 (length p) @ p @ r
      = as_bytes u @ be_bytes 8 (length q) @ q @ s"
    using da db eq ab by (intro be_bytes_cut[of _ 4]) (auto simp: append_atom_def)
  then have "as_bytes t = as_bytes u" "be_bytes 8 (length p) @ p @ r = be_bytes 8 (length q) @ q @ s"
    using append_eq_append_conv[of "as_bytes t" "as_bytes u"] by auto
  moreover from this(2) have "length p = length q \<and> p @ r = q @ s"
    using da db ab by (intro be_bytes_cut[of _ 8]) auto
  ultimately have "t = u" "p = q" "r = s"
    using append_eq_append_conv[of p q r s] by (auto simp: as_bytes_inj)
  then show "a = b \<and> r = s" using ab by simp
qed

lemma to_be_bytes_u64_inj: "to_be_bytes_u64 a = to_be_bytes_u64 b \<longleftrightarrow> a = b"
  using be_bytes_inj[of 8 "unat a" "unat b"] unat_bound_u64[of a] unat_bound_u64[of b]
  by (auto simp: to_be_bytes_u64_def word_unat_eq_iff)

lemma length_to_be_bytes_u64 [simp]: "length (to_be_bytes_u64 v) = 8"
  by (simp add: to_be_bytes_u64_def)

definition derivation_atoms ::
  "u64 \<Rightarrow> PhysicalOwnerV2 \<Rightarrow> ShufflePurposeV2 \<Rightarrow> u64 \<Rightarrow> (string \<times> u8 list) list" where
  "derivation_atoms pair_seed owner purpose ordinal =
     [(''version'', as_bytes ENVIRONMENT_RANDOMIZATION_IDENTITY_V2),
      (''namespace'', as_bytes ENVIRONMENT_RANDOMIZATION_NAMESPACE_V2),
      (''field-name'', as_bytes ''pair_environment_seed''), (''u64'', to_be_bytes_u64 pair_seed),
      (''field-name'', as_bytes ''physical_owner''), (''str'', as_bytes (owner_as_str owner)),
      (''field-name'', as_bytes ''purpose''), (''str'', as_bytes (purpose_as_str purpose)),
      (''field-name'', as_bytes ''ordinal''), (''u64'', to_be_bytes_u64 ordinal)]"

lemma derivation_atoms_ok:
  "derivation_preimage s p q n = concat (map (\<lambda>(tag, payload). append_atom tag payload) (derivation_atoms s p q n))"
  "list_all (\<lambda>(tag, payload). length tag < 2 ^ 32 \<and> length payload < 2 ^ 64) (derivation_atoms s p q n)"
  "length (derivation_atoms s p q n) = 10"
  by (cases p; cases q; simp add: derivation_preimage_def derivation_atoms_def
      ENVIRONMENT_RANDOMIZATION_IDENTITY_V2_def ENVIRONMENT_RANDOMIZATION_NAMESPACE_V2_def)+

text \<open>
  C27. Domain separation of the environment randomness: different roots, owners, purposes or
  ordinals are never hashed from the same bytes.
\<close>

theorem derivation_preimage_injective:
  assumes "derivation_preimage s p q n = derivation_preimage s' p' q' n'"
  shows "s = s' \<and> p = p' \<and> q = q' \<and> n = n'"
proof -
  have "derivation_atoms s p q n = derivation_atoms s' p' q' n' \<and> ([]::u8 list) = []"
    using assms derivation_atoms_ok(2)
    by (intro atom_code.concat_cut) (simp_all only: derivation_atoms_ok(1,3) append_Nil2)
  then have "s = s'" "n = n'" "owner_as_str p = owner_as_str p'" "purpose_as_str q = purpose_as_str q'"
    by (simp_all add: derivation_atoms_def to_be_bytes_u64_inj as_bytes_inj)
  then show ?thesis
    by (metis owner_parse_as_str purpose_parse_as_str sum.inject(2))
qed

theorem derivation_preimage_injective_witness:
  "derivation_preimage 7 OwnerP0 InGameLibraryShuffle 0 \<noteq> derivation_preimage 7 OwnerP1 InGameLibraryShuffle 0"
  using derivation_preimage_injective[of 7 OwnerP0 InGameLibraryShuffle 0 7 OwnerP1 InGameLibraryShuffle 0]
  by auto

definition rng_after :: "nat \<Rightarrow> SplitMix64 \<Rightarrow> SplitMix64" where
  "rng_after k rng = ((\<lambda>g. snd (next_u64 g)) ^^ k) rng"

lemma rng_state_after: "rng_state (rng_after k rng) = rng_state rng + word_of_nat k * 0x9E3779B97F4A7C15"
  by (induction k) (simp_all add: rng_after_def next_u64_def Let_def algebra_simps)

text \<open>
  C28. The generator does not cycle: its state after \<open>k\<close> draws is the seed plus \<open>k\<close> times an odd
  constant, so the states after fewer than \<open>2 ^ 64\<close> draws are all different.
\<close>

theorem splitmix_full_period:
  assumes "j < 2 ^ 64" "k < 2 ^ 64" "rng_after j rng = rng_after k rng"
  shows "j = k"
proof -
  have "word_of_nat j * (0x9E3779B97F4A7C15::u64) = word_of_nat k * 0x9E3779B97F4A7C15"
    using rng_state_after[of j rng] rng_state_after[of k rng] assms(3) by simp
  then have "word_of_nat j * (0x9E3779B97F4A7C15 * 0xF1DE83E19937733D :: u64) =
      word_of_nat k * (0x9E3779B97F4A7C15 * 0xF1DE83E19937733D)"
    by (simp only: mult.assoc[symmetric])
  moreover have "0x9E3779B97F4A7C15 * 0xF1DE83E19937733D = (1 :: u64)" by code_simp
  ultimately have "(word_of_nat j :: u64) = word_of_nat k" by (simp only: mult_1_right)
  with assms(1,2) show ?thesis by (intro word_of_nat_inj_bound[where 'l = 64]) simp_all
qed

theorem splitmix_full_period_witness:
  "rng_after 5 (SplitMix64 9) \<noteq> rng_after 6 (SplitMix64 9)"
  using splitmix_full_period[of 5 6 "SplitMix64 9"] by auto

end
