(* ===== verification/Library.thy ===== *)
theory Library
  imports Randomization
begin

text \<open>
  \<^verbatim>\<open>mtg-kernel/src/state.rs\<close>: libraries, hands, and what each player is entitled to know about
  them, with the operations that look at, reorder, draw from and randomize a library.

  The record holds the fields of \<^verbatim>\<open>GameState\<close> that these operations read or write; \<open>rest\<close>
  stands for everything else. Arrays indexed by a player are functions; an operation on a player
  other than P0 and P1 is an index panic in the code, which is a branch of \<open>library_step\<close> below.
  Positions are \<open>nat\<close> (a library has at most as many cards as there are \<^verbatim>\<open>u32\<close> ids);
  \<^verbatim>\<open>zone_change_count\<close> keeps its 32 bits. Error strings are constructors with the values that
  are formatted into them. \<^verbatim>\<open>objects.get\<close> of an id that is not in the arena is a panic in the
  code and unspecified here; the invariant of \<open>Library_Knowledge\<close> excludes it.
\<close>

section \<open>Data\<close>

datatype Zone = Library | Hand | Battlefield | Graveyard | Stack | Exile | Command

datatype Step =
    Untap | Upkeep | Draw | Main1 | BeginCombat | DeclareAttackers | DeclareBlockers
  | CombatDamage | EndCombat | Main2 | End | Cleanup

record ObjectLinkV4 =
  link_object :: ObjectId
  link_generation :: u32

record CardObject =
  owner :: PlayerId
  zone :: Zone
  zone_change_count :: u32
  object_is_token :: bool
  definition_is_token :: bool
  is_spell_copy :: bool

record LibraryKnowledgeEntry =
  position :: nat
  known_object :: ObjectId
  known_generation :: u32

record HandKnowledgeEntry =
  hand_object :: ObjectId
  hand_generation :: u32

datatype ObservationNoteKindV1 =
    LibraryRandomized PlayerId
  | LibraryLooked PlayerId PlayerId "(nat \<times> ObjectId) list"
  | LibraryReordered PlayerId "ObjectId list" "PlayerId list"
  | LibraryScried PlayerId "ObjectId list" "ObjectId list"
  | HandCardRevealed PlayerId PlayerId ObjectId
  | LibraryRemoval PlayerId nat
  | LibraryInsertion PlayerId nat

datatype GameRandomnessState =
    Legacy SplitMix64
  | EnvironmentV2 GameEnvironmentRandomizationV2

record 'r GameState =
  library :: "PlayerId \<Rightarrow> ObjectId list"
  hand :: "PlayerId \<Rightarrow> ObjectId list"
  graveyard_cards :: "PlayerId \<Rightarrow> ObjectId list"
  objects :: "CardObject Arena"
  library_knowledge :: "PlayerId \<Rightarrow> PlayerId \<Rightarrow> LibraryKnowledgeEntry list"
  hand_knowledge :: "PlayerId \<Rightarrow> PlayerId \<Rightarrow> HandKnowledgeEntry list"
  randomness :: GameRandomnessState
  observation_journal :: "(nat \<times> ObservationNoteKindV1) list"
  event_history_len :: nat
  neutral_choices :: bool
  rest :: 'r

datatype LibraryError =
    RevealMissingObject ObjectId
  | RevealNotInHand ObjectId PlayerId
  | ReorderTooLong nat nat
  | ReorderNotPermutation
  | ScryPrefixTooLong nat nat
  | ScryPrefixChanged
  | ScryObjectMissing ObjectId
  | ScryObjectChanged ObjectId
  | ScryNotPartition

section \<open>Reading and noting\<close>

definition object_get :: "'r GameState \<Rightarrow> ObjectId \<Rightarrow> CardObject" where
  "object_get s i = items (objects s) ! unat (object_raw i)"

definition generation :: "'r GameState \<Rightarrow> ObjectId \<Rightarrow> u32" where
  "generation s i = zone_change_count (object_get s i)"

definition note_observation :: "ObservationNoteKindV1 \<Rightarrow> 'r GameState \<Rightarrow> 'r GameState" where
  "note_observation k s =
     s\<lparr>observation_journal := observation_journal s @ [(event_history_len s, k)]\<rparr>"

definition set_library :: "PlayerId \<Rightarrow> ObjectId list \<Rightarrow> 'r GameState \<Rightarrow> 'r GameState" where
  "set_library p xs s = s\<lparr>library := (library s)(p := xs)\<rparr>"

definition set_known :: "PlayerId \<Rightarrow> PlayerId \<Rightarrow> LibraryKnowledgeEntry list \<Rightarrow> 'r GameState \<Rightarrow> 'r GameState" where
  "set_known obs own es s =
     s\<lparr>library_knowledge := (library_knowledge s)(obs := (library_knowledge s obs)(own := es))\<rparr>"

definition set_hand_known :: "PlayerId \<Rightarrow> PlayerId \<Rightarrow> HandKnowledgeEntry list \<Rightarrow> 'r GameState \<Rightarrow> 'r GameState" where
  "set_hand_known obs own es s =
     s\<lparr>hand_knowledge := (hand_knowledge s)(obs := (hand_knowledge s obs)(own := es))\<rparr>"

text \<open>\<^verbatim>\<open>for observer in [PlayerId::P0, PlayerId::P1]\<close>\<close>

definition each_observer :: "(PlayerId \<Rightarrow> 'r GameState \<Rightarrow> 'r GameState) \<Rightarrow> 'r GameState \<Rightarrow> 'r GameState" where
  "each_observer f s = f P1 (f P0 s)"

definition update_known ::
  "PlayerId \<Rightarrow> (PlayerId \<Rightarrow> LibraryKnowledgeEntry list \<Rightarrow> LibraryKnowledgeEntry list) \<Rightarrow> 'r GameState \<Rightarrow> 'r GameState" where
  "update_known own f s = each_observer (\<lambda>obs t. set_known obs own (f obs (library_knowledge t obs own)) t) s"

definition known_library_cards :: "'r GameState \<Rightarrow> PlayerId \<Rightarrow> PlayerId \<Rightarrow> LibraryKnowledgeEntry list" where
  "known_library_cards s obs own = library_knowledge s obs own"

definition known_hand_cards :: "'r GameState \<Rightarrow> PlayerId \<Rightarrow> PlayerId \<Rightarrow> HandKnowledgeEntry list" where
  "known_hand_cards s obs own = hand_knowledge s obs own"

section \<open>Position facts\<close>

definition removal_shift :: "nat \<Rightarrow> LibraryKnowledgeEntry list \<Rightarrow> LibraryKnowledgeEntry list" where
  "removal_shift pos es =
     map (\<lambda>e. if position e > pos then e\<lparr>position := position e - 1\<rparr> else e)
       (filter (\<lambda>e. position e \<noteq> pos) es)"

definition note_library_removal :: "PlayerId \<Rightarrow> nat \<Rightarrow> 'r GameState \<Rightarrow> 'r GameState" where
  "note_library_removal own pos s =
     update_known own (\<lambda>_. removal_shift pos) (note_observation (LibraryRemoval own pos) s)"

definition insertion_shift :: "nat \<Rightarrow> LibraryKnowledgeEntry list \<Rightarrow> LibraryKnowledgeEntry list" where
  "insertion_shift pos es =
     map (\<lambda>e. if position e \<ge> pos then e\<lparr>position := position e + 1\<rparr> else e) es"

definition note_library_insertion :: "PlayerId \<Rightarrow> nat \<Rightarrow> 'r GameState \<Rightarrow> 'r GameState" where
  "note_library_insertion own pos s =
     update_known own (\<lambda>_. insertion_shift pos) (note_observation (LibraryInsertion own pos) s)"

definition clear_library_knowledge :: "PlayerId \<Rightarrow> 'r GameState \<Rightarrow> 'r GameState" where
  "clear_library_knowledge own s =
     note_observation (LibraryRandomized own) (update_known own (\<lambda>_ _. []) s)"

text \<open>Facts about the cards \<open>xs\<close> at positions from \<open>start\<close> on.\<close>

definition facts_from :: "'r GameState \<Rightarrow> nat \<Rightarrow> ObjectId list \<Rightarrow> LibraryKnowledgeEntry list" where
  "facts_from s start xs =
     map (\<lambda>(i, x). \<lparr>position = i, known_object = x, known_generation = generation s x\<rparr>) (enumerate start xs)"

definition reveal_library_top :: "PlayerId \<Rightarrow> PlayerId \<Rightarrow> nat \<Rightarrow> 'r GameState \<Rightarrow> 'r GameState" where
  "reveal_library_top obs own n s =
     (let n' = min n (length (library s own));
          es = filter (\<lambda>e. position e \<ge> n') (library_knowledge s obs own)
               @ facts_from s 0 (take n' (library s own))
      in note_observation (LibraryLooked obs own (enumerate 0 (take n' (library s own))))
           (set_known obs own (sort_key position es) s))"

text \<open>No value: the position does not exist (a panic).\<close>

definition reveal_library_position :: "PlayerId \<Rightarrow> PlayerId \<Rightarrow> nat \<Rightarrow> 'r GameState \<Rightarrow> 'r GameState option" where
  "reveal_library_position obs own pos s =
     (if pos < length (library s own)
      then
        (let x = library s own ! pos; g = generation s x;
             es = filter (\<lambda>e. position e \<noteq> pos \<and> \<not> (known_object e = x \<and> known_generation e = g))
                    (library_knowledge s obs own)
                  @ [\<lparr>position = pos, known_object = x, known_generation = g\<rparr>]
         in Some (note_observation (LibraryLooked obs own [(pos, x)])
                    (set_known obs own (sort_key position es) s)))
      else None)"

definition reorder_library_top ::
  "PlayerId \<Rightarrow> ObjectId list \<Rightarrow> PlayerId list \<Rightarrow> 'r GameState
    \<Rightarrow> (unit, LibraryError) result \<times> 'r GameState" where
  "reorder_library_top own ordered revealed_to s =
     (let n = length ordered; lib = library s own in
      if n > length lib then (Inl (ReorderTooLong n (length lib)), s)
      else if sort ordered \<noteq> sort (take n lib) then (Inl ReorderNotPermutation, s)
      else
        (let s1 = set_library own (ordered @ drop n lib) s;
             s2 = update_known own
                    (\<lambda>obs es. let kept = filter (\<lambda>e. position e \<ge> n) es in
                       if obs \<in> set revealed_to
                       then sort_key position (kept @ facts_from s1 0 ordered) else kept) s1
         in (Inr (), note_observation (LibraryReordered own ordered revealed_to) s2)))"

section \<open>Scry\<close>

text \<open>The validation loop over the bound prefix, from position \<open>pos\<close> on.\<close>

fun check_scry_prefix ::
  "'r GameState \<Rightarrow> PlayerId \<Rightarrow> nat \<Rightarrow> (ObjectId \<times> u32) list \<Rightarrow> (unit, LibraryError) result" where
  "check_scry_prefix s own pos [] = Inr ()"
| "check_scry_prefix s own pos ((x, g) # ps) =
     (if library s own ! pos \<noteq> x then Inl ScryPrefixChanged
      else
        (case arena_try_get (objects s) x of
           None \<Rightarrow> Inl (ScryObjectMissing x)
         | Some ob \<Rightarrow>
             if owner ob \<noteq> own \<or> zone ob \<noteq> Library \<or> zone_change_count ob \<noteq> g
             then Inl (ScryObjectChanged x)
             else check_scry_prefix s own (Suc pos) ps))"

definition scry_facts ::
  "'r GameState \<Rightarrow> PlayerId \<Rightarrow> (ObjectId \<times> u32) list \<Rightarrow> ObjectId list \<Rightarrow> ObjectId list
    \<Rightarrow> PlayerId \<Rightarrow> LibraryKnowledgeEntry list \<Rightarrow> LibraryKnowledgeEntry list" where
  "scry_facts s own prefix retained bottom obs old =
     (let k = length prefix; len = length (library s own); b = length bottom;
          tail = map (\<lambda>e. e\<lparr>position := position e - b\<rparr>) (filter (\<lambda>e. position e \<ge> k) old);
          extra =
            (if obs = own then facts_from s 0 retained @ facts_from s (len - b) bottom
             else if k = 1 then
               (case prefix ! 0 of (x, g) \<Rightarrow>
                  if list_ex (\<lambda>e. position e = 0 \<and> known_object e = x \<and> known_generation e = g) old
                  then [\<lparr>position = (if b = 1 then len - 1 else 0), known_object = x, known_generation = g\<rparr>]
                  else [])
             else [])
      in sort_key position (tail @ extra))"

definition apply_scry_result ::
  "PlayerId \<Rightarrow> (ObjectId \<times> u32) list \<Rightarrow> ObjectId list \<Rightarrow> ObjectId list \<Rightarrow> 'r GameState
    \<Rightarrow> (unit, LibraryError) result \<times> 'r GameState" where
  "apply_scry_result own prefix retained bottom s =
     (let lib = library s own; k = length prefix in
      if k > length lib then (Inl (ScryPrefixTooLong k (length lib)), s)
      else
        (case check_scry_prefix s own 0 prefix of
           Inl e \<Rightarrow> (Inl e, s)
         | Inr _ \<Rightarrow>
             if sort (retained @ bottom) \<noteq> sort (map fst prefix) then (Inl ScryNotPartition, s)
             else
               (Inr (),
                note_observation (LibraryScried own retained bottom)
                  (set_library own (retained @ drop k lib @ bottom)
                     (update_known own (scry_facts s own prefix retained bottom) s)))))"

section \<open>Drawing and hands\<close>

definition add_hand_fact :: "ObjectId \<Rightarrow> u32 \<Rightarrow> HandKnowledgeEntry list \<Rightarrow> HandKnowledgeEntry list" where
  "add_hand_fact x g es =
     (if list_ex (\<lambda>e. hand_object e = x) es then es
      else sort_key hand_object (es @ [\<lparr>hand_object = x, hand_generation = g\<rparr>]))"

definition transfer_library_knowledge_to_hand :: "PlayerId \<Rightarrow> nat \<Rightarrow> ObjectId \<Rightarrow> 'r GameState \<Rightarrow> 'r GameState" where
  "transfer_library_knowledge_to_hand own pos x s =
     (let g = generation s x in
      each_observer
        (\<lambda>obs t.
           if obs = own then t
           else if list_ex (\<lambda>e. position e = pos \<and> known_object e = x \<and> known_generation e = g)
                     (library_knowledge t obs own)
           then set_hand_known obs own (add_hand_fact x g (hand_knowledge t obs own)) t
           else t) s)"

text \<open>\<open>move\<close> is what a draw does to the rest of the state: the relations of the moved object
  (\<^verbatim>\<open>clear_object_relations\<close>) and its per-zone data (\<^verbatim>\<open>reset_for_zone_change\<close>).\<close>

definition draw_card ::
  "(ObjectId \<Rightarrow> 'r \<Rightarrow> 'r) \<Rightarrow> PlayerId \<Rightarrow> 'r GameState \<Rightarrow> ObjectId option \<times> 'r GameState" where
  "draw_card move p s =
     (case library s p of
        [] \<Rightarrow> (None, s)
      | x # lib \<Rightarrow>
          (let s1 = (set_library p lib s)\<lparr>hand := (hand s)(p := hand s p @ [x])\<rparr>;
               s2 = note_library_removal p 0 (transfer_library_knowledge_to_hand p 0 x s1);
               g = generation s2 x + 1;
               s3 = s2\<lparr>rest := move x (rest s2),
                       objects := (objects s2)\<lparr>items := (items (objects s2))[unat (object_raw x) :=
                         (object_get s2 x)\<lparr>zone := Hand, zone_change_count := g\<rparr>]\<rparr>\<rparr>
           in (Some x,
               each_observer
                 (\<lambda>obs t. set_hand_known obs p
                    (map (\<lambda>e. if hand_object e = x then e\<lparr>hand_generation := g\<rparr> else e)
                       (hand_knowledge t obs p)) t) s3)))"

definition reveal_hand_card ::
  "PlayerId \<Rightarrow> PlayerId \<Rightarrow> ObjectId \<Rightarrow> 'r GameState \<Rightarrow> (unit, LibraryError) result \<times> 'r GameState" where
  "reveal_hand_card obs own x s =
     (case arena_try_get (objects s) x of
        None \<Rightarrow> (Inl (RevealMissingObject x), s)
      | Some ob \<Rightarrow>
          if \<not> (valid_player own \<and> x \<in> set (hand s own)) \<or> owner ob \<noteq> own \<or> zone ob \<noteq> Hand
          then (Inl (RevealNotInHand x own), s)
          else if obs = own then (Inr (), s)
          else
            (let s1 = note_observation (HandCardRevealed obs own x) s in
             (Inr (), set_hand_known obs own
                        (add_hand_fact x (zone_change_count ob) (hand_knowledge s1 obs own)) s1)))"

definition forget_hand_object :: "ObjectId \<Rightarrow> 'r GameState \<Rightarrow> 'r GameState" where
  "forget_hand_object x s =
     each_observer (\<lambda>obs t.
       (\<lambda>u. set_hand_known obs P1 (filter (\<lambda>e. hand_object e \<noteq> x) (hand_knowledge u obs P1)) u)
         (set_hand_known obs P0 (filter (\<lambda>e. hand_object e \<noteq> x) (hand_knowledge t obs P0)) t)) s"

definition clear_nonowner_hand_knowledge :: "PlayerId \<Rightarrow> 'r GameState \<Rightarrow> 'r GameState" where
  "clear_nonowner_hand_knowledge own s =
     each_observer (\<lambda>obs t. if obs \<noteq> own then set_hand_known obs own [] t else t) s"

section \<open>The shuffle transaction\<close>

datatype LibraryShuffleError =
    ShuffleInvalidOwner
  | ExhaustedOwnerOrdinal
  | CallerOwnerMismatch
  | TokenStateMismatch
  | Derivation EnvironmentRandomizationErrorV2
  | SpellbenchNeutralPartialRandomization

datatype LibraryShuffleAuthorization =
    AuthLegacy SplitMix64
  | AuthEnvironmentV2 u64 u64 u64 u64

record LibraryShuffleToken =
  token_owner :: PlayerId
  authorization :: LibraryShuffleAuthorization

definition library_shuffle_owner :: "PlayerId \<Rightarrow> (PlayerId, LibraryShuffleError) result" where
  "library_shuffle_owner p = (if p = P0 \<or> p = P1 then Inr p else Inl ShuffleInvalidOwner)"

definition physical_owner_v2_exact :: "PlayerId \<Rightarrow> (PhysicalOwnerV2, LibraryShuffleError) result" where
  "physical_owner_v2_exact p =
     (if p = P0 then Inr OwnerP0 else if p = P1 then Inr OwnerP1 else Inl ShuffleInvalidOwner)"

definition preflight_library_shuffle ::
  "(u8 list \<Rightarrow> u8 list) \<Rightarrow> PlayerId \<Rightarrow> 'r GameState \<Rightarrow> (LibraryShuffleToken, LibraryShuffleError) result" where
  "preflight_library_shuffle sha p s =
     and_then (library_shuffle_owner p) (\<lambda>p.
       (case randomness s of
          Legacy rng \<Rightarrow> Inr \<lparr>token_owner = p, authorization = AuthLegacy rng\<rparr>
        | EnvironmentV2 v2 \<Rightarrow>
            and_then (physical_owner_v2_exact p) (\<lambda>po.
              (let n = next_live_shuffle_ordinal v2 po in
               and_then (ok_or (checked_add n 1) ExhaustedOwnerOrdinal) (\<lambda>succ.
               and_then (map_err Derivation
                           (derive_environment_randomization_seed_v2 sha (pair_environment_seed v2) po
                              InGameLibraryShuffle n)) (\<lambda>seed.
                 Inr \<lparr>token_owner = p,
                      authorization = AuthEnvironmentV2 (pair_environment_seed v2) n succ seed\<rparr>))))))"

definition commit_library_shuffle ::
  "(u8 list \<Rightarrow> u8 list) \<Rightarrow> PlayerId \<Rightarrow> LibraryShuffleToken \<Rightarrow> 'r GameState
    \<Rightarrow> (unit, LibraryShuffleError) result \<times> 'r GameState" where
  "commit_library_shuffle sha p token s =
     (case library_shuffle_owner p of
        Inl e \<Rightarrow> (Inl e, s)
      | Inr p \<Rightarrow>
          if token_owner token \<noteq> p then (Inl CallerOwnerMismatch, s)
          else
            (case (randomness s, authorization token) of
               (Legacy rng, AuthLegacy expected) \<Rightarrow>
                 if rng \<noteq> expected then (Inl TokenStateMismatch, s)
                 else
                   (case shuffle_with expected (library s p) of
                      (lib, next_rng) \<Rightarrow>
                        (Inr (), clear_library_knowledge p
                                   ((set_library p lib s)\<lparr>randomness := Legacy next_rng\<rparr>)))
             | (EnvironmentV2 v2, AuthEnvironmentV2 root n succ seed) \<Rightarrow>
                 (case physical_owner_v2_exact p of
                    Inl e \<Rightarrow> (Inl e, s)
                  | Inr po \<Rightarrow>
                      if pair_environment_seed v2 \<noteq> root then (Inl TokenStateMismatch, s)
                      else
                        (let current = next_live_shuffle_ordinal v2 po in
                         if current \<noteq> n then (Inl TokenStateMismatch, s)
                         else
                           (case checked_add current 1 of
                              None \<Rightarrow> (Inl ExhaustedOwnerOrdinal, s)
                            | Some expected_successor \<Rightarrow>
                                if expected_successor \<noteq> succ then (Inl TokenStateMismatch, s)
                                else
                                  (case derive_environment_randomization_seed_v2 sha root po
                                          InGameLibraryShuffle current of
                                     Inl e \<Rightarrow> (Inl (Derivation e), s)
                                   | Inr recomputed \<Rightarrow>
                                       if recomputed \<noteq> seed then (Inl TokenStateMismatch, s)
                                       else
                                         (Inr (), clear_library_knowledge p
                                            ((set_library p
                                                (shuffle_slice_in_place_v2 recomputed (library s p)) s)
                                             \<lparr>randomness := EnvironmentV2
                                                 (set_live_shuffle_ordinal po expected_successor v2)\<rparr>))))))
             | _ \<Rightarrow> (Inl TokenStateMismatch, s)))"

definition shuffle_library ::
  "(u8 list \<Rightarrow> u8 list) \<Rightarrow> PlayerId \<Rightarrow> 'r GameState \<Rightarrow> (unit, LibraryShuffleError) result \<times> 'r GameState" where
  "shuffle_library sha p s =
     (case preflight_library_shuffle sha p s of
        Inl e \<Rightarrow> (Inl e, s)
      | Inr token \<Rightarrow> commit_library_shuffle sha p token s)"

definition randomize_library_bottom_v1 ::
  "(u8 list \<Rightarrow> u8 list) \<Rightarrow> PlayerId \<Rightarrow> nat \<Rightarrow> 'r GameState \<Rightarrow> (unit, LibraryShuffleError) result \<times> 'r GameState" where
  "randomize_library_bottom_v1 sha p n s =
     (case library_shuffle_owner p of
        Inl e \<Rightarrow> (Inl e, s)
      | Inr p \<Rightarrow>
          (let lib = library s p; n' = min n (length lib) in
           if n' < 2 then (Inr (), s)
           else if neutral_choices s then (Inl SpellbenchNeutralPartialRandomization, s)
           else
             (let start = length lib - n' in
              case shuffle_library sha p (set_library p (drop start lib) s) of
                (Inl e, _) \<Rightarrow> (Inl e, s)
              | (Inr _, staged) \<Rightarrow>
                  (Inr (), update_known p (\<lambda>_ es. filter (\<lambda>e. position e < start) es)
                     ((set_library p (take start lib @ library staged p) s)
                        \<lparr>randomness := randomness staged\<rparr>)))))"

text \<open>Sampling through a private projection: only the randomness of the projection is kept.\<close>

definition sample_first ::
  "(u8 list \<Rightarrow> u8 list) \<Rightarrow> PlayerId \<Rightarrow> ObjectId list \<Rightarrow> 'r GameState
    \<Rightarrow> (ObjectId option, LibraryShuffleError) result \<times> 'r GameState" where
  "sample_first sha p cards s =
     (if length cards < 2 then (Inr (case cards of x # _ \<Rightarrow> Some x | [] \<Rightarrow> None), s)
      else
        (case shuffle_library sha p (set_library p cards s) of
           (Inl e, _) \<Rightarrow> (Inl e, s)
         | (Inr _, projected) \<Rightarrow>
             (Inr (case library projected p of x # _ \<Rightarrow> Some x | [] \<Rightarrow> None),
              s\<lparr>randomness := randomness projected\<rparr>)))"

definition random_hand_card_v1 ::
  "(u8 list \<Rightarrow> u8 list) \<Rightarrow> PlayerId \<Rightarrow> 'r GameState
    \<Rightarrow> (ObjectId option, LibraryShuffleError) result \<times> 'r GameState" where
  "random_hand_card_v1 sha p s =
     (case library_shuffle_owner p of
        Inl e \<Rightarrow> (Inl e, s)
      | Inr p \<Rightarrow>
          sample_first sha p
            (filter (\<lambda>x. zone (object_get s x) = Hand \<and> owner (object_get s x) = p) (hand s p)) s)"

definition random_graveyard_card_v1 ::
  "(u8 list \<Rightarrow> u8 list) \<Rightarrow> PlayerId \<Rightarrow> 'r GameState
    \<Rightarrow> (ObjectId option, LibraryShuffleError) result \<times> 'r GameState" where
  "random_graveyard_card_v1 sha p s =
     (case library_shuffle_owner p of
        Inl e \<Rightarrow> (Inl e, s)
      | Inr p \<Rightarrow>
          sample_first sha p
            (filter (\<lambda>x. let ob = object_get s x in
                       zone ob = Graveyard \<and> owner ob = p \<and> \<not> object_is_token ob \<and>
                       \<not> definition_is_token ob \<and> \<not> is_spell_copy ob) (graveyard_cards s p)) s)"

definition flip_coin_v1 ::
  "(u8 list \<Rightarrow> u8 list) \<Rightarrow> PlayerId \<Rightarrow> 'r GameState \<Rightarrow> (bool, LibraryShuffleError) result \<times> 'r GameState" where
  "flip_coin_v1 sha p s =
     (case library_shuffle_owner p of
        Inl e \<Rightarrow> (Inl e, s)
      | Inr p \<Rightarrow>
          (case shuffle_library sha p (set_library p [ObjectId 0, ObjectId 1] s) of
             (Inl e, _) \<Rightarrow> (Inl e, s)
           | (Inr _, projected) \<Rightarrow>
               (Inr (library projected p \<noteq> [] \<and> hd (library projected p) = ObjectId 0),
                s\<lparr>randomness := randomness projected\<rparr>)))"

end
