(* ===== verification/Library_Knowledge.thy ===== *)
theory Library_Knowledge
  imports Library
begin

text \<open>
  Hidden information is tracked truthfully: whatever sequence of looks, reorders, scries, draws
  and shuffles happens, every fact a player holds about a library position or a hand card is true
  of the current game and bound to the current incarnation of the card.
\<close>

section \<open>Facts about a list of cards\<close>

definition facts_true :: "ObjectId list \<Rightarrow> (ObjectId \<Rightarrow> u32) \<Rightarrow> LibraryKnowledgeEntry list \<Rightarrow> bool" where
  "facts_true lib gen es \<longleftrightarrow>
     sorted_wrt (<) (map position es) \<and>
     (\<forall>e \<in> set es. position e < length lib \<and> lib ! position e = known_object e \<and>
        gen (known_object e) = known_generation e)"

lemma facts_true_sort:
  "facts_true lib gen (sort_key position es) \<longleftrightarrow>
     distinct (map position es) \<and>
     (\<forall>e \<in> set es. position e < length lib \<and> lib ! position e = known_object e \<and>
        gen (known_object e) = known_generation e)"
proof -
  have "distinct (map position (sort_key position es)) \<longleftrightarrow> distinct (map position es)"
    by (intro mset_eq_imp_distinct_iff) simp
  then show ?thesis by (simp add: facts_true_def strict_sorted_iff)
qed

lemma facts_true_distinct: "facts_true lib gen es \<Longrightarrow> distinct (map position es)"
  by (auto simp: facts_true_def strict_sorted_iff)

lemma facts_true_Nil [simp]: "facts_true lib gen []"
  by (simp add: facts_true_def)

lemma facts_true_filter: "facts_true lib gen es \<Longrightarrow> facts_true lib gen (filter P es)"
  unfolding facts_true_def using sorted_wrt_filter[of "\<lambda>a b. position a < position b" es P]
  by (auto simp: sorted_wrt_map)

lemma facts_true_gen:
  "facts_true lib gen es \<Longrightarrow> (\<And>x. x \<in> set lib \<Longrightarrow> gen' x = gen x) \<Longrightarrow> facts_true lib gen' es"
  unfolding facts_true_def by (metis nth_mem)

lemma facts_true_map:
  assumes "sorted_wrt (\<lambda>a b. position (f a) < position (f b)) es"
    and "\<And>e. e \<in> set es \<Longrightarrow> position (f e) < length lib \<and> lib ! position (f e) = known_object e \<and>
      gen (known_object e) = known_generation e"
    and "\<And>e. known_object (f e) = known_object e" "\<And>e. known_generation (f e) = known_generation e"
  shows "facts_true lib gen (map f es)"
  using assms by (simp add: facts_true_def sorted_wrt_map)

lemma facts_removal:
  assumes "facts_true lib gen es" "pos < length lib"
  shows "facts_true (take pos lib @ drop (Suc pos) lib) gen (removal_shift pos es)"
proof -
  let ?f = "\<lambda>e. if position e > pos then e\<lparr>position := position e - 1\<rparr> else e"
  have "sorted_wrt (\<lambda>a b. position a < position b) (filter (\<lambda>e. position e \<noteq> pos) es)"
    using assms(1) by (intro sorted_wrt_filter) (simp add: facts_true_def sorted_wrt_map)
  then have "sorted_wrt (\<lambda>a b. position (?f a) < position (?f b)) (filter (\<lambda>e. position e \<noteq> pos) es)"
    by (rule sorted_wrt_mono_rel[rotated]) auto
  then show ?thesis
    unfolding removal_shift_def
  proof (rule facts_true_map)
    fix e assume "e \<in> set (filter (\<lambda>e. position e \<noteq> pos) es)"
    then have "position e \<noteq> pos" "position e < length lib" "lib ! position e = known_object e"
      "gen (known_object e) = known_generation e"
      using assms(1) by (auto simp: facts_true_def)
    with assms(2) show "position (?f e) < length (take pos lib @ drop (Suc pos) lib) \<and>
        (take pos lib @ drop (Suc pos) lib) ! position (?f e) = known_object e \<and>
        gen (known_object e) = known_generation e"
      by (cases "position e < pos") (auto simp: nth_append)
  qed auto
qed

lemma facts_insertion:
  assumes "facts_true lib gen es" "pos \<le> length lib"
  shows "facts_true (take pos lib @ x # drop pos lib) gen (insertion_shift pos es)"
proof -
  let ?f = "\<lambda>e. if position e \<ge> pos then e\<lparr>position := position e + 1\<rparr> else e"
  have "sorted_wrt (\<lambda>a b. position a < position b) es"
    using assms(1) by (simp add: facts_true_def sorted_wrt_map)
  then have "sorted_wrt (\<lambda>a b. position (?f a) < position (?f b)) es"
    by (rule sorted_wrt_mono_rel[rotated]) auto
  then show ?thesis
    unfolding insertion_shift_def
  proof (rule facts_true_map)
    fix e assume "e \<in> set es"
    then have "position e < length lib" "lib ! position e = known_object e"
      "gen (known_object e) = known_generation e"
      using assms(1) by (auto simp: facts_true_def)
    with assms(2) show "position (?f e) < length (take pos lib @ x # drop pos lib) \<and>
        (take pos lib @ x # drop pos lib) ! position (?f e) = known_object e \<and>
        gen (known_object e) = known_generation e"
      by (cases "position e < pos") (auto simp: nth_append Suc_diff_le)
  qed auto
qed

lemma facts_from_nth:
  "i < length xs \<Longrightarrow> facts_from s start xs ! i =
     \<lparr>position = start + i, known_object = xs ! i, known_generation = generation s (xs ! i)\<rparr>"
  by (simp add: facts_from_def nth_enumerate_eq)

lemma length_facts_from [simp]: "length (facts_from s start xs) = length xs"
  by (simp add: facts_from_def)

lemma facts_from_simps:
  "map position (facts_from s start xs) = [start..<start + length xs]"
  "e \<in> set (facts_from s start xs) \<longleftrightarrow>
     (\<exists>i < length xs. e = \<lparr>position = start + i, known_object = xs ! i, known_generation = generation s (xs ! i)\<rparr>)"
proof -
  show "map position (facts_from s start xs) = [start..<start + length xs]"
    by (rule nth_equalityI) (simp_all add: facts_from_nth)
  show "e \<in> set (facts_from s start xs) \<longleftrightarrow>
     (\<exists>i < length xs. e = \<lparr>position = start + i, known_object = xs ! i, known_generation = generation s (xs ! i)\<rparr>)"
    unfolding in_set_conv_nth by (auto simp: facts_from_nth)
qed

text \<open>Old facts below the first \<open>n\<close> cards, together with the facts about a new prefix.\<close>

lemma facts_new_prefix:
  assumes "facts_true lib (generation s) es" "n \<le> length lib" "length xs = n"
  shows "facts_true (xs @ drop n lib) (generation s)
    (sort_key position (filter (\<lambda>e. position e \<ge> n) es @ facts_from s 0 xs))"
  unfolding facts_true_sort
proof
  show "distinct (map position (filter (\<lambda>e. position e \<ge> n) es @ facts_from s 0 xs))"
    using facts_true_distinct[OF facts_true_filter[OF assms(1)]] assms(3)
    by (auto simp: facts_from_simps)
  have "position e < length (xs @ drop n lib) \<and> (xs @ drop n lib) ! position e = known_object e \<and>
      generation s (known_object e) = known_generation e" if "e \<in> set es" "position e \<ge> n" for e
    using that assms by (auto simp: facts_true_def nth_append)
  then show "\<forall>e \<in> set (filter (\<lambda>e. position e \<ge> n) es @ facts_from s 0 xs).
      position e < length (xs @ drop n lib) \<and> (xs @ drop n lib) ! position e = known_object e \<and>
      generation s (known_object e) = known_generation e"
    using assms(3) by (auto simp: facts_from_simps nth_append)
qed

lemma facts_kept_below:
  assumes "facts_true lib gen es" "n \<le> length lib" "length xs = n"
  shows "facts_true (xs @ drop n lib) gen (filter (\<lambda>e. position e \<ge> n) es)"
  using facts_true_filter[OF assms(1), of "\<lambda>e. position e \<ge> n"] assms
  by (auto simp: facts_true_def nth_append)

section \<open>The invariant\<close>

definition zones_ok :: "'r GameState \<Rightarrow> bool" where
  "zones_ok s \<longleftrightarrow>
     distinct (library s P0 @ library s P1 @ hand s P0 @ hand s P1) \<and>
     (\<forall>x \<in> set (library s P0 @ library s P1 @ hand s P0 @ hand s P1).
        unat (object_raw x) < length (items (objects s)))"

definition hand_facts_true :: "ObjectId list \<Rightarrow> (ObjectId \<Rightarrow> u32) \<Rightarrow> HandKnowledgeEntry list \<Rightarrow> bool" where
  "hand_facts_true cards gen es \<longleftrightarrow>
     (\<forall>e \<in> set es. hand_object e \<in> set cards \<and> gen (hand_object e) = hand_generation e)"

definition knowledge_inv :: "'r GameState \<Rightarrow> bool" where
  "knowledge_inv s \<longleftrightarrow> zones_ok s \<and>
     (\<forall>obs own. valid_player obs \<longrightarrow> valid_player own \<longrightarrow>
        facts_true (library s own) (generation s) (library_knowledge s obs own) \<and>
        hand_facts_true (hand s own) (generation s) (hand_knowledge s obs own))"

lemma knowledge_invI:
  assumes "zones_ok s"
    and "\<And>obs own. valid_player obs \<Longrightarrow> valid_player own \<Longrightarrow>
      facts_true (library s own) (generation s) (library_knowledge s obs own)"
    and "\<And>obs own. valid_player obs \<Longrightarrow> valid_player own \<Longrightarrow>
      hand_facts_true (hand s own) (generation s) (hand_knowledge s obs own)"
  shows "knowledge_inv s"
  using assms by (simp add: knowledge_inv_def)

lemma knowledge_invD:
  assumes "knowledge_inv s"
  shows "zones_ok s"
    and "valid_player obs \<Longrightarrow> valid_player own \<Longrightarrow>
      facts_true (library s own) (generation s) (library_knowledge s obs own)"
    and "valid_player obs \<Longrightarrow> valid_player own \<Longrightarrow>
      hand_facts_true (hand s own) (generation s) (hand_knowledge s obs own)"
  using assms by (simp_all add: knowledge_inv_def)

section \<open>Fields\<close>

lemma note_fields [simp]:
  "library (note_observation k s) = library s" "hand (note_observation k s) = hand s"
  "objects (note_observation k s) = objects s" "randomness (note_observation k s) = randomness s"
  "library_knowledge (note_observation k s) = library_knowledge s"
  "hand_knowledge (note_observation k s) = hand_knowledge s" "rest (note_observation k s) = rest s"
  by (simp_all add: note_observation_def)

lemma set_library_fields [simp]:
  "library (set_library p xs s) = (library s)(p := xs)" "hand (set_library p xs s) = hand s"
  "objects (set_library p xs s) = objects s" "randomness (set_library p xs s) = randomness s"
  "library_knowledge (set_library p xs s) = library_knowledge s"
  "hand_knowledge (set_library p xs s) = hand_knowledge s" "rest (set_library p xs s) = rest s"
  by (simp_all add: set_library_def)

lemma set_known_fields [simp]:
  "library (set_known obs own es s) = library s" "hand (set_known obs own es s) = hand s"
  "objects (set_known obs own es s) = objects s" "randomness (set_known obs own es s) = randomness s"
  "library_knowledge (set_known obs own es s) obs' own' =
     (if obs' = obs \<and> own' = own then es else library_knowledge s obs' own')"
  "hand_knowledge (set_known obs own es s) = hand_knowledge s" "rest (set_known obs own es s) = rest s"
  by (simp_all add: set_known_def)

lemma set_hand_known_fields [simp]:
  "library (set_hand_known obs own es s) = library s" "hand (set_hand_known obs own es s) = hand s"
  "objects (set_hand_known obs own es s) = objects s"
  "randomness (set_hand_known obs own es s) = randomness s"
  "library_knowledge (set_hand_known obs own es s) = library_knowledge s"
  "hand_knowledge (set_hand_known obs own es s) obs' own' =
     (if obs' = obs \<and> own' = own then es else hand_knowledge s obs' own')"
  "rest (set_hand_known obs own es s) = rest s"
  by (simp_all add: set_hand_known_def)

lemma update_known_fields [simp]:
  "library (update_known own f s) = library s" "hand (update_known own f s) = hand s"
  "objects (update_known own f s) = objects s" "randomness (update_known own f s) = randomness s"
  "library_knowledge (update_known own f s) obs own' =
     (if valid_player obs \<and> own' = own then f obs (library_knowledge s obs own)
      else library_knowledge s obs own')"
  "hand_knowledge (update_known own f s) = hand_knowledge s" "rest (update_known own f s) = rest s"
  by (auto simp: update_known_def each_observer_def valid_player_def)

lemma update_known_set_library:
  "update_known own f (set_library p xs s) = set_library p xs (update_known own f s)"
  by (simp add: update_known_def each_observer_def set_known_def set_library_def)

lemma generation_cong [simp]:
  "generation (note_observation k s) = generation s"
  "generation (set_library p xs s) = generation s"
  "generation (set_known obs own es s) = generation s"
  "generation (set_hand_known obs own hs s) = generation s"
  "generation (update_known own f s) = generation s"
  by (simp_all add: fun_eq_iff generation_def object_get_def)

lemma zones_ok_fields [simp]:
  "zones_ok (note_observation k s) = zones_ok s"
  "zones_ok (set_known obs own es s) = zones_ok s"
  "zones_ok (set_hand_known obs own hs s) = zones_ok s"
  "zones_ok (update_known own f s) = zones_ok s"
  by (simp_all add: zones_ok_def)

lemma knowledge_inv_note [simp]: "knowledge_inv (note_observation k s) = knowledge_inv s"
  by (simp add: knowledge_inv_def)

text \<open>Rearranging one library keeps the zones well formed.\<close>

lemma zones_ok_rearrange:
  assumes "zones_ok s" "mset xs = mset (library s p)"
  shows "zones_ok (set_library p xs s)"
proof -
  have set: "set xs = set (library s p)" using assms(2) by (metis set_mset_mset)
  have dist: "distinct xs = distinct (library s p)" using assms(2) by (rule mset_eq_imp_distinct_iff)
  show ?thesis
    using assms(1) set dist unfolding zones_ok_def by (cases "p = P0"; cases "p = P1") auto
qed

section \<open>Looking and rearranging\<close>

lemma known_update:
  assumes "knowledge_inv s" "valid_player p"
    and "zones_ok (set_library p lib s)"
    and "\<And>obs. valid_player obs \<Longrightarrow>
      facts_true lib (generation s) (f obs (library_knowledge s obs p))"
  shows "knowledge_inv (set_library p lib (update_known p f s))"
proof (rule knowledge_invI)
  show "zones_ok (set_library p lib (update_known p f s))"
    using assms(3) by (simp add: zones_ok_def)
next
  fix obs own assume v: "valid_player obs" "valid_player own"
  show "facts_true (library (set_library p lib (update_known p f s)) own)
      (generation (set_library p lib (update_known p f s)))
      (library_knowledge (set_library p lib (update_known p f s)) obs own)"
    using assms(4) knowledge_invD(2)[OF assms(1) v] v by simp
  show "hand_facts_true (hand (set_library p lib (update_known p f s)) own)
      (generation (set_library p lib (update_known p f s)))
      (hand_knowledge (set_library p lib (update_known p f s)) obs own)"
    using knowledge_invD(3)[OF assms(1) v] by simp
qed

lemma reveal_set_known:
  assumes "knowledge_inv s" "facts_true (library s own) (generation s) es"
  shows "knowledge_inv (set_known obs own es s)"
  using assms by (simp add: knowledge_inv_def)

lemma reveal_library_top_inv:
  assumes "knowledge_inv s" "valid_player obs" "valid_player own"
  shows "knowledge_inv (reveal_library_top obs own n s)"
proof -
  let ?n = "min n (length (library s own))"
  have "facts_true (take ?n (library s own) @ drop ?n (library s own)) (generation s)
      (sort_key position (filter (\<lambda>e. position e \<ge> ?n) (library_knowledge s obs own)
         @ facts_from s 0 (take ?n (library s own))))"
    using knowledge_invD(2)[OF assms] by (intro facts_new_prefix) auto
  then show ?thesis
    using assms(1) by (simp add: reveal_library_top_def Let_def reveal_set_known)
qed

lemma reveal_library_position_inv:
  assumes "knowledge_inv s" "valid_player obs" "valid_player own"
    and "reveal_library_position obs own pos s = Some t"
  shows "knowledge_inv t"
proof -
  let ?x = "library s own ! pos"
  let ?keep = "\<lambda>e. position e \<noteq> pos \<and> \<not> (known_object e = ?x \<and> known_generation e = generation s ?x)"
  let ?es = "filter ?keep (library_knowledge s obs own)
    @ [\<lparr>position = pos, known_object = ?x, known_generation = generation s ?x\<rparr>]"
  have pos: "pos < length (library s own)"
    and t: "t = note_observation (LibraryLooked obs own [(pos, ?x)]) (set_known obs own (sort_key position ?es) s)"
    using assms(4) by (auto simp: reveal_library_position_def Let_def split: if_splits)
  note f = facts_true_filter[OF knowledge_invD(2)[OF assms(1-3)], of ?keep]
  have "facts_true (library s own) (generation s) (sort_key position ?es)"
    using f pos facts_true_distinct[OF f] unfolding facts_true_sort by (auto simp: facts_true_def)
  then show ?thesis using assms(1) t by (simp add: reveal_set_known)
qed

lemma sort_eq_mset: "sort xs = sort ys \<longleftrightarrow> mset xs = mset (ys :: 'a::linorder list)"
  by (metis mset_sort properties_for_sort sorted_sort)

lemma reorder_library_top_inv:
  assumes "knowledge_inv s" "valid_player own" "reorder_library_top own ordered revealed s = (r, t)"
  shows "knowledge_inv t"
proof (cases "length ordered > length (library s own) \<or> sort ordered \<noteq> sort (take (length ordered) (library s own))")
  case True
  then have "t = s" using assms(3) by (auto simp: reorder_library_top_def Let_def split: if_splits)
  with assms(1) show ?thesis by simp
next
  case False
  let ?n = "length ordered" and ?lib = "library s own"
  let ?f = "\<lambda>obs es. if obs \<in> set revealed
    then sort_key position (filter (\<lambda>e. position e \<ge> ?n) es @ facts_from s 0 ordered)
    else filter (\<lambda>e. position e \<ge> ?n) es"
  have n: "?n \<le> length ?lib" and ms: "mset ordered = mset (take ?n ?lib)"
    using False by (auto simp: sort_eq_mset)
  have ff: "facts_from (set_library own lib s) st xs = facts_from s st xs" for lib st xs
    by (simp add: facts_from_def)
  have t: "t = note_observation (LibraryReordered own ordered revealed)
      (set_library own (ordered @ drop ?n ?lib) (update_known own ?f s))"
    using assms(3) False unfolding reorder_library_top_def Let_def ff update_known_set_library
    by (auto split: if_splits)
  have "mset (ordered @ drop ?n ?lib) = mset ?lib"
    using ms by (metis append_take_drop_id mset_append)
  then have z: "zones_ok (set_library own (ordered @ drop ?n ?lib) s)"
    using knowledge_invD(1)[OF assms(1)] by (rule zones_ok_rearrange[rotated])
  have "knowledge_inv (set_library own (ordered @ drop ?n ?lib) (update_known own ?f s))"
    using assms(1,2) z
  proof (rule known_update)
    fix obs assume "valid_player obs"
    then have f: "facts_true ?lib (generation s) (library_knowledge s obs own)"
      using knowledge_invD(2)[OF assms(1)] assms(2) by blast
    show "facts_true (ordered @ drop ?n ?lib) (generation s) (?f obs (library_knowledge s obs own))"
      using facts_new_prefix[OF f n refl] facts_kept_below[OF f n refl] by simp
  qed
  then show ?thesis unfolding t by simp
qed

section \<open>Scry\<close>

lemma check_scry_prefix_Inr:
  assumes "check_scry_prefix s own pos prefix = Inr u"
  shows "i < length prefix \<Longrightarrow> library s own ! (pos + i) = fst (prefix ! i) \<and>
    generation s (fst (prefix ! i)) = snd (prefix ! i)"
  using assms
proof (induction s own pos prefix arbitrary: i rule: check_scry_prefix.induct)
  case (1 s own pos)
  then show ?case by simp
next
  case (2 s own pos x g ps)
  obtain ob where ob: "arena_try_get (objects s) x = Some ob" "library s own ! pos = x"
    "zone_change_count ob = g" "check_scry_prefix s own (Suc pos) ps = Inr u"
    using "2.prems"(2) by (auto split: if_splits option.splits)
  have gx: "generation s x = g"
    using ob(1,3) by (auto simp: arena_try_get_def generation_def object_get_def split: if_splits)
  have nl: "\<not> library s own ! pos \<noteq> x" and nb: "\<not> (owner ob \<noteq> own \<or> zone ob \<noteq> Library \<or> zone_change_count ob \<noteq> g)"
    using "2.prems"(2) ob by (auto split: if_splits)
  show ?case
  proof (cases i)
    case 0
    then show ?thesis using ob(2) gx by simp
  next
    case (Suc j)
    then show ?thesis
      using "2.IH"[OF nl ob(1) nb, of j] "2.prems"(1) ob(4) by simp
  qed
qed

text \<open>After a scry the tail keeps its order, below the retained cards and above the bottom ones.\<close>

lemma scry_tail_fact:
  assumes "k \<le> length lib" "length retained + b = k" "length bottom = b"
    and "k \<le> q" "q < length lib"
  shows "q - b < length (retained @ drop k lib @ bottom) \<and>
    (retained @ drop k lib @ bottom) ! (q - b) = lib ! q"
proof -
  have q: "q - b = length retained + (q - k)" using assms by linarith
  have "(retained @ drop k lib @ bottom) ! (q - b) = (drop k lib @ bottom) ! (q - k)"
    unfolding q by (rule nth_append_length_plus)
  also have "\<dots> = lib ! q" using assms by (simp add: nth_append diff_less_mono)
  finally show ?thesis using assms by auto
qed

lemma scry_facts_true:
  assumes "facts_true lib (generation s) old" "lib = library s own"
    and "length prefix \<le> length lib" "length retained + length bottom = length prefix"
    and "\<And>i. i < length prefix \<Longrightarrow> lib ! i = fst (prefix ! i) \<and> generation s (fst (prefix ! i)) = snd (prefix ! i)"
    and "length prefix = 1 \<Longrightarrow> retained @ bottom = map fst prefix"
  shows "facts_true (retained @ drop (length prefix) lib @ bottom) (generation s)
    (scry_facts s own prefix retained bottom obs old)"
proof -
  let ?k = "length prefix" and ?b = "length bottom" and ?new = "retained @ drop (length prefix) lib @ bottom"
  let ?tail = "map (\<lambda>e. e\<lparr>position := position e - ?b\<rparr>) (filter (\<lambda>e. position e \<ge> ?k) old)"
  define extra where "extra =
    (if obs = own then facts_from s 0 retained @ facts_from s (length lib - ?b) bottom
     else if ?k = 1 then
       (case prefix ! 0 of (x, g) \<Rightarrow>
          if list_ex (\<lambda>e. position e = 0 \<and> known_object e = x \<and> known_generation e = g) old
          then [\<lparr>position = (if ?b = 1 then length lib - 1 else 0), known_object = x, known_generation = g\<rparr>]
          else [])
     else [])"
  have sf: "scry_facts s own prefix retained bottom obs old = sort_key position (?tail @ extra)"
    by (simp add: scry_facts_def extra_def Let_def assms(2)[symmetric])
  have len: "length ?new = length lib" using assms(3,4) by simp
  have old: "position e < length lib \<and> lib ! position e = known_object e \<and>
      generation s (known_object e) = known_generation e" if "e \<in> set old" for e
    using assms(1) that by (simp add: facts_true_def)
  have tail: "\<forall>e \<in> set ?tail. length retained \<le> position e \<and> position e < length lib - ?b \<and>
      position e < length ?new \<and> ?new ! position e = known_object e \<and>
      generation s (known_object e) = known_generation e"
  proof
    fix e assume "e \<in> set ?tail"
    then obtain e0 where e0: "e0 \<in> set old" "?k \<le> position e0" "e = e0\<lparr>position := position e0 - ?b\<rparr>" by auto
    have "length retained \<le> position e" "position e < length lib - ?b"
      using e0 old[OF e0(1)] assms(3,4) by auto
    then show "length retained \<le> position e \<and> position e < length lib - ?b \<and> position e < length ?new \<and>
        ?new ! position e = known_object e \<and> generation s (known_object e) = known_generation e"
      using e0 old[OF e0(1)] scry_tail_fact[OF assms(3,4) refl e0(2)] by simp
  qed
  have extra: "distinct (map position extra) \<and>
    (\<forall>e \<in> set extra. (position e < length retained \<or> length lib - ?b \<le> position e) \<and>
      position e < length ?new \<and> ?new ! position e = known_object e \<and>
      generation s (known_object e) = known_generation e)"
  proof (cases "obs = own")
    case True
    have d: "distinct ([0..<length retained] @ [length lib - ?b..<length lib - ?b + ?b])"
      using assms(3,4) by auto
    have "\<forall>e \<in> set (facts_from s 0 retained). position e < length retained \<and>
        ?new ! position e = known_object e \<and> generation s (known_object e) = known_generation e"
      by (auto simp: facts_from_simps nth_append)
    moreover have "?new ! (length lib - ?b + i) = bottom ! i" if "i < ?b" for i
    proof -
      have "length lib - ?b + i = length (retained @ drop ?k lib) + i" using assms(3,4) by simp
      then show ?thesis using nth_append_length_plus[of "retained @ drop ?k lib" bottom i] by simp
    qed
    moreover have "\<forall>e \<in> set (facts_from s (length lib - ?b) bottom). length lib - ?b \<le> position e \<and>
        position e < length lib \<and> ?new ! position e = known_object e \<and>
        generation s (known_object e) = known_generation e"
      using calculation(2) assms(3,4) by (auto simp: facts_from_simps)
    ultimately show ?thesis
      using True d len by (auto simp: extra_def facts_from_simps(1) simp del: upt_Suc)
  next
    case False
    show ?thesis
    proof (cases "?k = 1 \<and> extra \<noteq> []")
      case True
      obtain x g where xg: "prefix = [(x, g)]" using True by (cases prefix) auto
      have fx: "generation s x = g" using assms(5)[of 0] xg by simp
      have rb: "retained @ bottom = [x]" using assms(6) xg by simp
      have e: "extra = [\<lparr>position = (if ?b = 1 then length lib - 1 else 0), known_object = x, known_generation = g\<rparr>]"
        using True False xg by (auto simp: extra_def split: if_splits)
      show ?thesis
      proof (cases retained)
        case Nil
        then have "bottom = [x]" using rb by simp
        with Nil e fx xg assms(3) show ?thesis by (auto simp: nth_append)
      next
        case (Cons y ys)
        then have "retained = [x]" "bottom = []" using rb by auto
        with e fx xg assms(3) show ?thesis by auto
      qed
    next
      case k: False
      have "extra = []" using k False by (auto simp: extra_def)
      then show ?thesis by simp
    qed
  qed
  have dt: "distinct (map position ?tail)"
  proof -
    have "distinct (map position (filter (\<lambda>e. position e \<ge> ?k) old))"
      using facts_true_distinct[OF facts_true_filter[OF assms(1)]] .
    moreover have "inj_on (\<lambda>q. q - ?b) {q. ?k \<le> q}"
      using assms(4) by (intro inj_onI) auto
    ultimately show ?thesis by (auto simp: distinct_map inj_on_def comp_def)
  qed
  have dis: "set (map position ?tail) \<inter> set (map position extra) = {}"
    using tail extra by fastforce
  show ?thesis
    unfolding sf facts_true_sort using dt dis tail extra by (simp add: ball_Un)
qed

lemma apply_scry_result_inv:
  assumes "knowledge_inv s" "valid_player own" "apply_scry_result own prefix retained bottom s = (r, t)"
  shows "knowledge_inv t"
proof (cases r)
  case (Inl e)
  then have "t = s"
    using assms(3) by (auto simp: apply_scry_result_def Let_def split: if_splits sum.splits)
  with assms(1) show ?thesis by simp
next
  case (Inr u)
  let ?lib = "library s own" and ?k = "length prefix"
  let ?new = "retained @ drop ?k ?lib @ bottom"
  have k: "?k \<le> length ?lib" and chk: "check_scry_prefix s own 0 prefix = Inr ()"
    and ms: "mset (retained @ bottom) = mset (map fst prefix)"
    and t: "t = note_observation (LibraryScried own retained bottom)
      (set_library own ?new (update_known own (scry_facts s own prefix retained bottom) s))"
    using assms(3) Inr
    by (auto simp: apply_scry_result_def Let_def sort_eq_mset split: if_splits sum.splits)
  have pre: "?lib ! i = fst (prefix ! i) \<and> generation s (fst (prefix ! i)) = snd (prefix ! i)"
    if "i < ?k" for i
    using check_scry_prefix_Inr[OF chk that] by simp
  have len: "length retained + length bottom = ?k"
    using ms by (metis length_append length_map size_mset)
  have one: "retained @ bottom = map fst prefix" if "?k = 1"
  proof -
    obtain x where "map fst prefix = [x]" using \<open>?k = 1\<close> by (cases prefix) auto
    then have "mset (retained @ bottom) = {#x#}" using ms by simp
    then have "retained @ bottom = [x]" by (simp only: mset_single_iff)
    then show ?thesis using \<open>map fst prefix = [x]\<close> by simp
  qed
  have tk: "take ?k ?lib = map fst prefix"
    using k pre by (intro nth_equalityI) auto
  have "mset ?new = mset (take ?k ?lib @ drop ?k ?lib)"
    unfolding mset_append tk ms[symmetric] by (simp add: ac_simps)
  then have z: "zones_ok (set_library own ?new s)"
    using knowledge_invD(1)[OF assms(1)] by (intro zones_ok_rearrange) simp_all
  have "knowledge_inv (set_library own ?new (update_known own (scry_facts s own prefix retained bottom) s))"
    using assms(1,2) z
  proof (rule known_update)
    fix obs assume "valid_player obs"
    then show "facts_true ?new (generation s) (scry_facts s own prefix retained bottom obs (library_knowledge s obs own))"
      using knowledge_invD(2)[OF assms(1) _ assms(2)] k len pre one
      by (intro scry_facts_true) auto
  qed
  then show ?thesis unfolding t by simp
qed

section \<open>Hands and draws\<close>

lemma hand_facts_add:
  "hand_facts_true cards gen es \<Longrightarrow> x \<in> set cards \<Longrightarrow> hand_facts_true cards gen (add_hand_fact x (gen x) es)"
  by (auto simp: hand_facts_true_def add_hand_fact_def)

lemma knowledge_inv_hand_known:
  assumes "knowledge_inv s" "hand_facts_true (hand s own) (generation s) es"
  shows "knowledge_inv (set_hand_known obs own es s)"
  using assms by (simp add: knowledge_inv_def)

lemma reveal_hand_card_inv:
  assumes "knowledge_inv s" "valid_player obs" "valid_player own" "reveal_hand_card obs own x s = (r, t)"
  shows "knowledge_inv t"
proof (cases "t = s")
  case True
  with assms(1) show ?thesis by simp
next
  case False
  then obtain ob where ob: "arena_try_get (objects s) x = Some ob" "x \<in> set (hand s own)"
    "t = set_hand_known obs own (add_hand_fact x (zone_change_count ob) (hand_knowledge s obs own))
       (note_observation (HandCardRevealed obs own x) s)"
    using assms(4) by (auto simp: reveal_hand_card_def Let_def split: option.splits if_splits)
  have "zone_change_count ob = generation s x"
    using ob(1) by (auto simp: arena_try_get_def generation_def object_get_def split: if_splits)
  then have "hand_facts_true (hand s own) (generation s)
      (add_hand_fact x (zone_change_count ob) (hand_knowledge s obs own))"
    using hand_facts_add[OF knowledge_invD(3)[OF assms(1-3)] ob(2)] by simp
  then show ?thesis
    unfolding ob(3) using assms(1) by (intro knowledge_inv_hand_known) simp_all
qed

lemma hand_facts_filter: "hand_facts_true cards gen es \<Longrightarrow> hand_facts_true cards gen (filter P es)"
  by (simp add: hand_facts_true_def)

lemma hand_facts_Nil [simp]: "hand_facts_true cards gen []"
  by (simp add: hand_facts_true_def)

lemma forget_hand_object_inv: "knowledge_inv s \<Longrightarrow> knowledge_inv (forget_hand_object x s)"
  unfolding forget_hand_object_def each_observer_def
  by (intro knowledge_inv_hand_known hand_facts_filter) (auto dest: knowledge_invD(3) intro: hand_facts_filter)

lemma clear_nonowner_inv: "knowledge_inv s \<Longrightarrow> knowledge_inv (clear_nonowner_hand_knowledge own s)"
  by (auto simp: clear_nonowner_hand_knowledge_def each_observer_def intro!: knowledge_inv_hand_known)

lemma transfer_fields [simp]:
  "library (transfer_library_knowledge_to_hand own pos x s) = library s"
  "hand (transfer_library_knowledge_to_hand own pos x s) = hand s"
  "objects (transfer_library_knowledge_to_hand own pos x s) = objects s"
  "library_knowledge (transfer_library_knowledge_to_hand own pos x s) = library_knowledge s"
  "generation (transfer_library_knowledge_to_hand own pos x s) = generation s"
  by (simp_all add: transfer_library_knowledge_to_hand_def each_observer_def Let_def
      fun_eq_iff generation_def object_get_def)

lemma transfer_hand_facts:
  assumes "hand_facts_true cards (generation s) (hand_knowledge s obs own)"
    and "x \<in> set cards \<or> own \<noteq> p"
  shows "hand_facts_true cards (generation s)
    (hand_knowledge (transfer_library_knowledge_to_hand p pos x s) obs own)"
proof (cases "own = p")
  case True
  with assms show ?thesis
    by (auto simp: transfer_library_knowledge_to_hand_def each_observer_def Let_def intro: hand_facts_add)
next
  case False
  with assms show ?thesis
    by (auto simp: transfer_library_knowledge_to_hand_def each_observer_def Let_def)
qed

lemma note_library_removal_fields [simp]:
  "library (note_library_removal own pos s) = library s" "hand (note_library_removal own pos s) = hand s"
  "objects (note_library_removal own pos s) = objects s"
  "generation (note_library_removal own pos s) = generation s"
  "hand_knowledge (note_library_removal own pos s) = hand_knowledge s"
  "library_knowledge (note_library_removal own pos s) obs own' =
     (if valid_player obs \<and> own' = own then removal_shift pos (library_knowledge s obs own)
      else library_knowledge s obs own')"
  by (simp_all add: note_library_removal_def)

lemma draw_card_inv:
  assumes "knowledge_inv s" "valid_player p" "draw_card move p s = (r, t)"
  shows "knowledge_inv t"
proof (cases "library s p")
  case Nil
  with assms show ?thesis by (simp add: draw_card_def)
next
  case (Cons x lib)
  define s1 where "s1 = (set_library p lib s)\<lparr>hand := (hand s)(p := hand s p @ [x])\<rparr>"
  define s2 where "s2 = note_library_removal p 0 (transfer_library_knowledge_to_hand p 0 x s1)"
  define g where "g = generation s2 x + 1"
  define s3 where "s3 = s2\<lparr>rest := move x (rest s2),
     objects := (objects s2)\<lparr>items := (items (objects s2))[unat (object_raw x) :=
       (object_get s2 x)\<lparr>zone := Hand, zone_change_count := g\<rparr>]\<rparr>\<rparr>"
  let ?up = "map (\<lambda>e. if hand_object e = x then e\<lparr>hand_generation := g\<rparr> else e)"
  have t: "t = each_observer (\<lambda>obs t. set_hand_known obs p (?up (hand_knowledge t obs p)) t) s3"
    using assms(3)[unfolded draw_card_def Cons list.case Let_def, folded s1_def, folded s2_def,
        folded g_def, folded s3_def] by simp
  have z: "zones_ok s" by (rule knowledge_invD(1)[OF assms(1)])
  have xr: "unat (object_raw x) < length (items (objects s))"
    using z assms(2) Cons by (auto simp: zones_ok_def valid_player_def)
  have hs1: "hand s1 = (hand s)(p := hand s p @ [x])" by (simp add: s1_def)
  have g1: "generation s1 = generation s" by (simp add: s1_def fun_eq_iff generation_def object_get_def)
  have gt: "generation t y = (if y = x then g else generation s y)" for y
  proof -
    have "generation t y = generation s3 y" by (simp add: t each_observer_def)
    also have "\<dots> = (if y = x then g else generation s y)"
      using xr g1 ObjectId.expand[of y x]
      by (auto simp: s3_def s2_def s1_def generation_def object_get_def nth_list_update word_unat_eq_iff)
    finally show ?thesis .
  qed
  have lib_t: "library t = (library s)(p := lib)" and hand_t: "hand t = (hand s)(p := hand s p @ [x])"
    and len_t: "length (items (objects t)) = length (items (objects s))"
    by (simp_all add: t each_observer_def s3_def s2_def s1_def)
  have lk_t: "library_knowledge t obs own = (if valid_player obs \<and> own = p
      then removal_shift 0 (library_knowledge s obs p) else library_knowledge s obs own)" for obs own
    by (simp add: t each_observer_def s3_def s2_def s1_def)
  have hk_t: "hand_knowledge t obs own = (if valid_player obs \<and> own = p
      then ?up (hand_knowledge (transfer_library_knowledge_to_hand p 0 x s1) obs p)
      else hand_knowledge (transfer_library_knowledge_to_hand p 0 x s1) obs own)" for obs own
    by (auto simp: t each_observer_def s3_def s2_def valid_player_def)
  have fresh: "x \<notin> set lib" "\<And>own. valid_player own \<Longrightarrow> own \<noteq> p \<Longrightarrow> x \<notin> set (library s own)"
    "\<And>own. valid_player own \<Longrightarrow> x \<notin> set (hand s own)"
    using z assms(2) Cons by (auto simp: zones_ok_def valid_player_def)
  show ?thesis
  proof (rule knowledge_invI)
    show "zones_ok t"
      using z assms(2) Cons by (auto simp: zones_ok_def lib_t hand_t len_t valid_player_def)
  next
    fix obs own assume v: "valid_player obs" "valid_player own"
    note f = knowledge_invD(2)[OF assms(1) v]
    show "facts_true (library t own) (generation t) (library_knowledge t obs own)"
    proof (cases "own = p")
      case True
      have "facts_true lib (generation s) (removal_shift 0 (library_knowledge s obs p))"
        using facts_removal[OF f, of 0] True Cons by simp
      then show ?thesis using True v fresh(1) by (auto simp: lib_t lk_t gt intro: facts_true_gen)
    next
      case False
      with f v fresh(2)[of own] show ?thesis by (auto simp: lib_t lk_t gt intro: facts_true_gen)
    qed
    have h1: "hand_facts_true (hand s1 own) (generation s1)
        (hand_knowledge (transfer_library_knowledge_to_hand p 0 x s1) obs own)"
      using knowledge_invD(3)[OF assms(1) v] by (intro transfer_hand_facts)
        (auto simp: s1_def g1[unfolded s1_def] hand_facts_true_def)
    then show "hand_facts_true (hand t own) (generation t) (hand_knowledge t obs own)"
      using v fresh(3)[OF v(2)] by (auto simp: hk_t hand_t gt g1 hs1 hand_facts_true_def)
  qed
qed

section \<open>Shuffles\<close>

lemma clear_library_knowledge_fields [simp]:
  "library (clear_library_knowledge own s) = library s" "hand (clear_library_knowledge own s) = hand s"
  "objects (clear_library_knowledge own s) = objects s"
  "randomness (clear_library_knowledge own s) = randomness s"
  "hand_knowledge (clear_library_knowledge own s) = hand_knowledge s"
  "rest (clear_library_knowledge own s) = rest s"
  "library_knowledge (clear_library_knowledge own s) obs own' =
     (if valid_player obs \<and> own' = own then [] else library_knowledge s obs own')"
  by (simp_all add: clear_library_knowledge_def)

text \<open>What a committed shuffle does: the owner's library is permuted and every fact about it is
  dropped; nothing else but the randomness and the journal changes.\<close>

definition shuffled_from :: "PlayerId \<Rightarrow> 'r GameState \<Rightarrow> 'r GameState \<Rightarrow> bool" where
  "shuffled_from p s t \<longleftrightarrow> valid_player p \<and>
     (\<exists>lib rnd. mset lib = mset (library s p) \<and>
        t = clear_library_knowledge p ((set_library p lib s)\<lparr>randomness := rnd\<rparr>))"

lemma commit_library_shuffle_cases:
  assumes "commit_library_shuffle sha p token s = (r, t)"
  shows "(\<exists>e. r = Inl e) \<and> t = s \<or> r = Inr () \<and> shuffled_from p s t"
proof (cases r)
  case (Inl e)
  then show ?thesis
    using assms
    by (auto simp: commit_library_shuffle_def Let_def
        split: sum.splits if_splits GameRandomnessState.splits LibraryShuffleAuthorization.splits
          prod.splits option.splits)
next
  case (Inr u)
  have v: "valid_player p"
    using assms Inr by (auto simp: commit_library_shuffle_def library_shuffle_owner_def valid_player_def
        split: if_splits)
  have "\<exists>lib rnd. mset lib = mset (library s p) \<and>
      t = clear_library_knowledge p ((set_library p lib s)\<lparr>randomness := rnd\<rparr>)"
    using assms Inr v
    by (auto simp: commit_library_shuffle_def Let_def library_shuffle_owner_def
        split: sum.splits if_splits GameRandomnessState.splits LibraryShuffleAuthorization.splits
          prod.splits option.splits)
      (metis fst_conv mset_shuffle_with mset_shuffle_slice)+
  with v Inr show ?thesis by (simp add: shuffled_from_def)
qed

lemma shuffle_library_cases:
  assumes "shuffle_library sha p s = (r, t)"
  shows "(\<exists>e. r = Inl e) \<and> t = s \<or> r = Inr () \<and> shuffled_from p s t"
proof (cases "preflight_library_shuffle sha p s")
  case (Inl e)
  with assms show ?thesis by (auto simp: shuffle_library_def)
next
  case (Inr token)
  with assms have "commit_library_shuffle sha p token s = (r, t)" by (simp add: shuffle_library_def)
  then show ?thesis by (rule commit_library_shuffle_cases)
qed

lemma knowledge_inv_randomness [simp]:
  "knowledge_inv (s\<lparr>randomness := rnd\<rparr>) = knowledge_inv s"
  "library (s\<lparr>randomness := rnd\<rparr>) = library s"
proof -
  have "generation (s\<lparr>randomness := rnd\<rparr>) = generation s"
    by (simp add: fun_eq_iff generation_def object_get_def)
  then show "knowledge_inv (s\<lparr>randomness := rnd\<rparr>) = knowledge_inv s"
    by (simp add: knowledge_inv_def zones_ok_def)
qed simp

lemma shuffled_from_inv:
  assumes "knowledge_inv s" "shuffled_from p s t"
  shows "knowledge_inv t"
proof -
  obtain lib rnd where lib: "mset lib = mset (library s p)" and v: "valid_player p"
    and t: "t = clear_library_knowledge p ((set_library p lib s)\<lparr>randomness := rnd\<rparr>)"
    using assms(2) by (auto simp: shuffled_from_def)
  have "knowledge_inv (set_library p lib (update_known p (\<lambda>_ _. []) s))"
    using zones_ok_rearrange[OF knowledge_invD(1)[OF assms(1)] lib] assms(1) v
    by (intro known_update) simp_all
  then have "knowledge_inv ((update_known p (\<lambda>_ _. []) (set_library p lib s))\<lparr>randomness := rnd\<rparr>)"
    by (simp add: update_known_set_library)
  moreover have "(update_known p (\<lambda>_ _. []) (set_library p lib s))\<lparr>randomness := rnd\<rparr>
      = update_known p (\<lambda>_ _. []) ((set_library p lib s)\<lparr>randomness := rnd\<rparr>)"
    by (simp add: update_known_def each_observer_def set_known_def)
  ultimately show ?thesis unfolding t clear_library_knowledge_def by simp
qed

lemma randomize_bottom_inv:
  assumes "knowledge_inv s" "randomize_library_bottom_v1 sha p n s = (r, t)"
  shows "knowledge_inv t"
proof (cases "t = s")
  case True
  with assms(1) show ?thesis by simp
next
  case False
  let ?lib = "library s p"
  define start where "start = length ?lib - min n (length ?lib)"
  obtain staged where v: "valid_player p"
    and st: "shuffle_library sha p (set_library p (drop start ?lib) s) = (Inr (), staged)"
    and t: "t = update_known p (\<lambda>_ es. filter (\<lambda>e. position e < start) es)
       ((set_library p (take start ?lib @ library staged p) s)\<lparr>randomness := randomness staged\<rparr>)"
    using assms(2) False
    by (auto simp: randomize_library_bottom_v1_def library_shuffle_owner_def Let_def start_def valid_player_def
        split: if_splits prod.splits sum.splits)
  have "mset (library staged p) = mset (drop start ?lib)"
    using shuffle_library_cases[OF st] by (auto simp: shuffled_from_def)
  then have ms: "mset (take start ?lib @ library staged p) = mset ?lib"
    by (metis append_take_drop_id mset_append)
  let ?new = "take start ?lib @ library staged p" and ?f = "\<lambda>_ es. filter (\<lambda>e. position e < start) es"
  have "knowledge_inv (set_library p ?new (update_known p ?f s))"
    using assms(1) v zones_ok_rearrange[OF knowledge_invD(1)[OF assms(1)] ms]
  proof (rule known_update)
    fix obs assume vo: "valid_player obs"
    show "facts_true ?new (generation s) (?f obs (library_knowledge s obs p))"
      using facts_true_filter[OF knowledge_invD(2)[OF assms(1) vo v], of "\<lambda>e. position e < start"]
      by (auto simp: facts_true_def nth_append start_def)
  qed
  then have "knowledge_inv ((set_library p ?new (update_known p ?f s))\<lparr>randomness := randomness staged\<rparr>)" by simp
  moreover have "(set_library p ?new (update_known p ?f s))\<lparr>randomness := randomness staged\<rparr> = t"
    unfolding t by (simp add: update_known_def each_observer_def set_known_def set_library_def)
  ultimately show ?thesis by simp
qed

lemma sample_first_cases:
  assumes "sample_first sha p cards s = (r, t)"
  shows "(\<exists>e. r = Inl e) \<and> t = s \<or> (\<exists>x rnd. r = Inr x \<and> t = s\<lparr>randomness := rnd\<rparr>)"
proof (cases "length cards < 2")
  case True
  with assms show ?thesis by (auto simp: sample_first_def intro: exI[of _ "randomness s"])
next
  case False
  with assms show ?thesis by (auto simp: sample_first_def split: prod.splits sum.splits)
qed

lemma random_hand_cases:
  "random_hand_card_v1 sha p s = (r, t) \<Longrightarrow>
     (\<exists>e. r = Inl e) \<and> t = s \<or> (\<exists>x rnd. r = Inr x \<and> t = s\<lparr>randomness := rnd\<rparr>)"
  by (auto simp: random_hand_card_v1_def split: sum.splits dest: sample_first_cases)

lemma random_graveyard_cases:
  "random_graveyard_card_v1 sha p s = (r, t) \<Longrightarrow>
     (\<exists>e. r = Inl e) \<and> t = s \<or> (\<exists>x rnd. r = Inr x \<and> t = s\<lparr>randomness := rnd\<rparr>)"
  by (auto simp: random_graveyard_card_v1_def split: sum.splits dest: sample_first_cases)

lemma flip_coin_cases:
  "flip_coin_v1 sha p s = (r, t) \<Longrightarrow>
     (\<exists>e. r = Inl e) \<and> t = s \<or> (\<exists>x rnd. r = Inr x \<and> t = s\<lparr>randomness := rnd\<rparr>)"
  by (auto simp: flip_coin_v1_def split: sum.splits prod.splits)

section \<open>The operations as a machine\<close>

datatype library_op =
    DrawOp PlayerId
  | RevealHandOp PlayerId PlayerId ObjectId
  | ForgetHandOp ObjectId
  | ClearHandOp PlayerId
  | RevealTopOp PlayerId PlayerId nat
  | RevealPositionOp PlayerId PlayerId nat
  | ReorderOp PlayerId "ObjectId list" "PlayerId list"
  | ScryOp PlayerId "(ObjectId \<times> u32) list" "ObjectId list" "ObjectId list"
  | ShuffleOp PlayerId
  | RandomizeBottomOp PlayerId nat
  | RandomHandOp PlayerId
  | RandomGraveyardOp PlayerId
  | FlipCoinOp PlayerId

datatype library_failure = Panic | Refused LibraryError | ShuffleFailed LibraryShuffleError

fun op_players :: "library_op \<Rightarrow> PlayerId list" where
  "op_players (DrawOp p) = [p]"
| "op_players (RevealHandOp obs own x) = [obs, own]"
| "op_players (ForgetHandOp x) = []"
| "op_players (ClearHandOp own) = [own]"
| "op_players (RevealTopOp obs own n) = [obs, own]"
| "op_players (RevealPositionOp obs own n) = [obs, own]"
| "op_players (ReorderOp own ordered revealed) = [own]"
| "op_players (ScryOp own prefix retained bottom) = [own]"
| "op_players (ShuffleOp p) = []"
| "op_players (RandomizeBottomOp p n) = []"
| "op_players (RandomHandOp p) = []"
| "op_players (RandomGraveyardOp p) = []"
| "op_players (FlipCoinOp p) = []"

definition done_as :: "('e \<Rightarrow> 'f) \<Rightarrow> ('a, 'e) result \<times> 's \<Rightarrow> (unit, 'f) result \<times> 's" where
  "done_as g = (\<lambda>(r, t). (and_then (map_err g r) (\<lambda>_. Inr ()), t))"

fun library_run ::
  "(u8 list \<Rightarrow> u8 list) \<Rightarrow> (ObjectId \<Rightarrow> 'r \<Rightarrow> 'r) \<Rightarrow> library_op \<Rightarrow> 'r GameState
    \<Rightarrow> (unit, library_failure) result \<times> 'r GameState" where
  "library_run sha move (DrawOp p) s = (Inr (), snd (draw_card move p s))"
| "library_run sha move (RevealHandOp obs own x) s = done_as Refused (reveal_hand_card obs own x s)"
| "library_run sha move (ForgetHandOp x) s = (Inr (), forget_hand_object x s)"
| "library_run sha move (ClearHandOp own) s = (Inr (), clear_nonowner_hand_knowledge own s)"
| "library_run sha move (RevealTopOp obs own n) s = (Inr (), reveal_library_top obs own n s)"
| "library_run sha move (RevealPositionOp obs own n) s =
     (case reveal_library_position obs own n s of Some t \<Rightarrow> (Inr (), t) | None \<Rightarrow> (Inl Panic, s))"
| "library_run sha move (ReorderOp own ordered revealed) s =
     done_as Refused (reorder_library_top own ordered revealed s)"
| "library_run sha move (ScryOp own prefix retained bottom) s =
     done_as Refused (apply_scry_result own prefix retained bottom s)"
| "library_run sha move (ShuffleOp p) s = done_as ShuffleFailed (shuffle_library sha p s)"
| "library_run sha move (RandomizeBottomOp p n) s =
     done_as ShuffleFailed (randomize_library_bottom_v1 sha p n s)"
| "library_run sha move (RandomHandOp p) s = done_as ShuffleFailed (random_hand_card_v1 sha p s)"
| "library_run sha move (RandomGraveyardOp p) s = done_as ShuffleFailed (random_graveyard_card_v1 sha p s)"
| "library_run sha move (FlipCoinOp p) s = done_as ShuffleFailed (flip_coin_v1 sha p s)"

definition library_step ::
  "(u8 list \<Rightarrow> u8 list) \<Rightarrow> (ObjectId \<Rightarrow> 'r \<Rightarrow> 'r) \<Rightarrow> library_op \<Rightarrow> 'r GameState
    \<Rightarrow> (unit, library_failure) result \<times> 'r GameState" where
  "library_step sha move op s =
     (if list_all valid_player (op_players op) then library_run sha move op s else (Inl Panic, s))"

lemma snd_done_as [simp]: "snd (done_as g rt) = snd rt"
  by (simp add: done_as_def split: prod.split)

lemma done_as_Inl: "done_as g rt = (Inl f, t) \<Longrightarrow> \<exists>e. rt = (Inl e, t)"
  by (auto simp: done_as_def and_then_eq_Inl map_err_eq_Inl split: prod.splits)

lemma library_run_inv:
  assumes "knowledge_inv s" "list_all valid_player (op_players op)"
  shows "knowledge_inv (snd (library_run sha move op s))"
proof (cases op)
  case (DrawOp p)
  with assms show ?thesis by (cases "draw_card move p s") (simp add: draw_card_inv)
next
  case (RevealHandOp obs own x)
  with assms show ?thesis by (cases "reveal_hand_card obs own x s") (auto intro: reveal_hand_card_inv)
next
  case (RevealPositionOp obs own n)
  with assms show ?thesis by (auto split: option.splits intro: reveal_library_position_inv)
next
  case (ReorderOp own ordered revealed)
  with assms show ?thesis
    by (cases "reorder_library_top own ordered revealed s") (simp add: reorder_library_top_inv)
next
  case (ScryOp own prefix retained bottom)
  with assms show ?thesis
    by (cases "apply_scry_result own prefix retained bottom s") (simp add: apply_scry_result_inv)
next
  case (ShuffleOp p)
  obtain r t where "shuffle_library sha p s = (r, t)" by fastforce
  with ShuffleOp assms(1) shuffle_library_cases[of sha p s r t] show ?thesis
    by (auto intro: shuffled_from_inv)
next
  case (RandomizeBottomOp p n)
  with assms show ?thesis
    by (cases "randomize_library_bottom_v1 sha p n s") (simp add: randomize_bottom_inv)
next
  case (RandomHandOp p)
  obtain r t where "random_hand_card_v1 sha p s = (r, t)" by fastforce
  with RandomHandOp assms(1) random_hand_cases[of sha p s r t] show ?thesis by auto
next
  case (RandomGraveyardOp p)
  obtain r t where "random_graveyard_card_v1 sha p s = (r, t)" by fastforce
  with RandomGraveyardOp assms(1) random_graveyard_cases[of sha p s r t] show ?thesis by auto
next
  case (FlipCoinOp p)
  obtain r t where "flip_coin_v1 sha p s = (r, t)" by fastforce
  with FlipCoinOp assms(1) flip_coin_cases[of sha p s r t] show ?thesis by auto
qed (use assms in \<open>simp_all add: forget_hand_object_inv clear_nonowner_inv reveal_library_top_inv\<close>)

lemma library_run_err:
  assumes "library_run sha move op s = (Inl e, t)"
  shows "t = s"
proof (cases op)
  case (RevealHandOp obs own x)
  with assms show ?thesis
    by (auto simp: reveal_hand_card_def Let_def dest!: done_as_Inl split: option.splits if_splits)
next
  case (ReorderOp own ordered revealed)
  with assms show ?thesis
    by (auto simp: reorder_library_top_def Let_def dest!: done_as_Inl split: if_splits)
next
  case (ScryOp own prefix retained bottom)
  with assms show ?thesis
    by (auto simp: apply_scry_result_def Let_def dest!: done_as_Inl split: if_splits sum.splits)
next
  case (RandomizeBottomOp p n)
  with assms show ?thesis
    by (auto simp: randomize_library_bottom_v1_def Let_def dest!: done_as_Inl
        split: if_splits sum.splits prod.splits)
qed (use assms in \<open>auto dest!: done_as_Inl shuffle_library_cases random_hand_cases
    random_graveyard_cases flip_coin_cases split: option.splits\<close>)

interpretation library_machine: atomic_machine "library_step sha move" knowledge_inv
  by unfold_locales
    (auto simp: library_step_def intro: library_run_inv dest: library_run_err split: if_splits)

end
