(* ===== verification/Library_Shuffle.thy ===== *)
theory Library_Shuffle
  imports Library_Knowledge
begin

text \<open>
  Properties of the library operations: facts stay true over any run, refused operations leave no
  trace, and the two-phase shuffle (preflight a token, commit it) behaves as a transaction: the
  owner's library is permuted and becomes unknown, exactly one ordinal is consumed, tokens of the
  two owners commute, and a token cannot be replayed.
\<close>

section \<open>Preflight and commit\<close>

lemma checked_add_one_u64: "checked_add (n::u64) 1 = (if n = - 1 then None else Some (n + 1))"
proof (cases "n = - 1")
  case True
  then show ?thesis by (simp add: checked_add_def unsigned_minus_1_eq_mask mask_eq_exp_minus_1)
next
  case False
  then have "unat n \<noteq> unat (- 1 :: u64)" by (simp add: word_unat_eq_iff)
  then have "unat n + 1 < 2 ^ 64"
    using unat_bound_u64[of n] by (simp add: unsigned_minus_1_eq_mask mask_eq_exp_minus_1)
  with False show ?thesis by (simp add: checked_add_def)
qed

lemma physical_owner_valid:
  "valid_player p \<Longrightarrow> physical_owner_v2_exact p = Inr (if p = P0 then OwnerP0 else OwnerP1)"
  by (auto simp: physical_owner_v2_exact_def valid_player_def)

lemma library_shuffle_owner_valid [simp]: "valid_player p \<Longrightarrow> library_shuffle_owner p = Inr p"
  by (auto simp: library_shuffle_owner_def valid_player_def)

definition owner_of :: "PlayerId \<Rightarrow> PhysicalOwnerV2" where
  "owner_of p = (if p = P0 then OwnerP0 else OwnerP1)"

text \<open>The token for \<open>p\<close> in an environment-v2 state whose ordinal is not exhausted.\<close>

definition v2_seed :: "(u8 list \<Rightarrow> u8 list) \<Rightarrow> PlayerId \<Rightarrow> GameEnvironmentRandomizationV2 \<Rightarrow> u64" where
  "v2_seed sha p v2 = from_be_bytes_u64 (take 8 (sha (derivation_preimage (pair_environment_seed v2)
     (owner_of p) InGameLibraryShuffle (next_live_shuffle_ordinal v2 (owner_of p)))))"

definition v2_token :: "(u8 list \<Rightarrow> u8 list) \<Rightarrow> PlayerId \<Rightarrow> GameEnvironmentRandomizationV2 \<Rightarrow> LibraryShuffleToken" where
  "v2_token sha p v2 = \<lparr>token_owner = p,
     authorization = AuthEnvironmentV2 (pair_environment_seed v2) (next_live_shuffle_ordinal v2 (owner_of p))
       (next_live_shuffle_ordinal v2 (owner_of p) + 1) (v2_seed sha p v2)\<rparr>"

lemma preflight_v2:
  assumes "valid_player p" "randomness s = EnvironmentV2 v2"
  shows "preflight_library_shuffle sha p s =
    (if next_live_shuffle_ordinal v2 (owner_of p) = - 1 then Inl ExhaustedOwnerOrdinal
     else Inr (v2_token sha p v2))"
  using assms
  by (simp add: preflight_library_shuffle_def physical_owner_valid owner_of_def[symmetric] Let_def
      checked_add_one_u64 derive_environment_randomization_seed_v2_def v2_token_def v2_seed_def)

lemma preflight_legacy:
  "valid_player p \<Longrightarrow> randomness s = Legacy rng \<Longrightarrow>
   preflight_library_shuffle sha p s = Inr \<lparr>token_owner = p, authorization = AuthLegacy rng\<rparr>"
  by (simp add: preflight_library_shuffle_def)

definition v2_shuffled :: "(u8 list \<Rightarrow> u8 list) \<Rightarrow> PlayerId \<Rightarrow> GameEnvironmentRandomizationV2 \<Rightarrow> 'r GameState \<Rightarrow> 'r GameState" where
  "v2_shuffled sha p v2 s = clear_library_knowledge p
     ((set_library p (shuffle_slice_in_place_v2 (v2_seed sha p v2) (library s p)) s)
        \<lparr>randomness := EnvironmentV2 (set_live_shuffle_ordinal (owner_of p)
           (next_live_shuffle_ordinal v2 (owner_of p) + 1) v2)\<rparr>)"

text \<open>Committing a token of an earlier state \<open>v\<close> of the randomness in the state \<open>v2\<close>.\<close>

lemma commit_v2:
  assumes "valid_player p" "randomness s = EnvironmentV2 v2"
    and "pair_environment_seed v2 = pair_environment_seed v"
    and "next_live_shuffle_ordinal v2 (owner_of p) = next_live_shuffle_ordinal v (owner_of p)"
    and "next_live_shuffle_ordinal v (owner_of p) \<noteq> - 1"
  shows "commit_library_shuffle sha p (v2_token sha p v) s = (Inr (), v2_shuffled sha p v2 s)"
  using assms
  by (simp add: commit_library_shuffle_def v2_token_def physical_owner_valid owner_of_def[symmetric]
      Let_def checked_add_one_u64 derive_environment_randomization_seed_v2_def v2_seed_def v2_shuffled_def)

lemma commit_v2_stale:
  assumes "valid_player p" "randomness s = EnvironmentV2 v2"
    and "next_live_shuffle_ordinal v2 (owner_of p) \<noteq> next_live_shuffle_ordinal v (owner_of p)"
  shows "commit_library_shuffle sha p (v2_token sha p v) s = (Inl TokenStateMismatch, s)"
  using assms
  by (simp add: commit_library_shuffle_def v2_token_def physical_owner_valid owner_of_def[symmetric] Let_def)

lemma v2_shuffled_fields [simp]:
  "library (v2_shuffled sha p v2 s) =
     (library s)(p := shuffle_slice_in_place_v2 (v2_seed sha p v2) (library s p))"
  "randomness (v2_shuffled sha p v2 s) = EnvironmentV2 (set_live_shuffle_ordinal (owner_of p)
     (next_live_shuffle_ordinal v2 (owner_of p) + 1) v2)"
  "hand (v2_shuffled sha p v2 s) = hand s" "objects (v2_shuffled sha p v2 s) = objects s"
  "hand_knowledge (v2_shuffled sha p v2 s) = hand_knowledge s" "rest (v2_shuffled sha p v2 s) = rest s"
  "library_knowledge (v2_shuffled sha p v2 s) obs own =
     (if valid_player obs \<and> own = p then [] else library_knowledge s obs own)"
  by (simp_all add: v2_shuffled_def)

section \<open>Properties\<close>

text \<open>
  C1. Knowledge stays true: starting from a state whose recorded knowledge is true, after any
  sequence of draws, reveals, reorders, scries, shuffles and random choices (rejected ones
  included), every fact an observer holds about a library names the card that is at that position
  now, in its current incarnation, and every fact about a hand names a card in that hand.
\<close>

theorem knowledge_stays_true:
  assumes "knowledge_inv s" "valid_player obs" "valid_player own"
    and "t = run_ops (library_step sha move) ops s"
  shows "(\<forall>e \<in> set (known_library_cards t obs own).
      position e < length (library t own) \<and> library t own ! position e = known_object e \<and>
      generation t (known_object e) = known_generation e) \<and>
    sorted_wrt (<) (map position (known_library_cards t obs own)) \<and>
    (\<forall>e \<in> set (known_hand_cards t obs own).
      hand_object e \<in> set (hand t own) \<and> generation t (hand_object e) = hand_generation e)"
proof -
  have "knowledge_inv t" unfolding assms(4) by (rule library_machine.run_inv) (rule assms(1))
  from knowledge_invD(2,3)[OF this assms(2,3)] show ?thesis
    by (simp add: facts_true_def hand_facts_true_def known_library_cards_def known_hand_cards_def)
qed

text \<open>
  Rejected library operations leave no trace: dropping the rejected ones from any sequence
  leads to the same state.
\<close>

lemma library_rejections_leave_no_trace:
  "run_ops (library_step sha move) (accepted (library_step sha move) ops s) s
     = run_ops (library_step sha move) ops s"
  by (rule library_machine.run_accepted)

text \<open>
  C18. A shuffle of a seat's library succeeds unless that owner's 64-bit ordinal is exhausted, and
  then changes nothing. It permutes exactly that library, leaves hands, objects and the other
  library alone, erases every observer's facts about the shuffled library and no others, and in
  the v2 mode consumes exactly one ordinal of that owner.
\<close>

theorem shuffle_library_correct:
  assumes "valid_player p" "randomness s = EnvironmentV2 v2"
  shows "case shuffle_library sha p s of
      (Inl e, t) \<Rightarrow> e = ExhaustedOwnerOrdinal \<and> next_live_shuffle_ordinal v2 (owner_of p) = - 1 \<and> t = s
    | (Inr _, t) \<Rightarrow>
        mset (library t p) = mset (library s p) \<and>
        (\<forall>q. q \<noteq> p \<longrightarrow> library t q = library s q) \<and> hand t = hand s \<and> objects t = objects s \<and>
        (\<forall>obs. valid_player obs \<longrightarrow> library_knowledge t obs p = []) \<and>
        (\<forall>obs q. q \<noteq> p \<longrightarrow> library_knowledge t obs q = library_knowledge s obs q) \<and>
        (\<exists>w. randomness t = EnvironmentV2 w \<and> pair_environment_seed w = pair_environment_seed v2 \<and>
           unat (next_live_shuffle_ordinal w (owner_of p)) = unat (next_live_shuffle_ordinal v2 (owner_of p)) + 1 \<and>
           (\<forall>q. valid_player q \<and> q \<noteq> p \<longrightarrow>
              next_live_shuffle_ordinal w (owner_of q) = next_live_shuffle_ordinal v2 (owner_of q)))"
proof (cases "next_live_shuffle_ordinal v2 (owner_of p) = - 1")
  case True
  then show ?thesis by (simp add: shuffle_library_def preflight_v2[OF assms])
next
  case False
  have sh: "shuffle_library sha p s = (Inr (), v2_shuffled sha p v2 s)"
    using False by (simp add: shuffle_library_def preflight_v2[OF assms] commit_v2[OF assms refl refl])
  have "unat (next_live_shuffle_ordinal v2 (owner_of p) + 1) = unat (next_live_shuffle_ordinal v2 (owner_of p)) + 1"
    using checked_add_Some[of "next_live_shuffle_ordinal v2 (owner_of p)" 1] False
    by (simp add: checked_add_one_u64)
  moreover have "owner_of q \<noteq> owner_of p" if "valid_player q" "q \<noteq> p" for q
    using that assms(1) by (auto simp: owner_of_def valid_player_def)
  ultimately show ?thesis unfolding sh by (simp, metis)
qed

text \<open>
  Shuffle tokens of the two owners taken from the same state can be committed in either
  order, both commits succeed, and the resulting libraries, randomness and knowledge are the
  same; committing a token a second time is refused and changes nothing.
\<close>

theorem shuffle_tokens_commute:
  assumes "randomness s = EnvironmentV2 v2"
    and "preflight_library_shuffle sha P0 s = Inr tok0" "preflight_library_shuffle sha P1 s = Inr tok1"
  shows "\<exists>a b t u. commit_library_shuffle sha P0 tok0 s = (Inr (), a) \<and>
    commit_library_shuffle sha P1 tok1 a = (Inr (), t) \<and>
    commit_library_shuffle sha P1 tok1 s = (Inr (), b) \<and>
    commit_library_shuffle sha P0 tok0 b = (Inr (), u) \<and>
    library t = library u \<and> randomness t = randomness u \<and> library_knowledge t = library_knowledge u \<and>
    commit_library_shuffle sha P0 tok0 t = (Inl TokenStateMismatch, t)"
proof -
  have o: "owner_of P0 = OwnerP0" "owner_of P1 = OwnerP1" by (simp_all add: owner_of_def)
  have tok: "tok0 = v2_token sha P0 v2" "tok1 = v2_token sha P1 v2"
    and n: "next_live_shuffle_ordinal v2 OwnerP0 \<noteq> - 1" "next_live_shuffle_ordinal v2 OwnerP1 \<noteq> - 1"
    using assms(2,3) preflight_v2[OF _ assms(1), of P0 sha] preflight_v2[OF _ assms(1), of P1 sha]
    by (simp_all add: o split: if_splits)
  define w0 where "w0 = set_live_shuffle_ordinal OwnerP0 (next_live_shuffle_ordinal v2 OwnerP0 + 1) v2"
  define w1 where "w1 = set_live_shuffle_ordinal OwnerP1 (next_live_shuffle_ordinal v2 OwnerP1 + 1) v2"
  let ?a = "v2_shuffled sha P0 v2 s" and ?b = "v2_shuffled sha P1 v2 s"
  let ?t = "v2_shuffled sha P1 w0 ?a" and ?u = "v2_shuffled sha P0 w1 ?b"
  have r: "randomness ?a = EnvironmentV2 w0" "randomness ?b = EnvironmentV2 w1"
    by (simp_all add: w0_def w1_def o)
  have w: "pair_environment_seed w0 = pair_environment_seed v2" "pair_environment_seed w1 = pair_environment_seed v2"
    "ordinal_p1 w0 = ordinal_p1 v2" "ordinal_p0 w1 = ordinal_p0 v2"
    by (simp_all add: w0_def w1_def)
  have c: "commit_library_shuffle sha P0 tok0 s = (Inr (), ?a)" "commit_library_shuffle sha P1 tok1 s = (Inr (), ?b)"
    unfolding tok using n by (auto intro!: commit_v2[OF _ assms(1) refl refl] simp: o)
  have d: "commit_library_shuffle sha P1 tok1 ?a = (Inr (), ?t)" "commit_library_shuffle sha P0 tok0 ?b = (Inr (), ?u)"
    unfolding tok using n commit_v2[OF _ r(1), of P1 v2 sha] commit_v2[OF _ r(2), of P0 v2 sha] w
    by (simp_all add: o)
  have seed: "v2_seed sha P1 w0 = v2_seed sha P1 v2" "v2_seed sha P0 w1 = v2_seed sha P0 v2"
    by (simp_all add: v2_seed_def o w0_def w1_def)
  have eq: "library ?t = library ?u" "randomness ?t = randomness ?u" "library_knowledge ?t = library_knowledge ?u"
    by (simp_all add: fun_eq_iff seed, simp add: o w0_def w1_def)
  have "commit_library_shuffle sha P0 tok0 ?t = (Inl TokenStateMismatch, ?t)"
    unfolding tok by (rule commit_v2_stale) (auto simp: o w0_def)
  with c d eq show ?thesis by blast
qed

text \<open>A two-seat state: five objects, three cards in P0's library, one in P1's, one in P0's hand;
  P1 knows P0's second card.\<close>

definition demo_object :: "PlayerId \<Rightarrow> Zone \<Rightarrow> CardObject" where
  "demo_object p z = \<lparr>owner = p, zone = z, zone_change_count = 1, object_is_token = False,
     definition_is_token = False, is_spell_copy = False\<rparr>"

definition demo_state :: "unit GameState" where
  "demo_state =
     \<lparr>library = (\<lambda>p. if p = P0 then [ObjectId 0, ObjectId 1, ObjectId 2] else [ObjectId 3]),
      hand = (\<lambda>p. if p = P0 then [ObjectId 4] else []), graveyard_cards = (\<lambda>_. []),
      objects = \<lparr>items = [demo_object P0 Library, demo_object P0 Library, demo_object P0 Library,
                          demo_object P1 Library, demo_object P0 Hand]\<rparr>,
      library_knowledge = (\<lambda>obs own. if obs = P1 \<and> own = P0
        then [\<lparr>position = 1, known_object = ObjectId 1, known_generation = 1\<rparr>] else []),
      hand_knowledge = (\<lambda>_ _. []), randomness = EnvironmentV2 (environment_new 7),
      observation_journal = [], event_history_len = 0, neutral_choices = False, rest = ()\<rparr>"

lemma demo_state_inv: "knowledge_inv demo_state"
proof (rule knowledge_invI)
  show "zones_ok demo_state" by (simp add: zones_ok_def demo_state_def demo_object_def)
qed (auto simp: demo_state_def demo_object_def facts_true_def hand_facts_true_def generation_def object_get_def)

theorem knowledge_stays_true_witness:
  "let t = run_ops (library_step (\<lambda>_. replicate 8 3) (\<lambda>_ u. u)) [DrawOp P0, RevealTopOp P0 P0 1] demo_state
   in \<forall>e \<in> set (known_library_cards t P1 P0).
        position e < length (library t P0) \<and> library t P0 ! position e = known_object e"
  unfolding Let_def using knowledge_stays_true[OF demo_state_inv _ _ refl, of P1 P0] by blast

theorem shuffle_library_correct_witness:
  "mset (library (snd (shuffle_library (\<lambda>_. replicate 8 3) P0 demo_state)) P0)
     = mset (library demo_state P0)"
proof -
  have r: "randomness demo_state = EnvironmentV2 (environment_new 7)" by (simp add: demo_state_def)
  show ?thesis
    using shuffle_library_correct[OF valid_playerI(1) r, of "\<lambda>_. replicate 8 3"]
    by (auto split: prod.splits sum.splits)
qed

theorem shuffle_tokens_commute_witness:
  "\<exists>a t. commit_library_shuffle (\<lambda>_. replicate 8 3) P0 (v2_token (\<lambda>_. replicate 8 3) P0 (environment_new 7)) demo_state
      = (Inr (), a) \<and>
    commit_library_shuffle (\<lambda>_. replicate 8 3) P1 (v2_token (\<lambda>_. replicate 8 3) P1 (environment_new 7)) a
      = (Inr (), t)"
proof -
  have r: "randomness demo_state = EnvironmentV2 (environment_new 7)" by (simp add: demo_state_def)
  have t: "preflight_library_shuffle (\<lambda>_. replicate 8 3) p demo_state
      = Inr (v2_token (\<lambda>_. replicate 8 3) p (environment_new 7))" if "valid_player p" for p
    using preflight_v2[OF that r, of "\<lambda>_. replicate 8 3"]
    by (cases "owner_of p") (simp_all add: environment_new_def)
  show ?thesis
    using shuffle_tokens_commute[OF r t t] by auto
qed

end
