(* ===== verification/Zone_Change.thy ===== *)
theory Zone_Change
  imports Library_Shuffle
begin

text \<open>
  \<^verbatim>\<open>mtg-kernel/src/event.rs\<close>, \<^verbatim>\<open>materialize_zone_change_v1\<close> and \<^verbatim>\<open>remove_from_zone\<close>: moving a
  card between zones, with what the move tells each player. The zones that \<open>GameState\<close> of
  \<open>Library\<close> does not list (battlefield, exile, command, stack) are part of \<open>rest\<close>; the argument
  \<open>move\<close> stands for what the code does to them and to the moved object's relations, counters and
  per-zone data. Destinations other than library and hand also run battlefield entry code, which
  is part of \<open>move\<close> as well. The result is \<open>None\<close> where the code panics.
\<close>

datatype LibraryPlacement = Top | SecondFromTop | Bottom | ThirdFromTop

datatype LibraryInsertVisibility = Hidden | OwnerOnly | Public

definition drop_from :: "ObjectId \<Rightarrow> ObjectId list \<Rightarrow> ObjectId list" where
  "drop_from x = filter (\<lambda>y. y \<noteq> x)"

fun index_of :: "ObjectId \<Rightarrow> ObjectId list \<Rightarrow> nat option" where
  "index_of x [] = None"
| "index_of x (y # ys) = (if y = x then Some 0 else map_option Suc (index_of x ys))"

definition remove_from_zone :: "PlayerId \<Rightarrow> ObjectId \<Rightarrow> Zone \<Rightarrow> 'r GameState \<Rightarrow> 'r GameState" where
  "remove_from_zone own x z s =
     (case z of
        Library \<Rightarrow>
          (let s1 = set_library own (drop_from x (library s own)) s in
           case index_of x (library s own) of
             Some pos \<Rightarrow> note_library_removal own pos s1
           | None \<Rightarrow> s1)
      | Hand \<Rightarrow> s\<lparr>hand := (hand s)(own := drop_from x (hand s own))\<rparr>
      | Graveyard \<Rightarrow> s\<lparr>graveyard_cards := (graveyard_cards s)(own := drop_from x (graveyard_cards s own))\<rparr>
      | _ \<Rightarrow> s)"

definition insert_position :: "LibraryPlacement \<Rightarrow> nat \<Rightarrow> nat" where
  "insert_position placement len =
     (case placement of Top \<Rightarrow> 0 | SecondFromTop \<Rightarrow> min 1 len | Bottom \<Rightarrow> len | ThirdFromTop \<Rightarrow> min 2 len)"

definition insert_into_zone ::
  "PlayerId \<Rightarrow> ObjectId \<Rightarrow> Zone \<Rightarrow> LibraryPlacement \<Rightarrow> 'r GameState \<Rightarrow> 'r GameState option" where
  "insert_into_zone own x z placement s =
     (case z of
        Library \<Rightarrow>
          (let lib = library s own; pos = insert_position placement (length lib) in
           Some (set_library own (take pos lib @ x # drop pos lib) (note_library_insertion own pos s)))
      | Hand \<Rightarrow> Some (s\<lparr>hand := (hand s)(own := hand s own @ [x])\<rparr>)
      | Graveyard \<Rightarrow> Some (s\<lparr>graveyard_cards := (graveyard_cards s)(own := graveyard_cards s own @ [x])\<rparr>)
      | Stack \<Rightarrow> None
      | _ \<Rightarrow> Some s)"

text \<open>The observers that knew the moved card's library position in its current incarnation.\<close>

definition informed :: "'r GameState \<Rightarrow> PlayerId \<Rightarrow> ObjectId \<Rightarrow> PlayerId \<Rightarrow> bool" where
  "informed s own x obs \<longleftrightarrow>
     (case index_of x (library s own) of
        None \<Rightarrow> False
      | Some pos \<Rightarrow>
          list_ex (\<lambda>e. position e = pos \<and> known_object e = x \<and> known_generation e = generation s x)
            (library_knowledge s obs own))"

definition new_incarnation :: "ObjectId \<Rightarrow> Zone \<Rightarrow> 'r GameState \<Rightarrow> 'r GameState" where
  "new_incarnation x z s =
     s\<lparr>objects := (objects s)\<lparr>items := (items (objects s))[unat (object_raw x) :=
       (object_get s x)\<lparr>zone := z, zone_change_count := generation s x + 1\<rparr>]\<rparr>\<rparr>"

definition reveal_position_to ::
  "PlayerId \<Rightarrow> PlayerId \<Rightarrow> nat \<Rightarrow> 'r GameState option \<Rightarrow> 'r GameState option" where
  "reveal_position_to obs own pos so = Option.bind so (reveal_library_position obs own pos)"

definition reveal_hand_to :: "bool \<Rightarrow> PlayerId \<Rightarrow> PlayerId \<Rightarrow> ObjectId \<Rightarrow> 'r GameState option \<Rightarrow> 'r GameState option" where
  "reveal_hand_to told obs own x so =
     Option.bind so (\<lambda>s.
       if told then (case reveal_hand_card obs own x s of (Inr _, t) \<Rightarrow> Some t | (Inl _, _) \<Rightarrow> None)
       else Some s)"

definition publish_library_insert ::
  "PlayerId \<Rightarrow> ObjectId \<Rightarrow> LibraryInsertVisibility \<Rightarrow> 'r GameState \<Rightarrow> 'r GameState option" where
  "publish_library_insert own x vis s =
     (case index_of x (library s own) of
        None \<Rightarrow> None
      | Some pos \<Rightarrow>
          (case vis of
             Hidden \<Rightarrow> Some s
           | OwnerOnly \<Rightarrow> reveal_position_to own own pos (Some s)
           | Public \<Rightarrow> reveal_position_to P1 own pos (reveal_position_to P0 own pos (Some s))))"

definition materialize_zone_change_v1 ::
  "(ObjectId \<Rightarrow> Zone \<Rightarrow> Zone \<Rightarrow> 'r \<Rightarrow> 'r) \<Rightarrow> ObjectId \<Rightarrow> Zone \<Rightarrow> LibraryPlacement \<Rightarrow> bool
    \<Rightarrow> LibraryInsertVisibility \<Rightarrow> 'r GameState \<Rightarrow> 'r GameState option" where
  "materialize_zone_change_v1 move x to_zone placement preserve vis s =
     (case arena_try_get (objects s) x of
        None \<Rightarrow> None
      | Some ob \<Rightarrow>
          (let own = owner ob; from_zone = zone ob;
               told = (\<lambda>obs. preserve \<and> from_zone = Library \<and> to_zone = Hand \<and> informed s own x obs);
               s1 = forget_hand_object x (remove_from_zone own x from_zone s);
               s2 = s1\<lparr>rest := move x from_zone to_zone (rest s1)\<rparr>
           in Option.bind (insert_into_zone own x to_zone placement s2) (\<lambda>s3.
                let s4 = new_incarnation x to_zone s3 in
                if to_zone = Library then publish_library_insert own x vis s4
                else if to_zone = Hand then
                  (let tell = (\<lambda>obs. from_zone \<noteq> Library \<or> told obs) in
                   reveal_hand_to (tell P1) P1 own x (reveal_hand_to (tell P0) P0 own x (Some s4)))
                else Some s4)))"

section \<open>Cards are where their objects say\<close>

definition placed :: "'r GameState \<Rightarrow> bool" where
  "placed s \<longleftrightarrow>
     (\<forall>p. valid_player p \<longrightarrow>
        (\<forall>x \<in> set (library s p). owner (object_get s x) = p \<and> zone (object_get s x) = Library) \<and>
        (\<forall>x \<in> set (hand s p). owner (object_get s x) = p \<and> zone (object_get s x) = Hand))"

definition cards_inv :: "'r GameState \<Rightarrow> bool" where
  "cards_inv s \<longleftrightarrow> knowledge_inv s \<and> placed s"

text \<open>A card that is in no library and in no hand, and that no hand fact mentions.\<close>

definition absent :: "ObjectId \<Rightarrow> 'r GameState \<Rightarrow> bool" where
  "absent x s \<longleftrightarrow>
     (\<forall>p. valid_player p \<longrightarrow> x \<notin> set (library s p) \<and> x \<notin> set (hand s p)) \<and>
     (\<forall>obs own. valid_player obs \<longrightarrow> valid_player own \<longrightarrow> (\<forall>e \<in> set (hand_knowledge s obs own). hand_object e \<noteq> x))"

lemma index_of_Some: "index_of x xs = Some i \<Longrightarrow> i < length xs \<and> xs ! i = x"
  by (induction xs arbitrary: i) (auto split: if_splits)

lemma index_of_None: "index_of x xs = None \<longleftrightarrow> x \<notin> set xs"
  by (induction xs) auto

lemma drop_from_distinct:
  "distinct xs \<Longrightarrow> index_of x xs = Some i \<Longrightarrow> drop_from x xs = take i xs @ drop (Suc i) xs"
  by (induction xs arbitrary: i) (auto simp: drop_from_def filter_id_conv split: if_splits)

lemma drop_from_absent: "x \<notin> set xs \<Longrightarrow> drop_from x xs = xs"
  by (auto simp: drop_from_def filter_id_conv)

lemma set_drop_from [simp]: "set (drop_from x xs) = set xs - {x}"
  by (auto simp: drop_from_def)

lemma distinct_drop_from [simp]: "distinct xs \<Longrightarrow> distinct (drop_from x xs)"
  by (simp add: drop_from_def)

lemma zones_okD:
  assumes "zones_ok s" "valid_player p"
  shows "distinct (library s p)" "distinct (hand s p)" "set (library s p) \<inter> set (hand s q) = {} \<or> \<not> valid_player q"
  using assms by (auto simp: zones_ok_def valid_player_def)

lemma forget_fields [simp]:
  "library (forget_hand_object x s) = library s" "hand (forget_hand_object x s) = hand s"
  "objects (forget_hand_object x s) = objects s" "graveyard_cards (forget_hand_object x s) = graveyard_cards s"
  "library_knowledge (forget_hand_object x s) = library_knowledge s" "rest (forget_hand_object x s) = rest s"
  "valid_player obs \<Longrightarrow> valid_player own \<Longrightarrow>
     hand_knowledge (forget_hand_object x s) obs own = filter (\<lambda>e. hand_object e \<noteq> x) (hand_knowledge s obs own)"
  by (auto simp: forget_hand_object_def each_observer_def set_hand_known_def valid_player_def)

lemma object_get_objects: "objects t = objects s \<Longrightarrow> object_get t = object_get s"
  by (simp add: fun_eq_iff object_get_def)

lemma generation_objects: "objects t = objects s \<Longrightarrow> generation t = generation s"
  by (simp add: fun_eq_iff generation_def object_get_def)

lemma placedD:
  assumes "placed s" "valid_player p"
  shows "x \<in> set (library s p) \<Longrightarrow> owner (object_get s x) = p \<and> zone (object_get s x) = Library"
    and "x \<in> set (hand s p) \<Longrightarrow> owner (object_get s x) = p \<and> zone (object_get s x) = Hand"
  using assms by (simp_all add: placed_def)

text \<open>What is left after the card has been taken out of its zone.\<close>

definition taken_out :: "PlayerId \<Rightarrow> ObjectId \<Rightarrow> 'r GameState \<Rightarrow> 'r GameState \<Rightarrow> bool" where
  "taken_out own x s t \<longleftrightarrow>
     objects t = objects s \<and> library t = (library s)(own := drop_from x (library s own)) \<and>
     hand t = (hand s)(own := drop_from x (hand s own)) \<and> knowledge_inv t \<and> absent x t"

lemma remove_from_zone_taken:
  assumes inv: "cards_inv s" and own: "own = owner (object_get s x)" "valid_player own"
    and z: "z = zone (object_get s x)"
  shows "taken_out own x s (forget_hand_object x (remove_from_zone own x z s))"
proof -
  let ?r = "remove_from_zone own x z s"
  have ki: "knowledge_inv s" and pl: "placed s" using inv by (simp_all add: cards_inv_def)
  have zo: "zones_ok s" by (rule knowledge_invD(1)[OF ki])
  have nl: "x \<notin> set (library s p)" if "valid_player p" "p \<noteq> own \<or> z \<noteq> Library" for p
    using placedD(1)[OF pl that(1)] that(2) own(1) z by blast
  have nh: "x \<notin> set (hand s p)" if "valid_player p" "p \<noteq> own \<or> z \<noteq> Hand" for p
    using placedD(2)[OF pl that(1)] that(2) own(1) z by blast
  have obj: "objects ?r = objects s"
    by (simp add: remove_from_zone_def Let_def split: Zone.splits option.splits)
  have lib: "library ?r = (library s)(own := drop_from x (library s own))"
    using nl[OF own(2)]
    by (cases "z = Library") (auto simp: remove_from_zone_def Let_def drop_from_absent split: Zone.splits option.splits)
  have hnd: "hand ?r = (hand s)(own := drop_from x (hand s own))"
    using nh[OF own(2)]
    by (cases "z = Hand") (auto simp: remove_from_zone_def Let_def drop_from_absent split: Zone.splits option.splits)
  have hk: "hand_knowledge ?r = hand_knowledge s"
    by (simp add: remove_from_zone_def Let_def split: Zone.splits option.splits)
  have lk: "facts_true (library ?r p) (generation s) (library_knowledge ?r obs p)"
    if v: "valid_player obs" "valid_player p" for obs p
  proof (cases "p = own \<and> z = Library")
    case True
    note f = knowledge_invD(2)[OF ki v]
    show ?thesis
    proof (cases "index_of x (library s own)")
      case None
      then show ?thesis
        using True f drop_from_absent[of x "library s own"] index_of_None[of x "library s own"]
        by (simp add: remove_from_zone_def Let_def)
    next
      case (Some i)
      then show ?thesis
        using True f v facts_removal[of "library s own" "generation s" "library_knowledge s obs own" i]
          index_of_Some[OF Some] drop_from_distinct[OF zones_okD(1)[OF zo own(2)] Some]
        by (simp add: remove_from_zone_def Let_def)
    qed
  next
    case False
    have "library_knowledge ?r obs p = library_knowledge s obs p"
      using False by (auto simp: remove_from_zone_def Let_def split: Zone.splits option.splits)
    moreover have "library ?r p = library s p"
      using False nl[OF own(2)] by (auto simp: lib drop_from_absent)
    ultimately show ?thesis using knowledge_invD(2)[OF ki v] by simp
  qed
  have "zones_ok ?r"
    using zo own(2) by (auto simp: zones_ok_def lib hnd obj valid_player_def)
  moreover have "hand_facts_true (hand ?r p) (generation s) (filter (\<lambda>e. hand_object e \<noteq> x) (hand_knowledge s obs p))"
    if "valid_player obs" "valid_player p" for obs p
    using knowledge_invD(3)[OF ki that] by (auto simp: hand_facts_true_def hnd)
  ultimately have "knowledge_inv (forget_hand_object x ?r)"
    using lk by (intro knowledge_invI) (simp_all add: zones_ok_def generation_objects[of "forget_hand_object x ?r" s] obj hk)
  moreover have "absent x (forget_hand_object x ?r)"
    using nl nh by (auto simp: absent_def lib hnd)
  ultimately show ?thesis by (simp add: taken_out_def obj lib hnd)
qed

section \<open>Moving a card\<close>

lemma note_library_insertion_fields [simp]:
  "library (note_library_insertion own pos s) = library s" "hand (note_library_insertion own pos s) = hand s"
  "objects (note_library_insertion own pos s) = objects s" "rest (note_library_insertion own pos s) = rest s"
  "hand_knowledge (note_library_insertion own pos s) = hand_knowledge s"
  "library_knowledge (note_library_insertion own pos s) obs own' =
     (if valid_player obs \<and> own' = own then insertion_shift pos (library_knowledge s obs own)
      else library_knowledge s obs own')"
  by (simp_all add: note_library_insertion_def)

lemma new_incarnation_fields [simp]:
  "library (new_incarnation x z s) = library s" "hand (new_incarnation x z s) = hand s"
  "hand_knowledge (new_incarnation x z s) = hand_knowledge s"
  "library_knowledge (new_incarnation x z s) = library_knowledge s"
  "length (items (objects (new_incarnation x z s))) = length (items (objects s))"
  by (simp_all add: new_incarnation_def)

lemma new_incarnation_object:
  assumes "unat (object_raw x) < length (items (objects s))"
  shows "object_get (new_incarnation x z s) y =
    (if y = x then (object_get s x)\<lparr>zone := z, zone_change_count := generation s x + 1\<rparr> else object_get s y)"
  using assms ObjectId.expand[of y x]
  by (auto simp: new_incarnation_def object_get_def nth_list_update word_unat_eq_iff)

lemma new_incarnation_generation:
  assumes "unat (object_raw x) < length (items (objects s))"
  shows "generation (new_incarnation x z s) y = (if y = x then generation s x + 1 else generation s y)"
  by (simp add: generation_def new_incarnation_object[OF assms])

lemma insert_position_le: "insert_position placement n \<le> n"
  by (auto simp: insert_position_def split: LibraryPlacement.splits)

text \<open>Where the card is after it entered its new zone.\<close>

definition put_in :: "PlayerId \<Rightarrow> ObjectId \<Rightarrow> Zone \<Rightarrow> LibraryPlacement \<Rightarrow> 'r GameState \<Rightarrow> 'r GameState \<Rightarrow> bool" where
  "put_in own x z placement s t \<longleftrightarrow>
     cards_inv t \<and> generation t x = generation s x + 1 \<and> zone (object_get t x) = z \<and>
     owner (object_get t x) = owner (object_get s x) \<and>
     (\<forall>y. y \<noteq> x \<longrightarrow> object_get t y = object_get s y) \<and>
     library t = (if z = Library
       then (let lib = library s own; pos = insert_position placement (length lib)
             in (library s)(own := take pos lib @ x # drop pos lib))
       else library s) \<and>
     hand t = (if z = Hand then (hand s)(own := hand s own @ [x]) else hand s) \<and>
     length (items (objects t)) = length (items (objects s))"

lemma insert_put_in:
  assumes ki: "knowledge_inv s" and ab: "absent x s" and pl: "placed s"
    and own: "valid_player own" "owner (object_get s x) = own"
    and arena: "unat (object_raw x) < length (items (objects s))"
    and ins: "insert_into_zone own x z placement s = Some u"
  shows "put_in own x z placement s (new_incarnation x z u)"
proof -
  let ?t = "new_incarnation x z u"
  let ?lib = "\<lambda>p. library u p"
  let ?pos = "insert_position placement (length (library s own))"
  have obj: "objects u = objects s"
    using ins by (auto simp: insert_into_zone_def Let_def split: Zone.splits)
  have lib: "library u = (if z = Library
      then (library s)(own := take ?pos (library s own) @ x # drop ?pos (library s own)) else library s)"
    and hnd: "hand u = (if z = Hand then (hand s)(own := hand s own @ [x]) else hand s)"
    and hk: "hand_knowledge u = hand_knowledge s"
    and lk: "library_knowledge u obs p = (if z = Library \<and> valid_player obs \<and> p = own
      then insertion_shift ?pos (library_knowledge s obs own) else library_knowledge s obs p)" for obs p
    using ins by (auto simp: insert_into_zone_def Let_def split: Zone.splits)
  have og: "object_get ?t y = (if y = x then (object_get s x)\<lparr>zone := z, zone_change_count := generation s x + 1\<rparr>
      else object_get s y)" for y
    using new_incarnation_object[of x u z y] arena obj
    by (simp add: object_get_objects[OF obj] generation_objects[OF obj])
  have gen: "generation ?t y = (if y = x then generation s x + 1 else generation s y)" for y
    using new_incarnation_generation[of x u z y] arena obj by (simp add: generation_objects[OF obj])
  have len: "length (items (objects ?t)) = length (items (objects s))" by (simp add: obj)
  have nl: "x \<notin> set (library s p)" "x \<notin> set (hand s p)" if "valid_player p" for p
    using ab that by (simp_all add: absent_def)
  have "facts_true (library ?t p) (generation ?t) (library_knowledge ?t obs p)"
    if v: "valid_player obs" "valid_player p" for obs p
  proof -
    have f: "facts_true (library s p) (generation ?t) (library_knowledge s obs p)"
      using knowledge_invD(2)[OF ki v] nl(1)[OF v(2)] by (auto simp: gen intro: facts_true_gen)
    show ?thesis
      using f facts_insertion[OF f, of ?pos x] insert_position_le v by (auto simp: lib lk)
  qed
  moreover have "hand_facts_true (hand ?t p) (generation ?t) (hand_knowledge ?t obs p)"
    if v: "valid_player obs" "valid_player p" for obs p
    using knowledge_invD(3)[OF ki v] ab v by (auto simp: hand_facts_true_def absent_def hnd hk gen)
  moreover have "zones_ok ?t"
  proof -
    have zo: "zones_ok s" by (rule knowledge_invD(1)[OF ki])
    have d: "distinct (take ?pos (library s own) @ x # drop ?pos (library s own))"
      using zones_okD(1)[OF zo own(1)] nl(1)[OF own(1)]
      by (simp add: set_take_disj_set_drop_if_distinct) (auto dest: in_set_takeD in_set_dropD)
    have st: "set (take ?pos (library s own) @ x # drop ?pos (library s own)) = insert x (set (library s own))"
      by (metis append_take_drop_id set_append Un_insert_right list.simps(15))
    show ?thesis
      using zo d st nl[of P0] nl[of P1] own(1) arena
      by (cases "own = P0") (auto simp: zones_ok_def lib hnd len obj valid_player_def)
  qed
  ultimately have "knowledge_inv ?t" by (intro knowledge_invI)
  moreover have "placed ?t"
  proof -
    have here: "owner (object_get ?t x) = own" "zone (object_get ?t x) = z"
      using own(2) unfolding og by simp_all
    have there: "object_get ?t y = object_get s y" if "y \<noteq> x" for y using that by (simp only: og if_False)
    have "owner (object_get ?t y) = p \<and> zone (object_get ?t y) = Library"
      if v: "valid_player p" and y: "y \<in> set (library ?t p)" for p y
    proof (cases "y = x")
      case True
      then have "p = own \<and> z = Library"
        using y nl(1)[OF v] by (auto simp: lib split: if_splits)
      then show ?thesis using here True by simp
    next
      case False
      then have "y \<in> set (library s p)"
        using y by (auto simp: lib split: if_splits dest: in_set_takeD in_set_dropD)
      then show ?thesis using placedD(1)[OF pl v] there[OF False] by simp
    qed
    moreover have "owner (object_get ?t y) = p \<and> zone (object_get ?t y) = Hand"
      if v: "valid_player p" and y: "y \<in> set (hand ?t p)" for p y
    proof (cases "y = x")
      case True
      then have "p = own \<and> z = Hand"
        using y nl(2)[OF v] by (auto simp: hnd split: if_splits)
      then show ?thesis using here True by simp
    next
      case False
      then have "y \<in> set (hand s p)" using y by (auto simp: hnd split: if_splits)
      then show ?thesis using placedD(2)[OF pl v] there[OF False] by simp
    qed
    ultimately show ?thesis unfolding placed_def by blast
  qed
  ultimately have inv: "cards_inv ?t" by (simp add: cards_inv_def)
  have "owner (object_get ?t x) = owner (object_get s x)" "zone (object_get ?t x) = z"
    "\<forall>y. y \<noteq> x \<longrightarrow> object_get ?t y = object_get s y"
    by (simp_all only: og if_True if_False CardObject.simps CardObject.update_convs) simp_all
  moreover have "generation ?t x = generation s x + 1" unfolding gen by simp
  moreover have "library ?t = library u" "hand ?t = hand u" by simp_all
  ultimately show ?thesis
    unfolding put_in_def Let_def using inv len lib hnd by presburger
qed

lemma inv_congs:
  assumes "library t = library s" "hand t = hand s" "objects t = objects s"
  shows "placed t = placed s"
    and "library_knowledge t = library_knowledge s \<Longrightarrow> hand_knowledge t = hand_knowledge s \<Longrightarrow>
      knowledge_inv t = knowledge_inv s"
  using assms
  by (simp_all add: placed_def knowledge_inv_def zones_ok_def object_get_objects[OF assms(3)]
      generation_objects[OF assms(3)])

lemma taken_out_rest: "taken_out own x s (t\<lparr>rest := r\<rparr>) = taken_out own x s t"
proof -
  have "knowledge_inv (t\<lparr>rest := r\<rparr>) = knowledge_inv t" by (rule inv_congs) simp_all
  moreover have "absent x (t\<lparr>rest := r\<rparr>) = absent x t" by (simp add: absent_def)
  ultimately show ?thesis by (simp add: taken_out_def del: fun_upd_apply)
qed

text \<open>A card that is in no library is in no library fact.\<close>

lemma absent_library_fact:
  assumes "knowledge_inv s" "absent x s" "valid_player obs" "valid_player p" "e \<in> set (library_knowledge s obs p)"
  shows "known_object e \<noteq> x"
proof -
  have "position e < length (library s p)" "library s p ! position e = known_object e"
    using knowledge_invD(2)[OF assms(1,3,4)] assms(5) by (auto simp: facts_true_def)
  then show ?thesis using assms(2,4) nth_mem[of "position e" "library s p"] by (auto simp: absent_def)
qed

definition knows_library :: "'r GameState \<Rightarrow> PlayerId \<Rightarrow> PlayerId \<Rightarrow> ObjectId \<Rightarrow> bool" where
  "knows_library s obs own x \<longleftrightarrow> x \<in> known_object ` set (library_knowledge s obs own)"

definition knows_hand :: "'r GameState \<Rightarrow> PlayerId \<Rightarrow> PlayerId \<Rightarrow> ObjectId \<Rightarrow> bool" where
  "knows_hand s obs own x \<longleftrightarrow> x \<in> hand_object ` set (hand_knowledge s obs own)"

lemma reveal_position_Some:
  assumes "reveal_library_position obs own pos s = Some t"
  shows "library t = library s" "hand t = hand s" "objects t = objects s" "hand_knowledge t = hand_knowledge s"
    "knows_library t obs own (library s own ! pos)"
    "obs' \<noteq> obs \<Longrightarrow> library_knowledge t obs' = library_knowledge s obs'"
  using assms
  by (auto simp: reveal_library_position_def knows_library_def Let_def fun_eq_iff split: if_splits)

lemma reveal_position_cards_inv:
  assumes "cards_inv s" "valid_player obs" "valid_player own" "reveal_library_position obs own pos s = Some t"
  shows "cards_inv t"
  using assms reveal_library_position_inv[OF _ assms(2-4)] inv_congs(1)[OF reveal_position_Some(1-3)[OF assms(4)]]
  by (simp add: cards_inv_def)

lemma reveal_hand_Some:
  assumes "reveal_hand_card obs own x s = (Inr u, t)"
  shows "library t = library s" "hand t = hand s" "objects t = objects s"
    "library_knowledge t = library_knowledge s"
    "obs' \<noteq> obs \<Longrightarrow> hand_knowledge t obs' = hand_knowledge s obs'"
    "obs = own \<Longrightarrow> t = s" "obs \<noteq> own \<Longrightarrow> knows_hand t obs own x"
  using assms
  by (auto simp: reveal_hand_card_def knows_hand_def add_hand_fact_def list_ex_iff Let_def fun_eq_iff
      split: option.splits if_splits)

lemma reveal_hand_ok:
  assumes "arena_try_get (objects s) x = Some ob" "valid_player own" "x \<in> set (hand s own)" "owner ob = own" "zone ob = Hand"
  shows "\<exists>t. reveal_hand_card obs own x s = (Inr (), t)"
  using assms by (cases "obs = own") (simp_all add: reveal_hand_card_def Let_def)

lemma reveal_hand_cards_inv:
  assumes "cards_inv s" "valid_player obs" "valid_player own" "reveal_hand_card obs own x s = (Inr u, t)"
  shows "cards_inv t"
  using assms reveal_hand_card_inv[OF _ assms(2-4)] inv_congs(1)[OF reveal_hand_Some(1-3)[OF assms(4)]]
  by (simp add: cards_inv_def)

section \<open>Who learns what\<close>

text \<open>Going from one state to the other, no player learns a fact about any other card.\<close>

definition learns_only :: "ObjectId \<Rightarrow> 'r GameState \<Rightarrow> 'r GameState \<Rightarrow> bool" where
  "learns_only x s t \<longleftrightarrow>
     (\<forall>obs own y. y \<noteq> x \<longrightarrow>
        (knows_library t obs own y \<longrightarrow> knows_library s obs own y) \<and>
        (knows_hand t obs own y \<longrightarrow> knows_hand s obs own y))"

lemma learns_only_trans: "learns_only x s t \<Longrightarrow> learns_only x t u \<Longrightarrow> learns_only x s u"
  unfolding learns_only_def by blast

lemma learns_only_less:
  assumes "\<And>obs own. known_object ` set (library_knowledge t obs own) \<subseteq> known_object ` set (library_knowledge s obs own)"
    and "\<And>obs own. hand_object ` set (hand_knowledge t obs own) \<subseteq> hand_object ` set (hand_knowledge s obs own)"
  shows "learns_only x s t"
  using assms unfolding learns_only_def knows_library_def knows_hand_def by blast

lemma shift_objects:
  "known_object ` set (removal_shift pos es) \<subseteq> known_object ` set es"
  "known_object ` set (insertion_shift pos es) = known_object ` set es"
proof -
  have "map known_object (insertion_shift pos es) = map known_object es" by (simp add: insertion_shift_def)
  then show "known_object ` set (insertion_shift pos es) = known_object ` set es" by (metis list.set_map)
qed (auto simp: removal_shift_def)

lemma remove_learns: "learns_only x s (forget_hand_object x (remove_from_zone own x z s))"
proof (rule learns_only_less)
  fix obs p
  show "known_object ` set (library_knowledge (forget_hand_object x (remove_from_zone own x z s)) obs p)
      \<subseteq> known_object ` set (library_knowledge s obs p)"
    by (auto simp: remove_from_zone_def Let_def split: Zone.splits option.splits dest!: subsetD[OF shift_objects(1)])
  show "hand_object ` set (hand_knowledge (forget_hand_object x (remove_from_zone own x z s)) obs p)
      \<subseteq> hand_object ` set (hand_knowledge s obs p)"
    by (auto simp: forget_hand_object_def each_observer_def set_hand_known_def remove_from_zone_def Let_def
        split: Zone.splits option.splits if_splits)
qed

lemma insert_learns:
  assumes "insert_into_zone own x z placement s = Some u"
  shows "knows_library (new_incarnation x z u) obs p y = knows_library s obs p y"
    "knows_hand (new_incarnation x z u) obs p y = knows_hand s obs p y"
    "learns_only y s (new_incarnation x z u)"
proof -
  have "known_object ` set (library_knowledge u obs p) = known_object ` set (library_knowledge s obs p)" for obs p
    using assms
    by (cases z) (simp_all add: insert_into_zone_def Let_def, (drule sym, simp add: shift_objects(2))+)
  moreover have "hand_knowledge u = hand_knowledge s"
    using assms by (auto simp: insert_into_zone_def Let_def split: Zone.splits)
  ultimately show k: "knows_library (new_incarnation x z u) obs p y = knows_library s obs p y"
    "knows_hand (new_incarnation x z u) obs p y = knows_hand s obs p y" for obs p y
    by (simp_all add: knows_library_def knows_hand_def)
  show "learns_only y s (new_incarnation x z u)" by (simp add: learns_only_def k)
qed

lemma reveal_position_learns:
  assumes "reveal_library_position obs own pos s = Some t" "library s own ! pos = x"
  shows "learns_only x s t" "knows_hand t obs' p y = knows_hand s obs' p y"
    "knows_library t obs' own x = (obs' = obs \<or> knows_library s obs' own x)"
  using assms
  by (auto simp: reveal_library_position_def learns_only_def knows_library_def knows_hand_def Let_def
      split: if_splits)

lemma reveal_hand_learns:
  assumes "reveal_hand_card obs own x s = (Inr v, t)"
  shows "learns_only x s t" "knows_library t obs' p y = knows_library s obs' p y"
    "knows_hand t obs' own x = (obs' = obs \<and> obs \<noteq> own \<or> knows_hand s obs' own x)"
  using assms
  by (auto simp: reveal_hand_card_def add_hand_fact_def learns_only_def knows_library_def knows_hand_def Let_def
      list_ex_iff split: if_splits option.splits)

section \<open>The whole move\<close>

lemma learns_only_refl [simp]: "learns_only x s s"
  by (simp add: learns_only_def)

lemma learns_only_rest: "learns_only x s (t\<lparr>rest := r\<rparr>) = learns_only x s t"
  by (simp add: learns_only_def knows_library_def knows_hand_def)

lemma taken_out_placed: "placed s \<Longrightarrow> taken_out own x s t \<Longrightarrow> placed t"
  by (auto simp: placed_def taken_out_def object_get_def)

lemma taken_out_unknown:
  assumes "taken_out own x s t" "valid_player obs" "valid_player p"
  shows "\<not> knows_library t obs p x" "\<not> knows_hand t obs p x"
proof -
  have "knowledge_inv t" and ab: "absent x t" using assms(1) by (simp_all add: taken_out_def)
  then show "\<not> knows_library t obs p x"
    using absent_library_fact[of t x obs p] assms(2,3) by (auto simp: knows_library_def)
  show "\<not> knows_hand t obs p x" using ab assms(2,3) by (auto simp: knows_hand_def absent_def)
qed

text \<open>The state in which the moved card has entered its new zone, before anything is published.\<close>

definition entered ::
  "(ObjectId \<Rightarrow> Zone \<Rightarrow> Zone \<Rightarrow> 'r \<Rightarrow> 'r) \<Rightarrow> ObjectId \<Rightarrow> Zone \<Rightarrow> LibraryPlacement \<Rightarrow> 'r GameState
    \<Rightarrow> 'r GameState option" where
  "entered move x z placement s =
     (let own = owner (object_get s x); from_zone = zone (object_get s x);
          taken = forget_hand_object x (remove_from_zone own x from_zone s)
      in map_option (new_incarnation x z)
           (insert_into_zone own x z placement (taken\<lparr>rest := move x from_zone z (rest taken)\<rparr>)))"

definition moved :: "ObjectId \<Rightarrow> Zone \<Rightarrow> LibraryPlacement \<Rightarrow> 'r GameState \<Rightarrow> 'r GameState \<Rightarrow> bool" where
  "moved x z placement s t \<longleftrightarrow>
     (let own = owner (object_get s x); lib = drop_from x (library s own);
          pos = insert_position placement (length lib); cards = drop_from x (hand s own)
      in cards_inv t \<and> generation t x = generation s x + 1 \<and> zone (object_get t x) = z \<and>
         owner (object_get t x) = own \<and> (\<forall>y. y \<noteq> x \<longrightarrow> object_get t y = object_get s y) \<and>
         library t = (library s)(own := if z = Library then take pos lib @ x # drop pos lib else lib) \<and>
         hand t = (hand s)(own := if z = Hand then cards @ [x] else cards) \<and>
         length (items (objects t)) = length (items (objects s)))"

lemma moved_cong:
  assumes "moved x z placement s t" "cards_inv u" "library u = library t" "hand u = hand t" "objects u = objects t"
  shows "moved x z placement s u"
  using assms by (simp add: moved_def Let_def object_get_objects[OF assms(5)] generation_objects[OF assms(5)] del: fun_upd_apply)

lemma entered_moved:
  assumes inv: "cards_inv s" and arena: "unat (object_raw x) < length (items (objects s))"
    and own: "valid_player (owner (object_get s x))" and z: "z \<noteq> Stack"
  obtains t where "entered move x z placement s = Some t" "moved x z placement s t" "learns_only x s t"
    "\<And>obs p. valid_player obs \<Longrightarrow> valid_player p \<Longrightarrow> \<not> knows_library t obs p x \<and> \<not> knows_hand t obs p x"
proof -
  let ?own = "owner (object_get s x)"
  let ?taken = "forget_hand_object x (remove_from_zone ?own x (zone (object_get s x)) s)"
  define sa where "sa = ?taken\<lparr>rest := move x (zone (object_get s x)) z (rest ?taken)\<rparr>"
  have tk: "taken_out ?own x s sa"
    using remove_from_zone_taken[OF inv refl own refl] by (simp add: sa_def taken_out_rest)
  then have obj: "objects sa = objects s" and kin: "knowledge_inv sa" and ab: "absent x sa"
    by (simp_all add: taken_out_def)
  obtain u where u: "insert_into_zone ?own x z placement sa = Some u"
    using z by (cases z) (auto simp: insert_into_zone_def Let_def)
  have pl: "placed sa" using inv tk taken_out_placed by (auto simp: cards_inv_def)
  have pi: "put_in ?own x z placement sa (new_incarnation x z u)"
    using insert_put_in[OF kin ab pl own _ _ u] arena by (simp add: obj object_get_objects[OF obj])
  show thesis
  proof (rule that)
    show "entered move x z placement s = Some (new_incarnation x z u)"
      using u by (simp add: entered_def Let_def sa_def)
    show "moved x z placement s (new_incarnation x z u)"
      using pi tk unfolding put_in_def moved_def taken_out_def
      by (cases "z = Library"; cases "z = Hand") (simp_all add: Let_def object_get_objects[OF obj] generation_objects[OF obj])
    have "learns_only x s sa" by (simp add: sa_def learns_only_rest remove_learns)
    then show "learns_only x s (new_incarnation x z u)"
      using insert_learns(3)[OF u] by (rule learns_only_trans)
    show "\<not> knows_library (new_incarnation x z u) obs p x \<and> \<not> knows_hand (new_incarnation x z u) obs p x"
      if "valid_player obs" "valid_player p" for obs p
      using taken_out_unknown[OF tk that] by (simp add: insert_learns(1,2)[OF u])
  qed
qed

lemma materialize_entered:
  assumes "arena_try_get (objects s) x = Some ob" "entered move x z placement s = Some t"
  shows "materialize_zone_change_v1 move x z placement preserve vis s =
    (if z = Library then publish_library_insert (owner ob) x vis t
     else if z = Hand then
       (let tell = (\<lambda>obs. zone ob \<noteq> Library \<or> preserve \<and> informed s (owner ob) x obs)
        in reveal_hand_to (tell P1) P1 (owner ob) x (reveal_hand_to (tell P0) P0 (owner ob) x (Some t)))
     else Some t)"
proof -
  have "object_get s x = ob" using assms(1) by (auto simp: arena_try_get_def object_get_def split: if_splits)
  then show ?thesis
    using assms by (auto simp: materialize_zone_change_v1_def entered_def Let_def)
qed

text \<open>The two ways of publishing: what they leave alone and whom they tell.\<close>

definition published ::
  "ObjectId \<Rightarrow> PlayerId \<Rightarrow> Zone \<Rightarrow> (PlayerId \<Rightarrow> bool) \<Rightarrow> 'r GameState \<Rightarrow> 'r GameState \<Rightarrow> bool" where
  "published x own z told t u \<longleftrightarrow>
     cards_inv u \<and> library u = library t \<and> hand u = hand t \<and> objects u = objects t \<and> learns_only x t u \<and>
     (\<forall>obs. knows_library u obs own x = (z = Library \<and> told obs \<or> knows_library t obs own x)) \<and>
     (\<forall>obs. knows_hand u obs own x = (z = Hand \<and> obs \<noteq> own \<and> told obs \<or> knows_hand t obs own x))"

lemma published_refl: "cards_inv t \<Longrightarrow> published x own z (\<lambda>_. False) t t"
  by (simp add: published_def)

lemma published_trans:
  assumes "published x own z f t u" "published x own z g u v"
  shows "published x own z (\<lambda>obs. f obs \<or> g obs) t v"
  using assms learns_only_trans[of x t u v] by (auto simp: published_def)

lemma published_position:
  assumes "cards_inv t" "valid_player obs" "valid_player own" "pos < length (library t own)" "library t own ! pos = x"
  shows "\<exists>u. reveal_position_to obs own pos (Some t) = Some u \<and> published x own Library (\<lambda>q. q = obs) t u"
proof -
  obtain u where u: "reveal_library_position obs own pos t = Some u"
    using assms(4) by (auto simp: reveal_library_position_def Let_def)
  have "published x own Library (\<lambda>q. q = obs) t u"
    using reveal_position_cards_inv[OF assms(1-3) u] reveal_position_Some(1-3)[OF u] reveal_position_learns[OF u assms(5)]
    by (simp add: published_def)
  with u show ?thesis by (simp add: reveal_position_to_def)
qed

lemma published_hand:
  assumes "cards_inv t" "valid_player obs" "valid_player own" "unat (object_raw x) < length (items (objects t))"
    and "x \<in> set (hand t own)"
  shows "\<exists>u. reveal_hand_to told obs own x (Some t) = Some u \<and> published x own Hand (\<lambda>q. told \<and> q = obs) t u"
proof (cases told)
  case True
  have pl: "placed t" using assms(1) by (simp add: cards_inv_def)
  obtain u where u: "reveal_hand_card obs own x t = (Inr (), u)"
    using reveal_hand_ok[of t x "object_get t x" own obs] assms(3-5) placedD(2)[OF pl assms(3,5)]
    by (auto simp: arena_try_get_def object_get_def)
  have "published x own Hand (\<lambda>q. told \<and> q = obs) t u"
    using reveal_hand_cards_inv[OF assms(1-3) u] reveal_hand_Some(1-3)[OF u] reveal_hand_learns[OF u] True
    by (auto simp: published_def)
  with u True show ?thesis by (simp add: reveal_hand_to_def)
next
  case False
  then show ?thesis using assms(1) by (simp add: reveal_hand_to_def published_refl)
qed

lemma publish_library_insert_published:
  assumes inv: "cards_inv t" and own: "valid_player own" and x: "x \<in> set (library t own)"
  shows "\<exists>u. publish_library_insert own x vis t = Some u \<and>
    published x own Library (\<lambda>obs. vis = OwnerOnly \<and> obs = own \<or> vis = Public \<and> valid_player obs) t u"
proof -
  obtain pos where pos: "index_of x (library t own) = Some pos"
    using x index_of_None[of x "library t own"] by fastforce
  note at = index_of_Some[OF pos, THEN conjunct1] index_of_Some[OF pos, THEN conjunct2]
  show ?thesis
  proof (cases vis)
    case Hidden
    then show ?thesis using pos inv published_refl[OF inv, of x own Library] by (simp add: publish_library_insert_def)
  next
    case OwnerOnly
    then show ?thesis using pos published_position[OF inv own own at] by (simp add: publish_library_insert_def)
  next
    case Public
    have v: "valid_player P0" "valid_player P1" by (simp_all add: valid_player_def)
    obtain u where u: "reveal_position_to P0 own pos (Some t) = Some u" "published x own Library (\<lambda>q. q = P0) t u"
      using published_position[OF inv v(1) own at] by blast
    then have "cards_inv u" "library u = library t" by (simp_all add: published_def)
    then obtain w where w: "reveal_position_to P1 own pos (Some u) = Some w" "published x own Library (\<lambda>q. q = P1) u w"
      using published_position[OF _ v(2) own, of u pos x] at by auto
    have "(\<lambda>obs. obs = P0 \<or> obs = P1) = valid_player" by (auto simp: valid_player_def)
    then have "published x own Library valid_player t w" using published_trans[OF u(2) w(2)] by simp
    then show ?thesis using Public pos u(1) w(1) by (simp add: publish_library_insert_def)
  qed
qed

lemma reveal_hands_published:
  assumes inv: "cards_inv t" and own: "valid_player own" and x: "x \<in> set (hand t own)"
    and arena: "unat (object_raw x) < length (items (objects t))"
  shows "\<exists>u. reveal_hand_to (tell P1) P1 own x (reveal_hand_to (tell P0) P0 own x (Some t)) = Some u \<and>
    published x own Hand (\<lambda>obs. valid_player obs \<and> tell obs) t u"
proof -
  have v: "valid_player P0" "valid_player P1" by (simp_all add: valid_player_def)
  obtain u where u: "reveal_hand_to (tell P0) P0 own x (Some t) = Some u" "published x own Hand (\<lambda>q. tell P0 \<and> q = P0) t u"
    using published_hand[OF inv v(1) own arena x] by blast
  then have "cards_inv u" "hand u = hand t" "objects u = objects t" by (simp_all add: published_def)
  then obtain w where w: "reveal_hand_to (tell P1) P1 own x (Some u) = Some w" "published x own Hand (\<lambda>q. tell P1 \<and> q = P1) u w"
    using published_hand[OF _ v(2) own, of u x] x arena by auto
  have "(\<lambda>obs. tell P0 \<and> obs = P0 \<or> tell P1 \<and> obs = P1) = (\<lambda>obs. valid_player obs \<and> tell obs)"
    by (auto simp: valid_player_def)
  then have "published x own Hand (\<lambda>obs. valid_player obs \<and> tell obs) t w" using published_trans[OF u(2) w(2)] by simp
  then show ?thesis using u(1) w(1) by auto
qed

text \<open>Whom a zone change tells where the moved card is now.\<close>

definition tells :: "'r GameState \<Rightarrow> ObjectId \<Rightarrow> Zone \<Rightarrow> bool \<Rightarrow> LibraryInsertVisibility \<Rightarrow> PlayerId \<Rightarrow> bool" where
  "tells s x z preserve vis obs \<longleftrightarrow>
     (let own = owner (object_get s x) in
      if z = Library then vis = Public \<or> vis = OwnerOnly \<and> obs = own
      else z = Hand \<and> (zone (object_get s x) \<noteq> Library \<or> preserve \<and> informed s own x obs))"

lemma materialize_published:
  assumes inv: "cards_inv s" and ob: "arena_try_get (objects s) x = Some ob" and own: "valid_player (owner ob)"
    and z: "z \<noteq> Stack"
  obtains t u where "materialize_zone_change_v1 move x z placement preserve vis s = Some u"
    "moved x z placement s t" "learns_only x s t"
    "\<And>obs p. valid_player obs \<Longrightarrow> valid_player p \<Longrightarrow> \<not> knows_library t obs p x \<and> \<not> knows_hand t obs p x"
    "published x (owner ob) z (\<lambda>obs. valid_player obs \<and> tells s x z preserve vis obs) t u"
proof -
  have arena: "unat (object_raw x) < length (items (objects s))" and get: "object_get s x = ob"
    using ob by (auto simp: arena_try_get_def object_get_def split: if_splits)
  obtain t where t: "entered move x z placement s = Some t" "moved x z placement s t" "learns_only x s t"
    "\<And>obs p. valid_player obs \<Longrightarrow> valid_player p \<Longrightarrow> \<not> knows_library t obs p x \<and> \<not> knows_hand t obs p x"
    using entered_moved[OF inv arena _ z] own get by metis
  have invt: "cards_inv t" and len: "length (items (objects t)) = length (items (objects s))"
    and lib: "z = Library \<Longrightarrow> x \<in> set (library t (owner ob))" and hnd: "z = Hand \<Longrightarrow> x \<in> set (hand t (owner ob))"
    using t(2) by (auto simp: moved_def Let_def get)
  have "\<exists>u. materialize_zone_change_v1 move x z placement preserve vis s = Some u \<and>
      published x (owner ob) z (\<lambda>obs. valid_player obs \<and> tells s x z preserve vis obs) t u"
  proof (cases "z = Library \<or> z = Hand")
    case False
    have "published x (owner ob) z (\<lambda>obs. valid_player obs \<and> tells s x z preserve vis obs) t t"
      using False invt by (auto simp: published_def)
    then show ?thesis using False materialize_entered[OF ob t(1)] by simp
  next
    case zone: True
    show ?thesis
    proof (cases "z = Library")
      case True
      have "(\<lambda>obs. vis = OwnerOnly \<and> obs = owner ob \<or> vis = Public \<and> valid_player obs) =
          (\<lambda>obs. valid_player obs \<and> tells s x z preserve vis obs)"
        using True own by (auto simp: tells_def Let_def get)
      then show ?thesis
        using publish_library_insert_published[OF invt own lib[OF True], of vis] materialize_entered[OF ob t(1)] True
        by (auto simp: tells_def)
    next
      case False
      then have hand: "z = Hand" using zone by simp
      show ?thesis
        using reveal_hands_published[OF invt own hnd[OF hand], of "\<lambda>obs. zone ob \<noteq> Library \<or> preserve \<and> informed s (owner ob) x obs"]
          materialize_entered[OF ob t(1)] hand arena
        by (auto simp: tells_def Let_def get len)
    qed
  qed
  then show thesis using t that by blast
qed

lemma materialize_moved:
  assumes "cards_inv s" "arena_try_get (objects s) x = Some ob" "valid_player (owner ob)" "z \<noteq> Stack"
  shows "\<exists>u. materialize_zone_change_v1 move x z placement preserve vis s = Some u \<and> moved x z placement s u"
proof -
  obtain t u where m: "materialize_zone_change_v1 move x z placement preserve vis s = Some u" "moved x z placement s t"
    and p: "published x (owner ob) z (\<lambda>obs. valid_player obs \<and> tells s x z preserve vis obs) t u"
    using materialize_published[OF assms] by metis
  have "moved x z placement s u" using m(2) p by (auto intro: moved_cong simp: published_def)
  with m(1) show ?thesis by blast
qed


text \<open>C35. A zone change tells exactly the players it should. After a move into a library the card's
  new position is known to both players if the insertion is public, to the owner alone if it is
  owner-only, and to nobody if it is hidden. After a move into a hand the owner's opponent knows the
  card if it came from a zone other than the library, or if the move preserves knowledge and the
  opponent knew the library position in the card's previous incarnation; in every other case nobody
  does. No player learns anything about any other card.\<close>

theorem zone_change_tells_exactly:
  assumes "cards_inv s" "arena_try_get (objects s) x = Some ob" "valid_player (owner ob)" "z \<noteq> Stack"
    and "materialize_zone_change_v1 move x z placement preserve vis s = Some t" "valid_player obs"
  shows "(knows_library t obs (owner ob) x \<longleftrightarrow> z = Library \<and> (vis = Public \<or> vis = OwnerOnly \<and> obs = owner ob)) \<and>
    (knows_hand t obs (owner ob) x \<longleftrightarrow>
      z = Hand \<and> obs \<noteq> owner ob \<and> (zone ob \<noteq> Library \<or> preserve \<and> informed s (owner ob) x obs)) \<and>
    (\<forall>own y. y \<noteq> x \<and> knows_library t obs own y \<longrightarrow> knows_library s obs own y) \<and>
    (\<forall>own y. y \<noteq> x \<and> knows_hand t obs own y \<longrightarrow> knows_hand s obs own y)"
proof -
  obtain v u where u: "materialize_zone_change_v1 move x z placement preserve vis s = Some u"
    and "moved x z placement s v" and lv: "learns_only x s v" and pu: "published x (owner ob) z (\<lambda>obs. valid_player obs \<and> tells s x z preserve vis obs) v u"
    and nk: "\<And>obs p. valid_player obs \<Longrightarrow> valid_player p \<Longrightarrow> \<not> knows_library v obs p x \<and> \<not> knows_hand v obs p x"
    by (rule materialize_published[OF assms(1-4), of move placement preserve vis]) (rule that)
  have tu: "t = u" using u assms(5) by simp
  have get: "object_get s x = ob"
    using assms(2) by (auto simp: arena_try_get_def object_get_def split: if_splits)
  have "knows_library t obs (owner ob) x \<longleftrightarrow> z = Library \<and> (vis = Public \<or> vis = OwnerOnly \<and> obs = owner ob)"
    "knows_hand t obs (owner ob) x \<longleftrightarrow>
      z = Hand \<and> obs \<noteq> owner ob \<and> (zone ob \<noteq> Library \<or> preserve \<and> informed s (owner ob) x obs)"
    using pu nk[OF assms(6,3)] assms(6) unfolding tu by (auto simp: published_def tells_def Let_def get)
  moreover have "learns_only x s t" using lv pu learns_only_trans unfolding tu by (auto simp: published_def)
  ultimately show ?thesis unfolding learns_only_def by blast
qed

text \<open>The demo state of \<open>Library_Shuffle\<close>: P1 knows P0's second library card.\<close>

lemma demo_cards_inv: "cards_inv demo_state"
proof -
  have "placed demo_state"
    by (simp add: placed_def valid_player_def demo_state_def demo_object_def object_get_def)
  then show ?thesis by (simp add: cards_inv_def demo_state_inv)
qed

lemma demo_second_card:
  "arena_try_get (objects demo_state) (ObjectId 1) = Some (demo_object P0 Library)"
  "valid_player (owner (demo_object P0 Library))" "zone (demo_object P0 Library) = Library"
  by (simp_all add: demo_state_def arena_try_get_def demo_object_def valid_player_def)


theorem zone_change_tells_exactly_witness:
  "\<exists>t. materialize_zone_change_v1 (\<lambda>_ _ _ u. u) (ObjectId 1) Hand Top True Hidden demo_state = Some t \<and>
    knows_hand t P1 P0 (ObjectId 1) \<and> \<not> knows_library t P1 P0 (ObjectId 1)"
proof -
  obtain t where t: "materialize_zone_change_v1 (\<lambda>_ _ _ u. u) (ObjectId 1) Hand Top True Hidden demo_state = Some t"
    by (rule materialize_published[OF demo_cards_inv demo_second_card(1,2), of Hand]) auto
  have "informed demo_state P0 (ObjectId 1) P1"
    by (simp add: informed_def demo_state_def demo_object_def generation_def object_get_def)
  then show ?thesis
    using zone_change_tells_exactly[OF demo_cards_inv demo_second_card(1,2) _ t, of P1] t
    by (auto simp: demo_object_def valid_player_def)
qed

end
