(* ===== verification/London_Mulligan.thy ===== *)
theory London_Mulligan
  imports Zone_Change
begin

text \<open>
  \<^verbatim>\<open>mtg-kernel/src/london_mulligan_v1.rs\<close>: the London mulligan procedure before the first turn.
  Each round collects the announcement of every player who has not kept, redraws the hands of
  those who mulligan, and lets each of them put as many cards on the bottom as mulligans taken.
  \<open>drain_mulligans\<close> (\<^verbatim>\<open>drain_or_decide\<close>) runs the procedure up to the next decision and \<open>answer\<close> applies one.

  Arrays indexed by a player are functions. The events the procedure proposes (a card to the
  library, a draw) are committed as \<open>materialize_zone_change_v1\<close> and \<open>draw_card\<close> do; no
  replacement effect is in play before the first turn. A panic of such an event is \<open>EventPanic\<close>.
  The Serum Powder branches belong to the cargo feature \<^verbatim>\<open>eternal-fixtures\<close>, which is off.
\<close>

section \<open>Data\<close>

datatype StageV1 =
    Announce u8
  | Bottoming u8 u8
  | Complete

record LondonMulligansV1 =
  mul_starting :: PlayerId
  counts :: "PlayerId \<Rightarrow> u8"
  kept :: "PlayerId \<Rightarrow> bool"
  mulligan_this_round :: "PlayerId \<Rightarrow> bool"
  hands :: "PlayerId \<Rightarrow> ObjectLinkV4 list"
  stage :: StageV1

text \<open>The fields of the game state the procedure reads besides those of \<open>GameState\<close>.\<close>

record 'r PregameState =
  game :: "'r GameState"
  first_player :: PlayerId
  turn :: u32
  step :: Step
  active_player :: PlayerId
  stack_items :: "ObjectId list"
  exile_cards :: "ObjectId list"
  command_cards :: "ObjectId list"
  battlefield_cards :: "PlayerId \<Rightarrow> ObjectId list"
  has_lost :: "PlayerId \<Rightarrow> bool"
  london_mulligans_v1 :: "LondonMulligansV1 option"

datatype MulliganError =
    NotFreshDeal
  | NonePending
  | InvalidContinuation
  | HandMismatch
  | MulliganShuffleFailed LibraryShuffleError
  | InvalidStage
  | CannotMulligan
  | NotInActingHand
  | WrongAnswer
  | KeepsNotFinished
  | EventPanic

datatype MulliganDecision =
    ChooseLondonMulligan PlayerId u8
  | ChooseLondonBottom PlayerId u8 "ObjectId list"

datatype MulliganAction =
    AnswerMulligan bool
  | AnswerBottom ObjectId
  | OtherAction

definition HAND_SIZE :: nat where
  "HAND_SIZE = 7"

definition is_complete :: "LondonMulligansV1 \<Rightarrow> bool" where
  "is_complete l \<longleftrightarrow> stage l = Complete"

definition mulligan_player :: "LondonMulligansV1 \<Rightarrow> u8 \<Rightarrow> PlayerId" where
  "mulligan_player l index = (if index = 0 then mul_starting l else opponent (mul_starting l))"

definition hand_bindings :: "'r GameState \<Rightarrow> PlayerId \<Rightarrow> ObjectLinkV4 list" where
  "hand_bindings s p = map (\<lambda>x. \<lparr>link_object = x, link_generation = generation s x\<rparr>) (hand s p)"

definition enable_london_mulligans_v1 ::
  "'r PregameState \<Rightarrow> (unit, MulliganError) result \<times> 'r PregameState" where
  "enable_london_mulligans_v1 s =
     (if london_mulligans_v1 s \<noteq> None \<or> \<not> valid_player (first_player s) \<or> turn s \<noteq> 1 \<or> step s \<noteq> Untap \<or>
         active_player s \<noteq> first_player s \<or> stack_items s \<noteq> [] \<or> exile_cards s \<noteq> [] \<or> command_cards s \<noteq> [] \<or>
         list_ex (\<lambda>p. length (hand (game s) p) \<noteq> HAND_SIZE \<or> battlefield_cards s p \<noteq> [] \<or>
                      graveyard_cards (game s) p \<noteq> [] \<or> has_lost s p) [P0, P1]
      then (Inl NotFreshDeal, s)
      else (Inr (), s\<lparr>london_mulligans_v1 := Some
              \<lparr>mul_starting = first_player s, counts = (\<lambda>_. 0), kept = (\<lambda>_. False),
               mulligan_this_round = (\<lambda>_. False), hands = hand_bindings (game s), stage = Announce 0\<rparr>\<rparr>))"

definition has_pending :: "'r PregameState \<Rightarrow> bool" where
  "has_pending s \<longleftrightarrow> (case london_mulligans_v1 s of None \<Rightarrow> False | Some l \<Rightarrow> \<not> is_complete l)"

definition binding_matches :: "'r GameState \<Rightarrow> PlayerId \<Rightarrow> ObjectId \<times> ObjectLinkV4 \<Rightarrow> bool" where
  "binding_matches s p = (\<lambda>(x, b). x = link_object b \<and>
     (case arena_try_get (objects s) x of None \<Rightarrow> False
      | Some ob \<Rightarrow> zone ob = Hand \<and> owner ob = p \<and> zone_change_count ob = link_generation b))"

definition validate :: "'r PregameState \<Rightarrow> (unit, MulliganError) result" where
  "validate s =
     (case london_mulligans_v1 s of
        None \<Rightarrow> Inl NonePending
      | Some l \<Rightarrow>
          if mul_starting l \<noteq> first_player s \<or> \<not> valid_player (mul_starting l) \<or>
             list_ex (\<lambda>p. unat (counts l p) > HAND_SIZE) [P0, P1] \<or> step s \<noteq> Untap \<or> turn s \<noteq> 1
          then Inl InvalidContinuation
          else if list_all (\<lambda>p. length (hand (game s) p) = length (hands l p) \<and>
                     list_all (binding_matches (game s) p) (zip (hand (game s) p) (hands l p))) [P0, P1]
          then Inr () else Inl HandMismatch)"

section \<open>Running to the next decision\<close>

fun hand_to_library :: "(ObjectId \<Rightarrow> Zone \<Rightarrow> Zone \<Rightarrow> 'r \<Rightarrow> 'r) \<Rightarrow> ObjectId list \<Rightarrow> 'r GameState \<Rightarrow> 'r GameState option" where
  "hand_to_library zmove [] s = Some s"
| "hand_to_library zmove (x # xs) s =
     Option.bind (materialize_zone_change_v1 zmove x Library Top False Hidden s) (hand_to_library zmove xs)"

primrec draw_cards :: "(ObjectId \<Rightarrow> 'r \<Rightarrow> 'r) \<Rightarrow> nat \<Rightarrow> PlayerId \<Rightarrow> 'r GameState \<Rightarrow> 'r GameState" where
  "draw_cards dmove 0 p s = s"
| "draw_cards dmove (Suc n) p s = draw_cards dmove n p (snd (draw_card dmove p s))"

definition redraw ::
  "(u8 list \<Rightarrow> u8 list) \<Rightarrow> (ObjectId \<Rightarrow> 'r \<Rightarrow> 'r) \<Rightarrow> (ObjectId \<Rightarrow> Zone \<Rightarrow> Zone \<Rightarrow> 'r \<Rightarrow> 'r) \<Rightarrow> PlayerId
    \<Rightarrow> LondonMulligansV1 \<times> 'r GameState \<Rightarrow> (unit, MulliganError) result \<times> LondonMulligansV1 \<times> 'r GameState" where
  "redraw sha dmove zmove p = (\<lambda>(l, s).
     if \<not> mulligan_this_round l p then (Inr (), l, s)
     else
       (case hand_to_library zmove (hand s p) s of
          None \<Rightarrow> (Inl EventPanic, l, s)
        | Some s1 \<Rightarrow>
            (case shuffle_library sha p s1 of
               (Inl e, s2) \<Rightarrow> (Inl (MulliganShuffleFailed e), l, s2)
             | (Inr _, s2) \<Rightarrow>
                 (let s3 = draw_cards dmove HAND_SIZE p s2 in
                  (Inr (), l\<lparr>counts := (counts l)(p := counts l p + 1),
                             hands := (hands l)(p := hand_bindings s3 p)\<rparr>, s3)))))"

definition set_pregame :: "LondonMulligansV1 \<Rightarrow> 'r PregameState \<Rightarrow> 'r PregameState" where
  "set_pregame l s = s\<lparr>london_mulligans_v1 := Some l\<rparr>"

definition set_stage :: "StageV1 \<Rightarrow> LondonMulligansV1 \<Rightarrow> LondonMulligansV1" where
  "set_stage st l = l\<lparr>stage := st\<rparr>"

definition redraw_round ::
  "(u8 list \<Rightarrow> u8 list) \<Rightarrow> (ObjectId \<Rightarrow> 'r \<Rightarrow> 'r) \<Rightarrow> (ObjectId \<Rightarrow> Zone \<Rightarrow> Zone \<Rightarrow> 'r \<Rightarrow> 'r)
    \<Rightarrow> LondonMulligansV1 \<times> 'r GameState \<Rightarrow> (unit, MulliganError) result \<times> LondonMulligansV1 \<times> 'r GameState" where
  "redraw_round sha dmove zmove ls =
     (case redraw sha dmove zmove (mulligan_player (fst ls) 0) ls of
        (Inl e, ls1) \<Rightarrow> (Inl e, ls1)
      | (Inr _, ls1) \<Rightarrow> redraw sha dmove zmove (mulligan_player (fst ls) 1) ls1)"

datatype 's drain_flow =
    Continue 's
  | Return "(MulliganDecision option, MulliganError) result" 's

text \<open>One iteration of the loop of \<^verbatim>\<open>drain_or_decide\<close>.\<close>

definition drain_iteration ::
  "(u8 list \<Rightarrow> u8 list) \<Rightarrow> (ObjectId \<Rightarrow> 'r \<Rightarrow> 'r) \<Rightarrow> (ObjectId \<Rightarrow> Zone \<Rightarrow> Zone \<Rightarrow> 'r \<Rightarrow> 'r)
    \<Rightarrow> LondonMulligansV1 \<Rightarrow> 'r PregameState \<Rightarrow> 'r PregameState drain_flow" where
  "drain_iteration sha dmove zmove l s =
     (case stage l of
        Announce next \<Rightarrow>
          if next < 2 then
            (let p = mulligan_player l next in
             if kept l p \<or> unat (counts l p) = HAND_SIZE
             then Continue (set_pregame (set_stage (Announce (next + 1)) (l\<lparr>kept := (kept l)(p := True)\<rparr>)) s)
             else Return (Inr (Some (ChooseLondonMulligan p (counts l p)))) s)
          else if next = 2 then
            (if kept l P0 \<and> kept l P1 then Return (Inr None) (set_pregame (set_stage Complete l) s)
             else
               (case redraw_round sha dmove zmove (l, game s) of
                  (Inl e, l1, g) \<Rightarrow> Return (Inl e) (set_pregame l1 (s\<lparr>game := g\<rparr>))
                | (Inr _, l1, g) \<Rightarrow> Continue (set_pregame (set_stage (Bottoming 0 0) l1) (s\<lparr>game := g\<rparr>))))
          else Return (Inl InvalidStage) s
      | Bottoming next remaining \<Rightarrow>
          if next < 2 then
            (let p = mulligan_player l next in
             if \<not> mulligan_this_round l p
             then Continue (set_pregame (set_stage (Bottoming (next + 1) 0) l) s)
             else
               (let remaining1 = (if remaining = 0 then counts l p else remaining) in
                Return (Inr (Some (ChooseLondonBottom p remaining1 (hand (game s) p))))
                  (set_pregame (set_stage (Bottoming next remaining1) l) s)))
          else if next = 2
          then Continue (set_pregame (set_stage (Announce 0) (l\<lparr>mulligan_this_round := (\<lambda>_. False)\<rparr>)) s)
          else Return (Inl InvalidStage) s
      | Complete \<Rightarrow> Return (Inl InvalidStage) s)"

text \<open>The measure of the loop: a mulligan announced and not yet carried out leads through the
  bottoming stages back to the announcements, and there to a decision or to the end.\<close>

definition owes_round :: "LondonMulligansV1 \<Rightarrow> nat \<Rightarrow> bool" where
  "owes_round l k \<longleftrightarrow>
     0 < k \<and> \<not> kept l (mulligan_player l 0) \<or> 1 < k \<and> \<not> kept l (mulligan_player l 1)"

definition drain_rank :: "'r PregameState \<Rightarrow> nat" where
  "drain_rank s =
     (case london_mulligans_v1 s of
        None \<Rightarrow> 0
      | Some l \<Rightarrow>
          (case stage l of
             Announce next \<Rightarrow> (if owes_round l (unat next) then 100 - unat next else 10 - unat next)
           | Bottoming next _ \<Rightarrow> 50 - unat next
           | Complete \<Rightarrow> 0))"

lemma u8_less_2: "(k :: u8) < 2 \<longleftrightarrow> k = 0 \<or> k = 1"
proof -
  have "k < 2 \<longleftrightarrow> unat k < 2" by (simp add: word_less_nat_alt)
  then show ?thesis by (auto simp: less_2_cases_iff word_unat_eq_iff)
qed

lemma redraw_keeps:
  assumes "redraw sha dmove zmove p (l, s) = (r, l1, t)"
  shows "kept l1 = kept l" "mulligan_this_round l1 = mulligan_this_round l" "stage l1 = stage l"
    "mul_starting l1 = mul_starting l"
  using assms by (auto simp: redraw_def Let_def split: if_splits option.splits prod.splits sum.splits)

lemma redraw_round_keeps:
  assumes "redraw_round sha dmove zmove (l, s) = (r, l1, t)"
  shows "kept l1 = kept l \<and> mulligan_this_round l1 = mulligan_this_round l \<and> stage l1 = stage l \<and>
    mul_starting l1 = mul_starting l"
  using assms by (auto simp: redraw_round_def redraw_keeps split: prod.splits sum.splits)

lemma mulligan_player_more [simp]:
  "mulligan_player (l\<lparr>kept := k\<rparr>) = mulligan_player l" "mulligan_player (l\<lparr>mulligan_this_round := m\<rparr>) = mulligan_player l"
  "mulligan_player (l\<lparr>stage := st\<rparr>) = mulligan_player l" "mulligan_player (set_stage st l) = mulligan_player l"
  by (simp_all add: fun_eq_iff mulligan_player_def set_stage_def)

lemma set_pregame_fields [simp]:
  "london_mulligans_v1 (set_pregame l s) = Some l" "game (set_pregame l s) = game s"
  "first_player (set_pregame l s) = first_player s" "turn (set_pregame l s) = turn s" "step (set_pregame l s) = step s"
  by (simp_all add: set_pregame_def)

lemma set_stage_fields [simp]:
  "stage (set_stage st l) = st" "kept (set_stage st l) = kept l" "counts (set_stage st l) = counts l"
  "mulligan_this_round (set_stage st l) = mulligan_this_round l" "hands (set_stage st l) = hands l"
  "mul_starting (set_stage st l) = mul_starting l"
  by (simp_all add: set_stage_def)

lemma validateD:
  assumes "validate s = Inr u" "london_mulligans_v1 s = Some l"
  shows "valid_player (mul_starting l)" "mul_starting l = first_player s" "unat (counts l P0) \<le> 7" "unat (counts l P1) \<le> 7"
  using assms by (auto simp: validate_def HAND_SIZE_def split: if_splits)

lemma seats:
  assumes "valid_player (mul_starting l)"
  shows "mulligan_player l 0 \<noteq> mulligan_player l 1" "valid_player (mulligan_player l i)"
    "(\<forall>p. valid_player p \<longrightarrow> Q p) \<longleftrightarrow> Q (mulligan_player l 0) \<and> Q (mulligan_player l 1)"
  using assms by (auto simp: mulligan_player_def valid_player_def opponent_def P0_def P1_def)

lemma drain_iteration_rank:
  assumes l: "london_mulligans_v1 s = Some l" and v: "valid_player (mul_starting l)"
    and c: "drain_iteration sha dmove zmove l s = Continue t"
  shows "drain_rank t < drain_rank s"
proof (cases "stage l")
  case (Announce k)
  show ?thesis
  proof (cases "k < 2")
    case True
    then have n: "k = 0 \<or> k = 1" by (simp add: u8_less_2)
    then show ?thesis
      using c Announce l seats(1)[OF v]
      by (auto simp: drain_iteration_def drain_rank_def owes_round_def Let_def split: if_splits)
  next
    case False
    with c Announce have n: "k = 2" and nk: "\<not> (kept l P0 \<and> kept l P1)"
      by (auto simp: drain_iteration_def split: if_splits)
    have "owes_round l 2" using nk seats(3)[OF v, of "kept l"] by (auto simp: owes_round_def valid_player_def)
    then have "drain_rank s = 98" using l Announce n by (simp add: drain_rank_def)
    moreover have "drain_rank t = 50"
      using c Announce n nk by (auto simp: drain_iteration_def drain_rank_def split: if_splits prod.splits sum.splits)
    ultimately show ?thesis by simp
  qed
next
  case (Bottoming k rem)
  show ?thesis
  proof (cases "k < 2")
    case True
    then have n: "k = 0 \<or> k = 1" by (simp add: u8_less_2)
    then show ?thesis
      using c Bottoming l by (auto simp: drain_iteration_def drain_rank_def Let_def split: if_splits)
  next
    case False
    then show ?thesis
      using c Bottoming l by (auto simp: drain_iteration_def drain_rank_def owes_round_def split: if_splits)
  qed
next
  case Complete
  with c show ?thesis by (simp add: drain_iteration_def)
qed

function drain_mulligans ::
  "(u8 list \<Rightarrow> u8 list) \<Rightarrow> (ObjectId \<Rightarrow> 'r \<Rightarrow> 'r) \<Rightarrow> (ObjectId \<Rightarrow> Zone \<Rightarrow> Zone \<Rightarrow> 'r \<Rightarrow> 'r) \<Rightarrow> 'r PregameState
    \<Rightarrow> (MulliganDecision option, MulliganError) result \<times> 'r PregameState" where
  "drain_mulligans sha dmove zmove s =
     (if has_pending s then
        (case validate s of
           Inl e \<Rightarrow> (Inl e, s)
         | Inr _ \<Rightarrow>
             (case drain_iteration sha dmove zmove (the (london_mulligans_v1 s)) s of
                Return r t \<Rightarrow> (r, t)
              | Continue t \<Rightarrow> drain_mulligans sha dmove zmove t))
      else (Inr None, s))"
  by pat_completeness auto

termination
proof (relation "measure (\<lambda>(sha, dmove, zmove, s). drain_rank s)")
  show "wf (measure (\<lambda>(sha, dmove, zmove, s). drain_rank s))" by simp
next
  fix sha :: "u8 list \<Rightarrow> u8 list" and dmove :: "ObjectId \<Rightarrow> 'r \<Rightarrow> 'r" and zmove :: "ObjectId \<Rightarrow> Zone \<Rightarrow> Zone \<Rightarrow> 'r \<Rightarrow> 'r"
  fix s t :: "'r PregameState" and u
  assume a: "has_pending s" "validate s = Inr u"
    "drain_iteration sha dmove zmove (the (london_mulligans_v1 s)) s = Continue t"
  then obtain l where l: "london_mulligans_v1 s = Some l" by (auto simp: has_pending_def split: option.splits)
  show "((sha, dmove, zmove, t), (sha, dmove, zmove, s)) \<in> measure (\<lambda>(sha, dmove, zmove, s). drain_rank s)"
    using drain_iteration_rank[OF l validateD(1)[OF a(2) l]] a(3) l by simp
qed

declare drain_mulligans.simps [simp del]

section \<open>Answering a decision\<close>

definition mulligan_answer ::
  "(ObjectId \<Rightarrow> Zone \<Rightarrow> Zone \<Rightarrow> 'r \<Rightarrow> 'r) \<Rightarrow> MulliganAction \<Rightarrow> 'r PregameState
    \<Rightarrow> (unit, MulliganError) result \<times> 'r PregameState" where
  "mulligan_answer zmove act s =
     (case validate s of
        Inl e \<Rightarrow> (Inl e, s)
      | Inr _ \<Rightarrow>
          (let l = the (london_mulligans_v1 s) in
           case (stage l, act) of
             (Announce next, AnswerMulligan mulligan) \<Rightarrow>
               (if next < 2 then
                  (let p = mulligan_player l next in
                   if kept l p \<or> unat (counts l p) \<ge> HAND_SIZE then (Inl CannotMulligan, s)
                   else (Inr (), set_pregame (set_stage (Announce (next + 1))
                           (l\<lparr>kept := (kept l)(p := \<not> mulligan),
                              mulligan_this_round := (mulligan_this_round l)(p := mulligan)\<rparr>)) s))
                else (Inl WrongAnswer, s))
           | (Bottoming next remaining, AnswerBottom x) \<Rightarrow>
               (if next < 2 \<and> remaining > 0 then
                  (let p = mulligan_player l next in
                   if x \<notin> set (hand (game s) p) then (Inl NotInActingHand, s)
                   else
                     (case materialize_zone_change_v1 zmove x Library Bottom False OwnerOnly (game s) of
                        None \<Rightarrow> (Inl EventPanic, s)
                      | Some g \<Rightarrow>
                          (Inr (), set_pregame
                             (set_stage (if remaining = 1 then Bottoming (next + 1) 0 else Bottoming next (remaining - 1))
                                (l\<lparr>hands := (hands l)(p := hand_bindings g p)\<rparr>)) (s\<lparr>game := g\<rparr>))))
                else (Inl WrongAnswer, s))
           | _ \<Rightarrow> (Inl WrongAnswer, s)))"

definition kept_hands_for_opening_v1 ::
  "'r PregameState \<Rightarrow> ((PlayerId \<Rightarrow> ObjectLinkV4 list) option, MulliganError) result" where
  "kept_hands_for_opening_v1 s =
     (case london_mulligans_v1 s of
        None \<Rightarrow> Inr None
      | Some l \<Rightarrow>
          and_then (validate s) (\<lambda>_. if \<not> is_complete l then Inl KeepsNotFinished else Inr (Some (hands l))))"

section \<open>What the card movements keep\<close>

text \<open>The cards of one seat are moved between its library and its hand, and nothing else.\<close>

definition cards_of :: "'r GameState \<Rightarrow> PlayerId \<Rightarrow> ObjectId multiset" where
  "cards_of s p = mset (library s p) + mset (hand s p)"

definition rearranged :: "PlayerId \<Rightarrow> 'r GameState \<Rightarrow> 'r GameState \<Rightarrow> bool" where
  "rearranged p s t \<longleftrightarrow> cards_inv t \<and> cards_of t p = cards_of s p \<and>
     (\<forall>q. q \<noteq> p \<longrightarrow> library t q = library s q \<and> hand t q = hand s q) \<and>
     (\<forall>y. y \<notin># cards_of s p \<longrightarrow> object_get t y = object_get s y)"

lemma rearranged_trans: "rearranged p s t \<Longrightarrow> rearranged p t u \<Longrightarrow> rearranged p s u"
  by (simp add: rearranged_def)

lemma rearranged_refl: "cards_inv s \<Longrightarrow> rearranged p s s"
  by (simp add: rearranged_def)

lemma rearranged_other:
  assumes "cards_inv s" "rearranged p s t" "valid_player p" "valid_player q" "q \<noteq> p"
  shows "hand_bindings t q = hand_bindings s q" "hand t q = hand s q" "library t q = library s q"
    "cards_of t q = cards_of s q"
proof -
  have zo: "zones_ok s" using assms(1) by (simp add: cards_inv_def knowledge_inv_def)
  have "y \<notin># cards_of s p" if "y \<in> set (hand s q)" for y
    using zo assms(3-5) that by (auto simp: zones_ok_def valid_player_def cards_of_def)
  then have g: "generation t y = generation s y" if "y \<in> set (hand s q)" for y
    using assms(2) that by (simp add: rearranged_def generation_def)
  show h: "hand t q = hand s q" "library t q = library s q" using assms(2,5) by (simp_all add: rearranged_def)
  show "hand_bindings t q = hand_bindings s q" by (simp add: hand_bindings_def h g)
  show "cards_of t q = cards_of s q" by (simp add: cards_of_def h)
qed

lemma in_hand:
  assumes "cards_inv s" "valid_player p" "x \<in> set (hand s p)"
  shows "arena_try_get (objects s) x = Some (object_get s x)" "owner (object_get s x) = p" "zone (object_get s x) = Hand"
proof -
  have "zones_ok s" and pl: "placed s" using assms(1) by (simp_all add: cards_inv_def knowledge_inv_def)
  then have "unat (object_raw x) < length (items (objects s))"
    using assms(2,3) by (auto simp: zones_ok_def valid_player_def)
  then show "arena_try_get (objects s) x = Some (object_get s x)"
    by (simp add: arena_try_get_def object_get_def)
  show "owner (object_get s x) = p" "zone (object_get s x) = Hand" using placedD(2)[OF pl assms(2,3)] by simp_all
qed

lemma mset_drop_from: "distinct xs \<Longrightarrow> x \<in> set xs \<Longrightarrow> add_mset x (mset (drop_from x xs)) = mset xs"
  using drop_from_absent[of x]
  by (induction xs) (auto simp: drop_from_def simp flip: mset_filter)

lemma put_back:
  assumes inv: "cards_inv s" and p: "valid_player p" and x: "x \<in> set (hand s p)"
  shows "\<exists>t. materialize_zone_change_v1 move x Library placement preserve vis s = Some t \<and> rearranged p s t \<and>
    hand t p = drop_from x (hand s p)"
proof -
  note ih = in_hand[OF inv p x]
  obtain t where t: "materialize_zone_change_v1 move x Library placement preserve vis s = Some t"
    "moved x Library placement s t"
    using materialize_moved[OF inv ih(1), of Library move placement preserve vis] ih(2) p by auto
  have pl: "placed s" and zo: "zones_ok s" using inv by (simp_all add: cards_inv_def knowledge_inv_def)
  have "x \<notin> set (library s p)" using placedD(1)[OF pl p, of x] ih(3) by auto
  then have lib: "drop_from x (library s p) = library s p" by (rule drop_from_absent)
  have "mset (take k (library s p)) + mset (drop k (library s p)) = mset (library s p)" for k
    by (metis append_take_drop_id mset_append)
  then have "cards_of t p = cards_of s p"
    using t(2) mset_drop_from[OF zones_okD(2)[OF zo p] x]
    by (simp add: moved_def Let_def cards_of_def ih(2) lib)
  moreover have "x \<in># cards_of s p" using x by (simp add: cards_of_def)
  ultimately have "rearranged p s t"
    using t(2) by (auto simp: rearranged_def moved_def Let_def ih(2))
  moreover have "hand t p = drop_from x (hand s p)"
    using t(2) by (simp add: moved_def Let_def ih(2))
  ultimately show ?thesis using t(1) by blast
qed

lemma hand_to_library_rearranged:
  assumes "cards_inv s" "valid_player p" "distinct xs" "set xs \<subseteq> set (hand s p)"
  shows "\<exists>t. hand_to_library zmove xs s = Some t \<and> rearranged p s t \<and> set (hand t p) = set (hand s p) - set xs"
  using assms
proof (induction xs arbitrary: s)
  case Nil
  then show ?case by (simp add: rearranged_refl)
next
  case (Cons x xs)
  obtain t where t: "materialize_zone_change_v1 zmove x Library Top False Hidden s = Some t" "rearranged p s t"
    "hand t p = drop_from x (hand s p)"
    using put_back[OF Cons.prems(1,2), of x zmove Top False Hidden] Cons.prems(4) by auto
  have "cards_inv t" using t(2) by (simp add: rearranged_def)
  moreover have "set xs \<subseteq> set (hand t p)" using Cons.prems(3,4) by (auto simp: t(3))
  ultimately obtain u where "hand_to_library zmove xs t = Some u" "rearranged p t u" "set (hand u p) = set (hand t p) - set xs"
    using Cons.IH[of t] Cons.prems by auto
  then show ?case using t rearranged_trans[OF t(2)] by auto
qed

lemma shuffle_rearranged:
  assumes "cards_inv s" "valid_player p" "shuffle_library sha p s = (r, t)"
  shows "rearranged p s t \<and> hand t = hand s"
proof (cases "t = s")
  case True
  with assms(1) show ?thesis by (simp add: rearranged_refl)
next
  case False
  then have sf: "shuffled_from p s t" using shuffle_library_cases[OF assms(3)] by auto
  then obtain lib rnd where lib: "mset lib = mset (library s p)"
    and t: "t = clear_library_knowledge p ((set_library p lib s)\<lparr>randomness := rnd\<rparr>)"
    by (auto simp: shuffled_from_def)
  have obj: "objects t = objects s" "hand t = hand s" "library t = (library s)(p := lib)" by (simp_all add: t)
  have set: "set lib = set (library s p)" using lib by (metis set_mset_mset)
  have "knowledge_inv t" using shuffled_from_inv[OF _ sf] assms(1) by (simp add: cards_inv_def)
  moreover have "placed t"
    using assms(1) set by (simp add: cards_inv_def placed_def obj object_get_objects[OF obj(1)])
  ultimately show ?thesis
    using lib by (simp add: rearranged_def cards_inv_def cards_of_def obj object_get_objects[OF obj(1)])
qed

lemma draw_card_fields:
  assumes "library s p = x # lib" "draw_card move p s = (r, t)"
  shows "library t = (library s)(p := lib)" "hand t = (hand s)(p := hand s p @ [x])"
    "unat (object_raw x) < length (items (objects s)) \<Longrightarrow> object_get t y =
       (if y = x then (object_get s x)\<lparr>zone := Hand, zone_change_count := generation s x + 1\<rparr> else object_get s y)"
  using assms ObjectId.expand[of y x]
  by (auto simp: draw_card_def Let_def each_observer_def object_get_def generation_def nth_list_update word_unat_eq_iff)

lemma draw_card_rearranged:
  assumes inv: "cards_inv s" and p: "valid_player p" and lib: "library s p \<noteq> []"
  shows "rearranged p s (snd (draw_card move p s))"
    "length (hand (snd (draw_card move p s)) p) = Suc (length (hand s p))"
    "length (library (snd (draw_card move p s)) p) = length (library s p) - 1"
proof -
  obtain x xs where x: "library s p = x # xs" using lib by (cases "library s p") auto
  obtain r t where d: "draw_card move p s = (r, t)" by fastforce
  note f = draw_card_fields[OF x d]
  have ki: "knowledge_inv s" and pl: "placed s" and zo: "zones_ok s" using inv by (simp_all add: cards_inv_def knowledge_inv_def)
  have "unat (object_raw x) < length (items (objects s))"
    using zo p x by (auto simp: zones_ok_def valid_player_def)
  note og = f(3)[OF this]
  have own: "owner (object_get s x) = p" using placedD(1)[OF pl p, of x] x by simp
  have other: "y \<noteq> x" if "valid_player q" "y \<in> set (library t q) \<or> y \<in> set (hand s q)" for q y
    using zo p x that by (auto simp: f zones_ok_def valid_player_def split: if_splits)
  have "placed t"
    unfolding placed_def
  proof (intro allI impI conjI ballI)
    fix q y assume q: "valid_player q" and y: "y \<in> set (library t q)"
    have "y \<in> set (library s q)" using y x by (auto simp: f split: if_splits)
    then show "owner (object_get t y) = q" "zone (object_get t y) = Library"
      using placedD(1)[OF pl q] other[OF q] y by (simp_all add: og)
  next
    fix q y assume q: "valid_player q" and y: "y \<in> set (hand t q)"
    show "owner (object_get t y) = q" "zone (object_get t y) = Hand"
      using placedD(2)[OF pl q, of y] y own by (auto simp: og f split: if_splits)
  qed
  then have "cards_inv t" using draw_card_inv[OF ki p d] by (simp add: cards_inv_def)
  then have "rearranged p s t" by (auto simp: rearranged_def cards_of_def f x og)
  then show "rearranged p s (snd (draw_card move p s))"
    "length (hand (snd (draw_card move p s)) p) = Suc (length (hand s p))"
    "length (library (snd (draw_card move p s)) p) = length (library s p) - 1"
    by (simp_all add: d f x)
qed

lemma draw_cards_rearranged:
  assumes "cards_inv s" "valid_player p" "n \<le> length (library s p)"
  shows "rearranged p s (draw_cards dmove n p s) \<and> length (hand (draw_cards dmove n p s) p) = length (hand s p) + n"
  using assms
proof (induction n arbitrary: s)
  case 0
  then show ?case by (simp add: rearranged_refl)
next
  case (Suc n)
  have ne: "library s p \<noteq> []" using Suc.prems(3) by auto
  note d = draw_card_rearranged[OF Suc.prems(1,2) ne, of dmove]
  have "cards_inv (snd (draw_card dmove p s))" using d(1) by (simp add: rearranged_def)
  then show ?case
    using Suc.IH[of "snd (draw_card dmove p s)"] Suc.prems d rearranged_trans[OF d(1)] by auto
qed

lemma redraw_rearranged:
  assumes inv: "cards_inv s" and p: "valid_player p" and m: "mulligan_this_round l p" and n: "7 \<le> size (cards_of s p)"
  obtains (failed) d t where "redraw sha dmove zmove p (l, s) = (Inl (MulliganShuffleFailed d), l, t)" "rearranged p s t"
    | (redrawn) t where "redraw sha dmove zmove p (l, s) = (Inr (), l\<lparr>counts := (counts l)(p := counts l p + 1),
        hands := (hands l)(p := hand_bindings t p)\<rparr>, t)" "rearranged p s t" "length (hand t p) = 7"
proof -
  have zo: "zones_ok s" using inv by (simp add: cards_inv_def knowledge_inv_def)
  obtain a where a: "hand_to_library zmove (hand s p) s = Some a" "rearranged p s a" "set (hand a p) = {}"
    using hand_to_library_rearranged[OF inv p zones_okD(2)[OF zo p] order_refl, of zmove] by auto
  have inva: "cards_inv a" using a(2) by (simp add: rearranged_def)
  obtain r b where b: "shuffle_library sha p a = (r, b)" by fastforce
  note sh = shuffle_rearranged[OF inva p b]
  then have rb: "rearranged p s b" using rearranged_trans[OF a(2)] by simp
  show thesis
  proof (cases r)
    case (Inl d)
    then show ?thesis using failed[of d b] m a(1) b rb by (simp add: redraw_def)
  next
    case (Inr u)
    have "size (cards_of b p) = size (cards_of s p)" using rb by (simp add: rearranged_def)
    then have "7 \<le> length (library b p)" using n sh a(3) by (simp add: cards_of_def)
    then have "rearranged p b (draw_cards dmove 7 p b) \<and> length (hand (draw_cards dmove 7 p b) p) = 7"
      using draw_cards_rearranged[OF _ p, of b 7 dmove] rb sh a(3) by (simp add: rearranged_def)
    then show ?thesis
      using redrawn[of "draw_cards dmove 7 p b"] m a(1) b rb Inr rearranged_trans[OF rb]
      by (simp add: redraw_def HAND_SIZE_def Let_def)
  qed
qed

section \<open>The invariant of the procedure\<close>

definition decisions_from :: "nat \<Rightarrow> nat" where
  "decisions_from c = sum_list (map (\<lambda>j. j + 2) [c..<7])"

text \<open>Of seat \<open>i\<close> (0 for the starting player): how many cards it must hold, which flags go with the
  stage, and how many decisions it can still be asked for.\<close>

definition hand_due :: "LondonMulligansV1 \<Rightarrow> u8 \<Rightarrow> nat" where
  "hand_due l i =
     (let p = mulligan_player l i; c = unat (counts l p) in
      case stage l of
        Bottoming k r \<Rightarrow>
          if mulligan_this_round l p \<and> (k < i \<or> k = i \<and> r = 0) then 7
          else if k = i then 7 - c + unat r else 7 - c
      | _ \<Rightarrow> 7 - c)"

definition seat_flags :: "LondonMulligansV1 \<Rightarrow> u8 \<Rightarrow> bool" where
  "seat_flags l i \<longleftrightarrow>
     (let p = mulligan_player l i; c = unat (counts l p) in
      c \<le> 7 \<and>
      (case stage l of
         Announce k \<Rightarrow> k \<le> 2 \<and> (mulligan_this_round l p \<longrightarrow> i < k \<and> \<not> kept l p \<and> c < 7) \<and>
           (i < k \<longrightarrow> kept l p \<or> mulligan_this_round l p)
       | Bottoming k r \<Rightarrow> k \<le> 2 \<and> (mulligan_this_round l p \<longrightarrow> \<not> kept l p \<and> 1 \<le> c) \<and>
           (\<not> mulligan_this_round l p \<longrightarrow> kept l p) \<and> (k = i \<and> 0 < r \<longrightarrow> mulligan_this_round l p \<and> unat r \<le> c)
       | Complete \<Rightarrow> kept l p))"

definition seat_decisions :: "LondonMulligansV1 \<Rightarrow> u8 \<Rightarrow> nat" where
  "seat_decisions l i =
     (let p = mulligan_player l i; c = unat (counts l p) in
      case stage l of
        Announce k \<Rightarrow> if kept l p then 0
          else if mulligan_this_round l p then c + 1 + decisions_from (c + 1) else decisions_from c
      | Bottoming k r \<Rightarrow> if kept l p then 0
          else decisions_from c + (if k < i \<or> k = i \<and> r = 0 then c else if k = i then unat r else 0)
      | Complete \<Rightarrow> 0)"

definition seat_inv :: "'r GameState \<Rightarrow> LondonMulligansV1 \<Rightarrow> u8 \<Rightarrow> bool" where
  "seat_inv g l i \<longleftrightarrow>
     (let p = mulligan_player l i in
      seat_flags l i \<and> length (hand g p) = hand_due l i \<and> 7 \<le> size (cards_of g p) \<and>
      hands l p = hand_bindings g p)"

definition london_inv :: "LondonMulligansV1 \<Rightarrow> 'r PregameState \<Rightarrow> bool" where
  "london_inv l s \<longleftrightarrow>
     london_mulligans_v1 s = Some l \<and> cards_inv (game s) \<and> mul_starting l = first_player s \<and>
     valid_player (mul_starting l) \<and> turn s = 1 \<and> step s = Untap \<and>
     seat_inv (game s) l 0 \<and> seat_inv (game s) l 1"

definition decisions_left :: "LondonMulligansV1 \<Rightarrow> nat" where
  "decisions_left l = seat_decisions l 0 + seat_decisions l 1"

lemma london_inv_validate:
  assumes "london_inv l s"
  shows "validate s = Inr ()"
proof -
  have inv: "cards_inv (game s)" and v: "valid_player (mul_starting l)"
    and l: "london_mulligans_v1 s = Some l" "mul_starting l = first_player s" "turn s = 1" "step s = Untap"
    using assms unfolding london_inv_def by blast+
  have seats_ok: "\<forall>p. valid_player p \<longrightarrow> unat (counts l p) \<le> 7 \<and> hands l p = hand_bindings (game s) p"
    using assms unfolding seats(3)[OF v] by (simp add: london_inv_def seat_inv_def seat_flags_def Let_def)
  have "binding_matches (game s) p (x, b)"
    if "valid_player p" "(x, b) \<in> set (zip (hand (game s) p) (hand_bindings (game s) p))" for p x b
  proof -
    have "x \<in> set (hand (game s) p)" "b = \<lparr>link_object = x, link_generation = generation (game s) x\<rparr>"
      using that(2) by (auto simp: hand_bindings_def set_zip)
    then show ?thesis using in_hand[OF inv that(1)] by (auto simp: binding_matches_def generation_def)
  qed
  then show ?thesis
    using seats_ok l v by (auto simp: validate_def HAND_SIZE_def list_all_iff valid_player_def hand_bindings_def)
qed

lemma two_seats: "(k :: u8) \<le> 2 \<longleftrightarrow> k = 0 \<or> k = 1 \<or> k = 2"
  using u8_less_2[of k] by (auto simp: order_le_less)

definition same_cards :: "'r PregameState \<Rightarrow> 'r PregameState \<Rightarrow> bool" where
  "same_cards s t \<longleftrightarrow> cards_inv (game t) \<and> (\<forall>p. valid_player p \<longrightarrow> cards_of (game t) p = cards_of (game s) p)"

definition decision_for :: "LondonMulligansV1 \<Rightarrow> 'r PregameState \<Rightarrow> MulliganDecision \<Rightarrow> bool" where
  "decision_for l s d \<longleftrightarrow>
     (case d of
        ChooseLondonMulligan p c \<Rightarrow>
          \<exists>k < 2. stage l = Announce k \<and> p = mulligan_player l k \<and> \<not> kept l p \<and> c = counts l p \<and> unat c < 7
      | ChooseLondonBottom p r cards \<Rightarrow>
          \<exists>k < 2. stage l = Bottoming k r \<and> 0 < r \<and> p = mulligan_player l k \<and> cards = hand (game s) p \<and>
            unat r \<le> length cards)"

lemma london_inv_set:
  assumes "london_inv l s" "mul_starting m = mul_starting l" "seat_inv (game s) m 0" "seat_inv (game s) m 1"
  shows "london_inv m (set_pregame m s)"
  using assms unfolding london_inv_def by (metis set_pregame_fields)

lemma seats_differ [simp]:
  assumes "london_inv l s"
  shows "mulligan_player l 0 \<noteq> mulligan_player l 1" "mulligan_player l 1 \<noteq> mulligan_player l 0"
  using assms seats(1)[of l] unfolding london_inv_def by auto

lemmas seat_defs = seat_inv_def seat_flags_def hand_due_def Let_def

lemma announce_kept:
  assumes inv: "london_inv l s" and st: "stage l = Announce k" and k: "k < 2"
    and p: "kept l (mulligan_player l k) \<or> unat (counts l (mulligan_player l k)) = 7"
    and m: "m = set_stage (Announce (k + 1)) (l\<lparr>kept := (kept l)(mulligan_player l k := True)\<rparr>)"
  shows "london_inv m (set_pregame m s)" "decisions_left m \<le> decisions_left l"
proof -
  have si: "seat_inv (game s) l 0" "seat_inv (game s) l 1" using inv unfolding london_inv_def by blast+
  note d = seats_differ[OF inv]
  have k01: "k = 0 \<or> k = 1" using k by (simp add: u8_less_2)
  show "london_inv m (set_pregame m s)"
  proof (rule london_inv_set[OF inv])
    show "mul_starting m = mul_starting l" by (simp add: m)
    show "seat_inv (game s) m 0" using si(1) k01 d st p by (auto simp: m seat_defs)
    show "seat_inv (game s) m 1" using si(2) k01 d st p by (auto simp: m seat_defs)
  qed
  show "decisions_left m \<le> decisions_left l"
    using k01 d st by (auto simp: m decisions_left_def seat_decisions_def Let_def)
qed

lemma all_kept:
  assumes inv: "london_inv l s" and st: "stage l = Announce 2"
    and p: "kept l P0" "kept l P1" and m: "m = set_stage Complete l"
  shows "london_inv m (set_pregame m s)"
proof -
  have si: "seat_inv (game s) l 0" "seat_inv (game s) l 1" "valid_player (mul_starting l)"
    using inv unfolding london_inv_def by blast+
  have "kept l (mulligan_player l i)" for i using seats(2)[OF si(3), of i] p by (auto simp: valid_player_def)
  then show ?thesis
    using si st by (intro london_inv_set[OF inv]) (auto simp: m seat_defs)
qed

lemma bottom_skip:
  assumes inv: "london_inv l s" and st: "stage l = Bottoming k r" and k: "k < 2"
    and p: "\<not> mulligan_this_round l (mulligan_player l k)" and m: "m = set_stage (Bottoming (k + 1) 0) l"
  shows "london_inv m (set_pregame m s)" "decisions_left m \<le> decisions_left l"
proof -
  have si: "seat_inv (game s) l 0" "seat_inv (game s) l 1" using inv unfolding london_inv_def by blast+
  note d = seats_differ[OF inv]
  have k01: "k = 0 \<or> k = 1" using k by (simp add: u8_less_2)
  have "seat_flags l k" using si k01 by (auto simp: seat_inv_def Let_def)
  then have r0: "r = 0" using st p word_gt_0[of r] by (auto simp: seat_flags_def Let_def)
  show "london_inv m (set_pregame m s)"
  proof (rule london_inv_set[OF inv])
    show "mul_starting m = mul_starting l" by (simp add: m)
    show "seat_inv (game s) m 0" using si(1) k01 d st p r0 by (auto simp: m seat_defs split: if_splits)
    show "seat_inv (game s) m 1" using si(2) k01 d st p r0 by (auto simp: m seat_defs split: if_splits)
  qed
  show "decisions_left m \<le> decisions_left l"
    using k01 d st p si by (auto simp: m decisions_left_def seat_decisions_def seat_defs)
qed

lemma bottom_ask:
  assumes inv: "london_inv l s" and st: "stage l = Bottoming k r" and k: "k < 2"
    and p: "mulligan_this_round l (mulligan_player l k)"
    and r1: "r1 = (if r = 0 then counts l (mulligan_player l k) else r)" and m: "m = set_stage (Bottoming k r1) l"
  shows "london_inv m (set_pregame m s)" "decisions_left m \<le> decisions_left l" "0 < r1"
    "unat r1 \<le> length (hand (game s) (mulligan_player l k))"
proof -
  have si: "seat_inv (game s) l 0" "seat_inv (game s) l 1" using inv unfolding london_inv_def by blast+
  note d = seats_differ[OF inv]
  have k01: "k = 0 \<or> k = 1" using k by (simp add: u8_less_2)
  have "seat_flags l k" using si k01 by (auto simp: seat_inv_def Let_def)
  then have c: "1 \<le> unat (counts l (mulligan_player l k))" using st p by (auto simp: seat_flags_def Let_def)
  then have cz: "counts l (mulligan_player l k) \<noteq> 0" by auto
  then show pos: "0 < r1" by (auto simp: r1 word_gt_0)
  show "london_inv m (set_pregame m s)"
  proof (rule london_inv_set[OF inv])
    show "mul_starting m = mul_starting l" by (simp add: m)
    show "seat_inv (game s) m 0" using si(1) k01 d st p cz by (auto simp: m r1 seat_defs split: if_splits)
    show "seat_inv (game s) m 1" using si(2) k01 d st p cz by (auto simp: m r1 seat_defs split: if_splits)
  qed
  show "decisions_left m \<le> decisions_left l"
    using k01 d st p cz si by (auto simp: m r1 decisions_left_def seat_decisions_def seat_defs)
  show "unat r1 \<le> length (hand (game s) (mulligan_player l k))"
    using k01 si st p by (auto simp: r1 seat_defs split: if_splits)
qed

lemma next_round:
  assumes inv: "london_inv l s" and st: "stage l = Bottoming 2 r"
    and m: "m = set_stage (Announce 0) (l\<lparr>mulligan_this_round := (\<lambda>_. False)\<rparr>)"
  shows "london_inv m (set_pregame m s)" "decisions_left m \<le> decisions_left l"
proof -
  have si: "seat_inv (game s) l 0" "seat_inv (game s) l 1" using inv unfolding london_inv_def by blast+
  show "london_inv m (set_pregame m s)"
    using si st by (intro london_inv_set[OF inv]) (auto simp: m seat_defs)
  show "decisions_left m \<le> decisions_left l"
    using st by (auto simp: m decisions_left_def seat_decisions_def Let_def)
qed

text \<open>A seat after the redraws of the round: seven new cards and one more mulligan if it announced
  one, and what it had before otherwise.\<close>

definition seat_redrawn :: "LondonMulligansV1 \<Rightarrow> 'r GameState \<Rightarrow> PlayerId \<Rightarrow> LondonMulligansV1 \<Rightarrow> 'r GameState \<Rightarrow> bool" where
  "seat_redrawn l s p m t \<longleftrightarrow>
     (if mulligan_this_round l p
      then counts m p = counts l p + 1 \<and> hands m p = hand_bindings t p \<and> length (hand t p) = 7
      else counts m p = counts l p \<and> hands m p = hands l p \<and> hand t p = hand s p \<and> hand_bindings t p = hand_bindings s p)"

lemma redraw_seat:
  assumes "cards_inv s" "valid_player p" "7 \<le> size (cards_of s p)" "redraw sha dmove zmove p (l, s) = (r, m, t)"
  shows "rearranged p s t"
    "r = Inr () \<Longrightarrow> seat_redrawn l s p m t \<and> (\<forall>q. q \<noteq> p \<longrightarrow> counts m q = counts l q \<and> hands m q = hands l q)"
    "r \<noteq> Inr () \<Longrightarrow> \<exists>d. r = Inl (MulliganShuffleFailed d)"
proof -
  have "rearranged p s t \<and>
    (r = Inr () \<longrightarrow> seat_redrawn l s p m t \<and> (\<forall>q. q \<noteq> p \<longrightarrow> counts m q = counts l q \<and> hands m q = hands l q)) \<and>
    (r \<noteq> Inr () \<longrightarrow> (\<exists>d. r = Inl (MulliganShuffleFailed d)))"
  proof (cases "mulligan_this_round l p")
    case True
    show ?thesis
      by (rule redraw_rearranged[OF assms(1,2) True assms(3), of sha dmove zmove])
        (use assms(4) True in \<open>auto simp: seat_redrawn_def\<close>)
  next
    case False
    then show ?thesis using assms(1,4) by (auto simp: redraw_def seat_redrawn_def rearranged_refl)
  qed
  then show "rearranged p s t"
    "r = Inr () \<Longrightarrow> seat_redrawn l s p m t \<and> (\<forall>q. q \<noteq> p \<longrightarrow> counts m q = counts l q \<and> hands m q = hands l q)"
    "r \<noteq> Inr () \<Longrightarrow> \<exists>d. r = Inl (MulliganShuffleFailed d)" by simp_all
qed

lemma redraw_round_seats:
  assumes inv: "cards_inv s" and v: "valid_player (mul_starting l)" and n: "\<And>p. valid_player p \<Longrightarrow> 7 \<le> size (cards_of s p)"
    and rr: "redraw_round sha dmove zmove (l, s) = (r, m, t)"
  shows "cards_inv t" "\<forall>p. valid_player p \<longrightarrow> cards_of t p = cards_of s p"
    "r = Inr () \<Longrightarrow> \<forall>p. valid_player p \<longrightarrow> seat_redrawn l s p m t"
    "r \<noteq> Inr () \<Longrightarrow> \<exists>d. r = Inl (MulliganShuffleFailed d)"
proof -
  let ?P = "mulligan_player l 0" and ?Q = "mulligan_player l 1"
  have PQ: "?P \<noteq> ?Q" "?Q \<noteq> ?P" and vP: "valid_player ?P" and vQ: "valid_player ?Q"
    using seats(1,2)[OF v] by metis+
  obtain a l1 s1 where a: "redraw sha dmove zmove ?P (l, s) = (a, l1, s1)" by (metis prod_cases3)
  note A = redraw_seat[OF inv vP n[OF vP] a]
  have inv1: "cards_inv s1" using A(1) by (simp add: rearranged_def)
  note oP = rearranged_other[OF inv A(1) vP vQ PQ(2)]
  have c1: "cards_of s1 ?P = cards_of s ?P" using A(1) by (simp add: rearranged_def)
  have "cards_inv t \<and> (\<forall>p. valid_player p \<longrightarrow> cards_of t p = cards_of s p) \<and>
    (r = Inr () \<longrightarrow> (\<forall>p. valid_player p \<longrightarrow> seat_redrawn l s p m t)) \<and>
    (r \<noteq> Inr () \<longrightarrow> (\<exists>d. r = Inl (MulliganShuffleFailed d)))"
  proof (cases a)
    case (Inl e)
    then have "r = Inl e" "t = s1" using rr a by (simp_all add: redraw_round_def)
    then show ?thesis using A(3) Inl inv1 c1 oP(4) unfolding seats(3)[OF v] by auto
  next
    case (Inr u)
    then have b: "redraw sha dmove zmove ?Q (l1, s1) = (r, m, t)" using rr a by (simp add: redraw_round_def)
    have "7 \<le> size (cards_of s1 ?Q)" using n[OF vQ] by (simp add: oP(4))
    note B = redraw_seat[OF inv1 vQ this b]
    have invt: "cards_inv t" and c2: "cards_of t ?Q = cards_of s1 ?Q" using B(1) by (simp_all add: rearranged_def)
    note oQ = rearranged_other[OF inv1 B(1) vQ vP PQ(1)]
    have m1: "mulligan_this_round l1 = mulligan_this_round l" using redraw_keeps(2)[OF a] .
    have "seat_redrawn l s ?P m t \<and> seat_redrawn l s ?Q m t" if "r = Inr ()"
      using A(2) B(2)[OF that] Inr PQ oP oQ m1 by (simp add: seat_redrawn_def split: if_splits)
    then show ?thesis using B(3) invt c1 c2 oP(4) oQ(4) unfolding seats(3)[OF v] by auto
  qed
  then show "cards_inv t" "\<forall>p. valid_player p \<longrightarrow> cards_of t p = cards_of s p"
    "r = Inr () \<Longrightarrow> \<forall>p. valid_player p \<longrightarrow> seat_redrawn l s p m t"
    "r \<noteq> Inr () \<Longrightarrow> \<exists>d. r = Inl (MulliganShuffleFailed d)" by simp_all
qed

lemma decisions_from_less: "c < 7 \<Longrightarrow> decisions_from c = c + 2 + decisions_from (c + 1)"
  by (simp add: decisions_from_def upt_conv_Cons)

lemma unat_plus_1: "unat (c :: u8) < 7 \<Longrightarrow> unat (c + 1) = unat c + 1"
  using unat_add_no_overflow[of c 1] by simp

lemma redraw_round_inv:
  assumes inv: "london_inv l s" and st: "stage l = Announce 2"
    and rr: "redraw_round sha dmove zmove (l, game s) = (Inr u, m, g)" and n: "n = set_stage (Bottoming 0 0) m"
  shows "london_inv n (set_pregame n (s\<lparr>game := g\<rparr>))" "decisions_left n \<le> decisions_left l"
proof -
  have si: "seat_inv (game s) l 0" "seat_inv (game s) l 1" and v: "valid_player (mul_starting l)" and ci: "cards_inv (game s)"
    using inv unfolding london_inv_def by blast+
  have sz: "7 \<le> size (cards_of (game s) p)" if "valid_player p" for p
    using si seats(3)[OF v, of "\<lambda>p. 7 \<le> size (cards_of (game s) p)"] that by (auto simp: seat_inv_def Let_def)
  note R = redraw_round_seats[OF ci v sz rr]
  have keep: "kept m = kept l" "mulligan_this_round m = mulligan_this_round l" "mul_starting m = mul_starting l"
    using redraw_round_keeps[OF rr] by simp_all
  have pl: "mulligan_player m = mulligan_player l" by (simp add: fun_eq_iff mulligan_player_def keep)
  have one: "seat_inv g n i \<and> seat_decisions n i \<le> seat_decisions l i" if "i = 0 \<or> i = 1" for i
  proof -
    let ?p = "mulligan_player l i"
    have s: "seat_inv (game s) l i" using si that by blast
    have "seat_redrawn l (game s) ?p m g" "cards_of g ?p = cards_of (game s) ?p"
      using R(2,3) seats(2)[OF v] by auto
    moreover have "i < 2" using that by auto
    ultimately show ?thesis
      using s st that unat_plus_1[of "counts l ?p"] decisions_from_less[of "unat (counts l ?p)"]
      by (auto simp: n seat_defs seat_decisions_def keep pl seat_redrawn_def split: if_splits)
  qed
  show "decisions_left n \<le> decisions_left l"
    using one[of 0] one[of 1] by (simp add: decisions_left_def)
  show "london_inv n (set_pregame n (s\<lparr>game := g\<rparr>))"
    using inv one[of 0] one[of 1] R(1) v unfolding london_inv_def by (simp add: n keep)
qed

text \<open>What one iteration of the loop, and so the whole loop, may do from a state of the invariant.\<close>

fun drained_to :: "'r PregameState \<Rightarrow> nat \<Rightarrow> (MulliganDecision option, MulliganError) result \<times> 'r PregameState \<Rightarrow> bool" where
  "drained_to s n (Inl e, t) \<longleftrightarrow> (\<exists>d. e = MulliganShuffleFailed d) \<and> same_cards s t"
| "drained_to s n (Inr None, t) \<longleftrightarrow> same_cards s t \<and> (\<exists>m. london_inv m t \<and> stage m = Complete)"
| "drained_to s n (Inr (Some d), t) \<longleftrightarrow> same_cards s t \<and> (\<exists>m. london_inv m t \<and> decision_for m t d \<and> decisions_left m \<le> n)"

lemma same_cards_pregame:
  "london_inv l s \<Longrightarrow> same_cards s (set_pregame m s)" "london_inv l s \<Longrightarrow> same_cards s s"
  by (auto simp: same_cards_def london_inv_def)

lemma iteration_drained:
  assumes inv: "london_inv l s" and st: "stage l \<noteq> Complete"
  shows "case drain_iteration sha dmove zmove l s of
      Continue t \<Rightarrow> same_cards s t \<and> (\<exists>m. london_inv m t \<and> decisions_left m \<le> decisions_left l)
    | Return r t \<Rightarrow> drained_to s (decisions_left l) (r, t)"
proof (cases "stage l")
  case (Announce k)
  have si: "seat_inv (game s) l 0" and v: "valid_player (mul_starting l)" and ci: "cards_inv (game s)"
    using inv unfolding london_inv_def by blast+
  have k2: "k \<le> 2" using si Announce by (auto simp: seat_defs)
  show ?thesis
  proof (cases "k < 2")
    case True
    show ?thesis
    proof (cases "kept l (mulligan_player l k) \<or> unat (counts l (mulligan_player l k)) = 7")
      case kept: True
      note step = announce_kept[OF inv Announce True kept refl]
      show ?thesis
        using step same_cards_pregame(1)[OF inv] Announce True kept
        by (auto simp: drain_iteration_def HAND_SIZE_def Let_def)
    next
      case ask: False
      have "\<forall>p. valid_player p \<longrightarrow> unat (counts l p) \<le> 7"
        using inv unfolding seats(3)[OF v] by (simp add: london_inv_def seat_defs)
      then have "unat (counts l (mulligan_player l k)) \<le> 7" using seats(2)[OF v, of k] by blast
      then have "unat (counts l (mulligan_player l k)) < 7" using ask by simp
      then have "decision_for l s (ChooseLondonMulligan (mulligan_player l k) (counts l (mulligan_player l k)))"
        using Announce True ask by (auto simp: decision_for_def)
      then show ?thesis
        using inv same_cards_pregame(2)[OF inv] Announce True ask
        by (auto simp: drain_iteration_def HAND_SIZE_def Let_def)
    qed
  next
    case False
    then have k: "stage l = Announce 2" using k2 Announce by simp
    show ?thesis
    proof (cases "kept l P0 \<and> kept l P1")
      case True
      then show ?thesis
        using all_kept[OF inv k _ _ refl] same_cards_pregame(1)[OF inv] k by (auto simp: drain_iteration_def)
    next
      case again: False
      obtain r m g where rr: "redraw_round sha dmove zmove (l, game s) = (r, m, g)" by (metis prod_cases3)
      have sz: "7 \<le> size (cards_of (game s) p)" if "valid_player p" for p
        using inv seats(3)[OF v, of "\<lambda>p. 7 \<le> size (cards_of (game s) p)"] that
        by (auto simp: london_inv_def seat_inv_def Let_def)
      note R = redraw_round_seats[OF ci v sz rr]
      show ?thesis
      proof (cases r)
        case (Inl e)
        then show ?thesis using R k again rr by (auto simp: drain_iteration_def same_cards_def)
      next
        case (Inr u)
        note step = redraw_round_inv[OF inv k rr[unfolded Inr] refl]
        show ?thesis using step R(1,2) k again rr Inr by (auto simp: drain_iteration_def same_cards_def)
      qed
    qed
  qed
next
  case (Bottoming k r)
  have si: "seat_inv (game s) l 0" using inv unfolding london_inv_def by blast
  have k2: "k \<le> 2" using si Bottoming by (auto simp: seat_defs)
  show ?thesis
  proof (cases "k < 2")
    case True
    show ?thesis
    proof (cases "mulligan_this_round l (mulligan_player l k)")
      case m: True
      note step = bottom_ask[OF inv Bottoming True m refl refl]
      show ?thesis
        using step same_cards_pregame(1)[OF inv] Bottoming True m
        by (auto simp: drain_iteration_def Let_def decision_for_def)
    next
      case m: False
      show ?thesis
        using bottom_skip[OF inv Bottoming True m refl] same_cards_pregame(1)[OF inv] Bottoming True m
        by (auto simp: drain_iteration_def Let_def)
    qed
  next
    case False
    then have k: "stage l = Bottoming 2 r" using k2 Bottoming by simp
    show ?thesis
      using next_round[OF inv k refl] same_cards_pregame(1)[OF inv] k by (auto simp: drain_iteration_def)
  qed
next
  case Complete
  with st show ?thesis by simp
qed

lemma drained_weaken:
  "drained_to t n rt \<Longrightarrow> same_cards s t \<Longrightarrow> n \<le> n' \<Longrightarrow> drained_to s n' rt"
  by (cases "(t, n, rt)" rule: drained_to.cases) (auto simp: same_cards_def)

lemma drain_drained:
  "london_inv l s \<Longrightarrow> drained_to s (decisions_left l) (drain_mulligans sha dmove zmove s)"
proof (induction sha dmove zmove s arbitrary: l rule: drain_mulligans.induct)
  case (1 sha dmove zmove s)
  have l: "london_mulligans_v1 s = Some l" using 1(2) by (simp add: london_inv_def)
  show ?case
  proof (cases "stage l = Complete")
    case True
    then show ?thesis using 1(2) l same_cards_pregame(2)[OF 1(2)]
      by (auto simp: drain_mulligans.simps[of sha dmove zmove s] has_pending_def is_complete_def)
  next
    case False
    note v = london_inv_validate[OF 1(2)]
    have p: "has_pending s" using l False by (simp add: has_pending_def is_complete_def)
    note it = iteration_drained[OF 1(2) False, of sha dmove zmove]
    show ?thesis
    proof (cases "drain_iteration sha dmove zmove l s")
      case (Return r t)
      then show ?thesis using it p v l by (simp add: drain_mulligans.simps[of sha dmove zmove s])
    next
      case (Continue t)
      then obtain m where m: "same_cards s t" "london_inv m t" "decisions_left m \<le> decisions_left l"
        using it by auto
      have "drained_to t (decisions_left m) (drain_mulligans sha dmove zmove t)"
        using 1(1)[OF p v _ m(2)] Continue l by simp
      then show ?thesis
        using drained_weaken[OF _ m(1,3)] Continue p v l by (simp add: drain_mulligans.simps[of sha dmove zmove s])
    qed
  qed
qed

section \<open>Answers\<close>

fun answers :: "MulliganDecision \<Rightarrow> MulliganAction \<Rightarrow> bool" where
  "answers (ChooseLondonMulligan p c) (AnswerMulligan b) = True"
| "answers (ChooseLondonBottom p r cards) (AnswerBottom x) = (x \<in> set cards)"
| "answers _ _ = False"

lemma announce_answer:
  assumes inv: "london_inv l s" and st: "stage l = Announce k" and k: "k < 2"
    and p: "\<not> kept l (mulligan_player l k)" "unat (counts l (mulligan_player l k)) < 7"
    and m: "m = set_stage (Announce (k + 1)) (l\<lparr>kept := (kept l)(mulligan_player l k := \<not> b),
      mulligan_this_round := (mulligan_this_round l)(mulligan_player l k := b)\<rparr>)"
  shows "london_inv m (set_pregame m s)" "decisions_left m < decisions_left l"
proof -
  have si: "seat_inv (game s) l 0" "seat_inv (game s) l 1" using inv unfolding london_inv_def by blast+
  note d = seats_differ[OF inv]
  have k01: "k = 0 \<or> k = 1" using k by (simp add: u8_less_2)
  show "london_inv m (set_pregame m s)"
  proof (rule london_inv_set[OF inv])
    show "mul_starting m = mul_starting l" by (simp add: m)
    show "seat_inv (game s) m 0" using si(1) k01 d st p by (auto simp: m seat_defs)
    show "seat_inv (game s) m 1" using si(2) k01 d st p by (auto simp: m seat_defs)
  qed
  have "seat_flags l k" using si k01 by (auto simp: seat_inv_def Let_def)
  then have "\<not> mulligan_this_round l (mulligan_player l k)" using st by (auto simp: seat_flags_def Let_def)
  then show "decisions_left m < decisions_left l"
    using k01 d st p decisions_from_less[OF p(2)] by (auto simp: m decisions_left_def seat_decisions_def Let_def)
qed

lemma other_seat_inv:
  assumes "seat_inv s l i" "stage l = Bottoming k r" "i = 0 \<or> i = 1" "k = 0 \<and> i = 1 \<or> k = 1 \<and> i = 0"
    and ne: "mulligan_player l i \<noteq> p"
    and "hand g (mulligan_player l i) = hand s (mulligan_player l i)"
      "hand_bindings g (mulligan_player l i) = hand_bindings s (mulligan_player l i)"
      "cards_of g (mulligan_player l i) = cards_of s (mulligan_player l i)"
  shows "seat_inv g (set_stage (Bottoming (k + 1) 0) (l\<lparr>hands := (hands l)(p := b)\<rparr>)) i"
    "seat_inv g (set_stage (Bottoming k q) (l\<lparr>hands := (hands l)(p := b)\<rparr>)) i"
proof -
  have pl: "mulligan_player (l\<lparr>hands := h\<rparr>) = mulligan_player l" for h by (simp add: fun_eq_iff mulligan_player_def)
  have "seat_flags l i" "length (hand s (mulligan_player l i)) = hand_due l i"
    "7 \<le> size (cards_of s (mulligan_player l i))" "hands l (mulligan_player l i) = hand_bindings s (mulligan_player l i)"
    using assms(1) by (simp_all add: seat_inv_def Let_def)
  moreover have "hand_due (set_stage (Bottoming (k + 1) 0) (l\<lparr>hands := h\<rparr>)) i = hand_due l i"
    "seat_flags l i \<Longrightarrow> seat_flags (set_stage (Bottoming (k + 1) 0) (l\<lparr>hands := h\<rparr>)) i"
    "hand_due (set_stage (Bottoming k q) (l\<lparr>hands := h\<rparr>)) i = hand_due l i"
    "seat_flags l i \<Longrightarrow> seat_flags (set_stage (Bottoming k q) (l\<lparr>hands := h\<rparr>)) i" for h
    using assms(2,4) by (auto simp: hand_due_def seat_flags_def Let_def pl)
  ultimately show "seat_inv g (set_stage (Bottoming (k + 1) 0) (l\<lparr>hands := (hands l)(p := b)\<rparr>)) i"
    "seat_inv g (set_stage (Bottoming k q) (l\<lparr>hands := (hands l)(p := b)\<rparr>)) i"
    using assms(6-8) ne by (simp_all add: seat_inv_def Let_def pl)
qed

lemma bottom_answer:
  assumes inv: "london_inv l s" and st: "stage l = Bottoming k r" and k: "k < 2" and r: "0 < r"
    and g: "rearranged (mulligan_player l k) (game s) g" "length (hand (game s) (mulligan_player l k)) = Suc (length (hand g (mulligan_player l k)))"
    and m: "m = set_stage (if r = 1 then Bottoming (k + 1) 0 else Bottoming k (r - 1))
      (l\<lparr>hands := (hands l)(mulligan_player l k := hand_bindings g (mulligan_player l k))\<rparr>)"
  shows "london_inv m (set_pregame m (s\<lparr>game := g\<rparr>))" "decisions_left m < decisions_left l"
    "same_cards s (set_pregame m (s\<lparr>game := g\<rparr>))"
proof -
  let ?p = "mulligan_player l k"
  have si: "seat_inv (game s) l 0" "seat_inv (game s) l 1" and ci: "cards_inv (game s)" and v: "valid_player (mul_starting l)"
    using inv unfolding london_inv_def by blast+
  note d = seats_differ[OF inv]
  have k01: "k = 0 \<or> k = 1" using k by (simp add: u8_less_2)
  have "r \<noteq> 0" using r word_gt_0 by blast
  have r1: "unat (r - 1) = unat r - 1" "0 < unat r" "r \<noteq> 1 \<Longrightarrow> r - 1 \<noteq> 0" "r = 1 \<longleftrightarrow> unat r = 1"
    using r \<open>r \<noteq> 0\<close> by (simp_all add: unat_minus_one word_less_nat_alt word_unat_eq_iff)
  note o = rearranged_other[OF ci g(1) seats(2)[OF v] seats(2)[OF v]]
  have same: "cards_of g (mulligan_player l k) = cards_of (game s) (mulligan_player l k)" "cards_inv g"
    using g(1) by (simp_all add: rearranged_def)
  have cards: "\<forall>p. valid_player p \<longrightarrow> cards_of g p = cards_of (game s) p"
    unfolding seats(3)[OF v] using k01 o(4)[of 0] o(4)[of 1] d same by auto
  have pl: "mulligan_player m = mulligan_player l" by (simp add: fun_eq_iff mulligan_player_def m)
  have "seat_inv g m i" if i: "i = 0 \<or> i = 1" for i
  proof (cases "i = k")
    case True
    have "seat_inv (game s) l k" using si k01 by auto
    then have f: "mulligan_this_round l ?p" "\<not> kept l ?p" "unat r \<le> unat (counts l ?p)" "unat (counts l ?p) \<le> 7"
      "length (hand (game s) ?p) = 7 - unat (counts l ?p) + unat r" "7 \<le> size (cards_of (game s) ?p)"
      using st r by (simp_all add: seat_defs)
    then have h: "length (hand g ?p) = 7 - unat (counts l ?p) + unat r - 1" using g(2) by simp
    show ?thesis
    proof (cases "r = 1")
      case one: True
      then have "m = set_stage (Bottoming (k + 1) 0) (l\<lparr>hands := (hands l)(?p := hand_bindings g ?p)\<rparr>)" by (simp add: m)
      then show ?thesis using True f h same(1) one k01 pl by (auto simp: seat_defs)
    next
      case more: False
      then have "m = set_stage (Bottoming k (r - 1)) (l\<lparr>hands := (hands l)(?p := hand_bindings g ?p)\<rparr>)" by (simp add: m)
      then show ?thesis using True f h same(1) r1(1,2) r1(3)[OF more] k01 pl
        by (simp add: seat_defs) (auto simp: two_seats)
    qed
  next
    case False
    then have ne: "mulligan_player l i \<noteq> mulligan_player l k" using i k01 d by auto
    have "seat_inv (game s) l i" using si i by auto
    moreover have "hand g (mulligan_player l i) = hand (game s) (mulligan_player l i)"
      "hand_bindings g (mulligan_player l i) = hand_bindings (game s) (mulligan_player l i)"
      "cards_of g (mulligan_player l i) = cards_of (game s) (mulligan_player l i)"
      using o[of i] ne by simp_all
    ultimately show ?thesis
      using other_seat_inv[OF _ st _ _ ne, of "game s" g] i k01 False by (auto simp: m)
  qed
  then show "london_inv m (set_pregame m (s\<lparr>game := g\<rparr>))"
    using inv same(2) unfolding london_inv_def by (auto simp: m)
  show "same_cards s (set_pregame m (s\<lparr>game := g\<rparr>))" using cards same(2) by (simp add: same_cards_def)
  have nk: "\<not> kept l ?p" using si st k01 r by (auto simp: seat_defs)
  have own: "seat_decisions m k < seat_decisions l k"
  proof (cases "r = 1")
    case one: True
    then have "m = set_stage (Bottoming (k + 1) 0) (l\<lparr>hands := (hands l)(?p := hand_bindings g ?p)\<rparr>)" by (simp add: m)
    then show ?thesis using k01 nk one pl st by (auto simp: seat_decisions_def Let_def)
  next
    case more: False
    then have "m = set_stage (Bottoming k (r - 1)) (l\<lparr>hands := (hands l)(?p := hand_bindings g ?p)\<rparr>)" by (simp add: m)
    then show ?thesis using nk r1(1,2) r1(3)[OF more] pl st \<open>r \<noteq> 0\<close> by (simp add: seat_decisions_def Let_def)
  qed
  have other: "seat_decisions m i = seat_decisions l i" if "k = 0 \<and> i = 1 \<or> k = 1 \<and> i = 0" for i
    using that pl st by (auto simp: m seat_decisions_def Let_def)
  show "decisions_left m < decisions_left l"
    using k01 own other[of 0] other[of 1] by (elim disjE) (simp_all add: decisions_left_def)
qed

lemma answer_accepted:
  assumes inv: "london_inv l s" and d: "decision_for l s d" and a: "answers d act"
  obtains m t where "mulligan_answer zmove act s = (Inr (), t)" "london_inv m t" "decisions_left m < decisions_left l"
    "same_cards s t"
proof -
  have l: "london_mulligans_v1 s = Some l" and ci: "cards_inv (game s)" and v: "valid_player (mul_starting l)"
    using inv unfolding london_inv_def by blast+
  note val = london_inv_validate[OF inv]
  show thesis
  proof (cases d)
    case (ChooseLondonMulligan p c)
    with a obtain b where b: "act = AnswerMulligan b" by (cases act) auto
    from ChooseLondonMulligan d obtain k where k: "k < 2" "stage l = Announce k" "p = mulligan_player l k" "\<not> kept l p"
      "unat (counts l p) < 7" by (auto simp: decision_for_def)
    note step = announce_answer[OF inv k(2,1) k(4,5)[unfolded k(3)] refl, of b]
    show ?thesis
      by (rule that[OF _ step same_cards_pregame(1)[OF inv]])
        (use k b l val in \<open>simp add: mulligan_answer_def HAND_SIZE_def Let_def\<close>)
  next
    case (ChooseLondonBottom p r cards)
    from ChooseLondonBottom d obtain k where k: "k < 2" "stage l = Bottoming k r" "0 < r" "p = mulligan_player l k"
      "cards = hand (game s) p" by (auto simp: decision_for_def)
    with a ChooseLondonBottom obtain x where x: "act = AnswerBottom x" "x \<in> set (hand (game s) p)" by (cases act) auto
    have zo: "zones_ok (game s)" using ci by (simp add: cards_inv_def knowledge_inv_def)
    have vp: "valid_player p" using seats(2)[OF v] k(4) by simp
    obtain g where g: "materialize_zone_change_v1 zmove x Library Bottom False OwnerOnly (game s) = Some g"
      "rearranged p (game s) g" "hand g p = drop_from x (hand (game s) p)"
      using put_back[OF ci vp x(2)] by blast
    have "size (mset (hand (game s) p)) = size (add_mset x (mset (hand g p)))"
      using mset_drop_from[OF zones_okD(2)[OF zo vp] x(2)] g(3) by simp
    then have "length (hand (game s) p) = Suc (length (hand g p))" by simp
    note step = bottom_answer[OF inv k(2,1,3) g(2)[unfolded k(4)] this[unfolded k(4)] refl]
    show ?thesis
      by (rule that[OF _ step])
        (use k x l val g(1) in \<open>simp add: mulligan_answer_def Let_def\<close>)
  qed
qed

lemma answer_rejected:
  assumes inv: "london_inv l s" and d: "decision_for l s d" and a: "\<not> answers d act"
  shows "\<exists>e. mulligan_answer zmove act s = (Inl e, s)"
proof -
  have l: "london_mulligans_v1 s = Some l" using inv unfolding london_inv_def by blast
  show ?thesis
    using d a l london_inv_validate[OF inv]
    by (cases d; cases act) (auto simp: decision_for_def mulligan_answer_def Let_def)
qed

section \<open>The whole procedure\<close>

text \<open>The engine drains to a decision and passes one answer on, again and again; \<open>run_mulligans\<close>
  also counts the answers that are accepted.\<close>

fun run_mulligans ::
  "(u8 list \<Rightarrow> u8 list) \<Rightarrow> (ObjectId \<Rightarrow> 'r \<Rightarrow> 'r) \<Rightarrow> (ObjectId \<Rightarrow> Zone \<Rightarrow> Zone \<Rightarrow> 'r \<Rightarrow> 'r) \<Rightarrow> MulliganAction list
    \<Rightarrow> 'r PregameState \<Rightarrow> nat \<times> (MulliganDecision option, MulliganError) result \<times> 'r PregameState" where
  "run_mulligans sha dmove zmove [] s = (0, drain_mulligans sha dmove zmove s)"
| "run_mulligans sha dmove zmove (act # acts) s =
     (case drain_mulligans sha dmove zmove s of
        (Inr (Some d), t) \<Rightarrow>
          (case mulligan_answer zmove act t of
             (Inl _, u) \<Rightarrow> run_mulligans sha dmove zmove acts u
           | (Inr _, u) \<Rightarrow>
               (let (n, rv) = run_mulligans sha dmove zmove acts u in (Suc n, rv)))
      | (r, t) \<Rightarrow> (0, r, t))"

lemma same_cards_trans: "same_cards s t \<Longrightarrow> same_cards t u \<Longrightarrow> same_cards s u"
  by (simp add: same_cards_def)

lemma run_drained:
  "london_inv l s \<Longrightarrow>
     (case run_mulligans sha dmove zmove acts s of (n, r, t) \<Rightarrow>
        n \<le> decisions_left l \<and> drained_to s (decisions_left l - n) (r, t))"
proof (induction acts arbitrary: l s)
  case Nil
  then show ?case using drain_drained[OF Nil, of sha dmove zmove] by (auto split: prod.splits)
next
  case (Cons act acts)
  obtain r t where dr: "drain_mulligans sha dmove zmove s = (r, t)" by fastforce
  note D = drain_drained[OF Cons.prems, of sha dmove zmove, unfolded dr]
  show ?case
  proof (cases "\<exists>d. r = Inr (Some d)")
    case False
    then show ?thesis using D dr by (cases r) (auto split: option.splits)
  next
    case True
    then obtain d where r: "r = Inr (Some d)" by blast
    obtain m where m: "same_cards s t" "london_inv m t" "decision_for m t d" "decisions_left m \<le> decisions_left l"
      using D r by auto
    show ?thesis
    proof (cases "answers d act")
      case False
      then obtain e where "mulligan_answer zmove act t = (Inl e, t)" using answer_rejected[OF m(2,3)] by blast
      then show ?thesis
        using Cons.IH[OF m(2)] dr r m(4) drained_weaken[OF _ m(1)] by (fastforce split: prod.splits)
    next
      case ok: True
      obtain k u where u: "mulligan_answer zmove act t = (Inr (), u)" "london_inv k u" "decisions_left k < decisions_left m"
        "same_cards t u"
        using answer_accepted[OF m(2,3) ok] by blast
      obtain n w v where run: "run_mulligans sha dmove zmove acts u = (n, w, v)" by (metis prod_cases3)
      then have "n \<le> decisions_left k" "drained_to u (decisions_left k - n) (w, v)"
        using Cons.IH[OF u(2)] by auto
      moreover have "decisions_left k - n \<le> decisions_left l - Suc n" using u(3) m(4) by simp
      ultimately have "Suc n \<le> decisions_left l" "drained_to s (decisions_left l - Suc n) (w, v)"
        using u(3) m(4) drained_weaken[OF _ same_cards_trans[OF m(1) u(4)]] by auto
      then show ?thesis using dr r u(1) run by simp
    qed
  qed
qed

lemma enabled_inv:
  assumes "enable_london_mulligans_v1 s = (Inr (), t)" "cards_inv (game s)"
  obtains l where "london_inv l t" "decisions_left l = 70" "game t = game s"
proof -
  define l where "l = \<lparr>mul_starting = first_player s, counts = (\<lambda>_. 0), kept = (\<lambda>_. False),
               mulligan_this_round = (\<lambda>_. False), hands = hand_bindings (game s), stage = Announce 0\<rparr>"
  have v: "valid_player (first_player s)" and seven: "\<forall>p. valid_player p \<longrightarrow> length (hand (game s) p) = 7"
    and t: "turn s = 1" "step s = Untap" "t = s\<lparr>london_mulligans_v1 := Some l\<rparr>"
    using assms(1) by (auto simp: enable_london_mulligans_v1_def l_def HAND_SIZE_def valid_player_def split: if_splits)
  have v': "valid_player (mulligan_player l i)" for i using seats(2)[of l] v by (simp add: l_def)
  have "seat_inv (game s) l i" for i
    using seven v'[of i] by (simp add: seat_defs l_def cards_of_def)
  then have "london_inv l t" using assms(2) v t by (simp add: london_inv_def l_def)
  moreover have "decisions_left l = 70"
    by (simp add: decisions_left_def seat_decisions_def l_def Let_def decisions_from_def upt_rec)
  ultimately show thesis using that t by simp
qed

lemma complete_hands:
  assumes "london_inv m t" "stage m = Complete" "valid_player p"
  shows "kept m p \<and> unat (counts m p) \<le> 7 \<and> length (hand (game t) p) = 7 - unat (counts m p)"
proof -
  have v: "valid_player (mul_starting m)" and "seat_inv (game t) m 0" "seat_inv (game t) m 1"
    using assms(1) unfolding london_inv_def by blast+
  then have "\<forall>p. valid_player p \<longrightarrow> kept m p \<and> unat (counts m p) \<le> 7 \<and> length (hand (game t) p) = 7 - unat (counts m p)"
    using assms(2) unfolding seats(3)[OF v] by (simp add: seat_defs)
  then show ?thesis using assms(3) by blast
qed

text \<open>C36. Whatever the players answer after a fresh deal, the London mulligan procedure keeps the
  cards of each player: its library and hand together hold the same cards as before, every card's
  object says where it is, and every fact a player holds about hidden cards is true. The only error
  is a failed shuffle. When the procedure completes, both players have kept, nobody took more than
  seven mulligans, each hand has seven cards less the mulligans taken, and the kept hands it passes
  on are exactly the hands.\<close>

theorem mulligans_correct:
  assumes "enable_london_mulligans_v1 s = (Inr (), t)" "cards_inv (game s)"
    and "run_mulligans sha dmove zmove acts t = (n, r, u)"
  shows "cards_inv (game u) \<and>
    (\<forall>p. valid_player p \<longrightarrow> cards_of (game u) p = cards_of (game s) p) \<and>
    (case r of
       Inl e \<Rightarrow> \<exists>d. e = MulliganShuffleFailed d
     | Inr (Some _) \<Rightarrow> has_pending u
     | Inr None \<Rightarrow>
         (\<exists>l. london_mulligans_v1 u = Some l \<and> is_complete l \<and> kept_hands_for_opening_v1 u = Inr (Some (hands l)) \<and>
            (\<forall>p. valid_player p \<longrightarrow> kept l p \<and> unat (counts l p) \<le> 7 \<and>
               length (hand (game u) p) = 7 - unat (counts l p) \<and> hands l p = hand_bindings (game u) p)))"
proof -
  obtain l where l: "london_inv l t" "decisions_left l = 70" "game t = game s" by (rule enabled_inv[OF assms(1,2)])
  have D: "drained_to t (70 - n) (r, u)" using run_drained[OF l(1), of sha dmove zmove acts] l(2) assms(3) by simp
  then have cards: "cards_inv (game u) \<and> (\<forall>p. valid_player p \<longrightarrow> cards_of (game u) p = cards_of (game s) p)"
    using l(3) by (cases "(t, 70 - n, r, u)" rule: drained_to.cases) (auto simp: same_cards_def)
  show ?thesis
  proof (cases r)
    case (Inl e)
    then show ?thesis using D cards by simp
  next
    case (Inr d)
    show ?thesis
    proof (cases d)
      case None
      with Inr D obtain m where m: "london_inv m u" "stage m = Complete" by auto
      then have "london_mulligans_v1 u = Some m" by (simp add: london_inv_def)
      moreover have "hands m p = hand_bindings (game u) p" if "valid_player p" for p
        using m(1) seats(3)[of m "\<lambda>p. hands m p = hand_bindings (game u) p"] that
        by (auto simp: london_inv_def seat_inv_def Let_def)
      ultimately show ?thesis
        using Inr None cards m complete_hands[OF m] london_inv_validate[OF m(1)]
        by (simp add: is_complete_def kept_hands_for_opening_v1_def)
    next
      case (Some x)
      then have "has_pending u"
        using Inr D by (cases x) (auto simp: has_pending_def is_complete_def london_inv_def decision_for_def)
      then show ?thesis using Inr Some cards by simp
    qed
  qed
qed

text \<open>C37. The London mulligan procedure ends: after a fresh deal at most 70 answers are ever
  accepted (35 for each player). While it waits for a decision, exactly the answers that decision
  offers are accepted - either announcement, or any card of the acting player's non-empty hand - and
  every other answer is refused with the state unchanged.\<close>

theorem mulligans_end:
  assumes "enable_london_mulligans_v1 s = (Inr (), t)" "cards_inv (game s)"
    and "run_mulligans sha dmove zmove acts t = (n, r, u)"
  shows "n \<le> 70 \<and> (\<forall>d. r = Inr (Some d) \<longrightarrow>
    n < 70 \<and> (\<exists>act. answers d act) \<and>
    (\<forall>act. if answers d act then \<exists>v. mulligan_answer zmove act u = (Inr (), v)
           else \<exists>e. mulligan_answer zmove act u = (Inl e, u)))"
proof -
  obtain l where l: "london_inv l t" "decisions_left l = 70" by (rule enabled_inv[OF assms(1,2)])
  have D: "n \<le> 70" "drained_to t (70 - n) (r, u)"
    using run_drained[OF l(1), of sha dmove zmove acts] l(2) assms(3) by simp_all
  have "n < 70 \<and> (\<exists>act. answers d act) \<and>
    (\<forall>act. if answers d act then \<exists>v. mulligan_answer zmove act u = (Inr (), v)
           else \<exists>e. mulligan_answer zmove act u = (Inl e, u))" if d: "r = Inr (Some d)" for d
  proof -
    obtain m where m: "london_inv m u" "decision_for m u d" "decisions_left m \<le> 70 - n" using D(2) d by auto
    have ex: "\<exists>act. answers d act"
    proof (cases d)
      case (ChooseLondonMulligan p c)
      then have "answers d (AnswerMulligan False)" by simp
      then show ?thesis ..
    next
      case (ChooseLondonBottom p k cards)
      with m(2) have "cards \<noteq> []" by (auto simp: decision_for_def word_less_nat_alt)
      then have "answers d (AnswerBottom (hd cards))" using ChooseLondonBottom by simp
      then show ?thesis ..
    qed
    then obtain act k v where "decisions_left k < decisions_left m"
      using answer_accepted[OF m(1,2)] by metis
    then have "n < 70" using m(3) by simp
    then show ?thesis using ex answer_accepted[OF m(1,2)] answer_rejected[OF m(1,2)] by metis
  qed
  then show ?thesis using D(1) by blast
qed

section \<open>A fresh deal\<close>

text \<open>Eight cards for each player, seven of them in hand.\<close>

definition fresh_deal :: "unit PregameState" where
  "fresh_deal =
     \<lparr>game = \<lparr>library = (\<lambda>p. if p = P0 then [ObjectId 0] else [ObjectId 8]),
        hand = (\<lambda>p. if p = P0 then map ObjectId [1, 2, 3, 4, 5, 6, 7] else map ObjectId [9, 10, 11, 12, 13, 14, 15]),
        graveyard_cards = (\<lambda>_. []),
        objects = \<lparr>items = [
          demo_object P0 Library, demo_object P0 Hand, demo_object P0 Hand, demo_object P0 Hand,
          demo_object P0 Hand, demo_object P0 Hand, demo_object P0 Hand, demo_object P0 Hand,
          demo_object P1 Library, demo_object P1 Hand, demo_object P1 Hand, demo_object P1 Hand,
          demo_object P1 Hand, demo_object P1 Hand, demo_object P1 Hand, demo_object P1 Hand]\<rparr>,
        library_knowledge = (\<lambda>_ _. []), hand_knowledge = (\<lambda>_ _. []), randomness = EnvironmentV2 (environment_new 7),
        observation_journal = [], event_history_len = 0, neutral_choices = False, rest = ()\<rparr>,
      first_player = P1, turn = 1, step = Untap, active_player = P1, stack_items = [], exile_cards = [],
      command_cards = [], battlefield_cards = (\<lambda>_. []), has_lost = (\<lambda>_. False), london_mulligans_v1 = None\<rparr>"

lemma fresh_deal_inv: "cards_inv (game fresh_deal)"
proof -
  have "knowledge_inv (game fresh_deal)"
    by (rule knowledge_invI) (simp_all add: zones_ok_def fresh_deal_def facts_true_def hand_facts_true_def)
  moreover have "placed (game fresh_deal)"
    by (simp add: placed_def valid_player_def fresh_deal_def demo_object_def object_get_def)
  ultimately show ?thesis by (simp add: cards_inv_def)
qed

lemma fresh_deal_enabled:
  "fst (enable_london_mulligans_v1 fresh_deal) = Inr ()"
  by (simp add: enable_london_mulligans_v1_def fresh_deal_def valid_player_def HAND_SIZE_def)

definition fresh_run :: "MulliganAction list \<Rightarrow> nat \<times> (MulliganDecision option, MulliganError) result \<times> unit PregameState" where
  "fresh_run acts = run_mulligans (\<lambda>_. replicate 8 3) (\<lambda>_ u. u) (\<lambda>_ _ _ u. u) acts (snd (enable_london_mulligans_v1 fresh_deal))"

theorem mulligans_correct_witness:
  "case fresh_run [AnswerMulligan True, OtherAction, AnswerMulligan False] of (n, r, u) \<Rightarrow>
     cards_of (game u) P0 = cards_of (game fresh_deal) P0 \<and> cards_of (game u) P1 = cards_of (game fresh_deal) P1"
proof -
  have "enable_london_mulligans_v1 fresh_deal = (Inr (), snd (enable_london_mulligans_v1 fresh_deal))"
    using fresh_deal_enabled by (metis prod.collapse)
  moreover obtain n r u where run: "fresh_run [AnswerMulligan True, OtherAction, AnswerMulligan False] = (n, r, u)"
    by (metis prod_cases3)
  ultimately show ?thesis
    using mulligans_correct[OF _ fresh_deal_inv run[unfolded fresh_run_def]] unfolding run by (auto simp: valid_player_def)
qed

theorem mulligans_end_witness:
  "case fresh_run [AnswerMulligan True, OtherAction, AnswerMulligan False] of (n, r, u) \<Rightarrow>
     n \<le> 70 \<and> (\<forall>d. r = Inr (Some d) \<longrightarrow> (\<exists>act. answers d act))"
proof -
  have "enable_london_mulligans_v1 fresh_deal = (Inr (), snd (enable_london_mulligans_v1 fresh_deal))"
    using fresh_deal_enabled by (metis prod.collapse)
  moreover obtain n r u where run: "fresh_run [AnswerMulligan True, OtherAction, AnswerMulligan False] = (n, r, u)"
    by (metis prod_cases3)
  ultimately show ?thesis
    using mulligans_end[OF _ fresh_deal_inv run[unfolded fresh_run_def]] unfolding run by auto
qed

end
