(* ===== verification/Combat.thy ===== *)
theory Combat
  imports Library
begin

unbundle bit_operations_syntax

text \<open>
  Combat: \<^verbatim>\<open>mtg-kernel/src/combat_damage_v1.rs\<close> (damage assignment by binary ranges),
  \<^verbatim>\<open>attack_target_v1.rs\<close> (who is attacked) and the combat part of \<^verbatim>\<open>engine.rs\<close>
  (\<^verbatim>\<open>CombatState\<close>, the declarations of attackers and blockers, and the fixed damage assignment
  of games without the Foundations rules).

  The state record holds what this code reads of \<^verbatim>\<open>GameState\<close>. The characteristics that the
  continuous-effect code computes for an object (\<^verbatim>\<open>effective_power\<close>,
  \<^verbatim>\<open>has_effective_keyword\<close>, \<^verbatim>\<open>object_has_type\<close>, ...) are fields of the object, named
  \<open>eff_\<close>, because that code is not modelled; nothing below writes them. The checks of single
  cards in \<^verbatim>\<open>legal_blockers_for\<close> are the relation \<open>card_bars\<close>. The Cargo features
  \<^verbatim>\<open>eternal-fixtures\<close> and \<^verbatim>\<open>standard-magezero-fixtures\<close> are off. Committing damage or a tap
  event, the state-based actions and the queueing of triggers belong to the event code and are
  arguments. \<^verbatim>\<open>i32\<close> values are \<open>int\<close>, with the 32-bit range written where it matters.
\<close>

section \<open>Data\<close>

datatype Target = TargetObject ObjectId | TargetPlayer PlayerId | TargetStackItem StackItemId

record GoadStateV4 =
  goad_player :: PlayerId
  expires_at_turn :: u32

record BattleObject =
  obj_zone :: Zone
  obj_generation :: u32
  obj_controller :: PlayerId
  obj_tapped :: bool
  summoning_sick :: bool
  obj_damage :: u32
  goaded_by :: "GoadStateV4 list"
  time_counters :: u32
  enduring_enchantment :: bool
  minimum_blockers_override :: "nat option"
  eff_power :: int
  eff_toughness :: int
  eff_keywords :: u32
  eff_executable :: bool
  eff_creature :: bool
  eff_planeswalker :: bool
  eff_island_land :: bool
  eff_monocolored :: bool
  eff_minimum_blockers :: nat
  eff_must_attack :: bool
  eff_cant_be_blocked :: bool
  eff_evades_monarch :: bool
  eff_no_combat_damage :: bool

datatype DamagePhaseV1 = BeforeDamage | FirstStrike | Normal

record DamageRecipientV1 =
  target :: Target
  incarnation :: "ObjectLinkV4 option"
  lethal :: int

record CreatureDamageV1 =
  damage_source :: ObjectLinkV4
  damage_controller :: PlayerId
  creature_power :: int
  recipients :: "DamageRecipientV1 list"
  trample :: bool
  amounts :: "int list"

record DamageRangeV1 =
  range_min :: int
  range_max :: int

record PendingDamageV1 =
  creatures :: "CreatureDamageV1 list"
  creature_index :: nat
  current_range :: "DamageRangeV1 option"

record FoundationsCombatV1 =
  damage_phase :: DamagePhaseV1
  first_strikers :: "ObjectLinkV4 list"
  pending_damage :: "PendingDamageV1 option"

record PendingAttackDeclarationV1 =
  declared_attackers :: "ObjectId list"
  chosen_targets :: "Target list"

record AttackTargetsV1 =
  planeswalker_attacks :: "(ObjectId \<times> ObjectLinkV4) list"
  pending_declaration :: "PendingAttackDeclarationV1 option"

record CombatState =
  attackers_declared :: bool
  blockers_declared :: bool
  attackers :: "ObjectId list"
  blocked_by :: "(ObjectId \<times> ObjectId list) list"
  foundations :: "FoundationsCombatV1 option"
  attack_targets :: "AttackTargetsV1 option"

record 'r CombatGame =
  current_step :: Step
  active_player :: PlayerId
  battlefield :: "PlayerId \<Rightarrow> ObjectId list"
  battle_objects :: "BattleObject Arena"
  stack_items :: "StackItemId list"
  monarch :: "PlayerId option"
  extra_turns :: bool
  turn_key :: u32
  card_bars :: "ObjectId \<Rightarrow> ObjectId \<Rightarrow> bool"
  halted :: bool
  combat :: CombatState
  other_state :: 'r

datatype Decision =
    ChooseAttackTarget PlayerId ObjectId "Target list"
  | ChooseCombatDamageRange PlayerId ObjectId Target int int int

datatype ProposedDamage = ProposedDamage (damage_from: ObjectId) (damage_to: Target) (damage_amount: int)

datatype CombatError =
    CombatAlreadyBegan
  | NoAttackersDecision
  | IneligibleAttacker
  | GoadedAttackerOmitted
  | RequiredAttackerOmitted
  | DuplicateAttacker
  | NoBlockersDecision
  | NotAnAttacker ObjectId
  | CannotBlock ObjectId ObjectId
  | BlocksTwice ObjectId
  | TooFewBlockers ObjectId nat
  | NoAttackTargetPending
  | InvalidAttackTargetContinuation
  | IllegalAttackTarget
  | CombatRulesDisabled
  | NoPendingDamage
  | InvalidDamageContinuation
  | DamageSourceChanged
  | DamageRecipientChanged
  | NegativeDamage
  | DamageOverflow
  | DamageExceedsPower
  | RecipientMissing
  | TrampleBypassesLethal
  | IncompleteAllocation
  | InvalidAmountRange
  | ChoiceNotOffered
  | NoCurrentSource
  | InvalidChoiceRange
  | OnlyAttackTargetAnswer
  | OnlyDamageAnswer
  | NoDamageChoicePending

definition combat_default :: CombatState where
  "combat_default = \<lparr>attackers_declared = False, blockers_declared = False, attackers = [],
     blocked_by = [], foundations = None, attack_targets = None\<rparr>"

definition foundations_default :: FoundationsCombatV1 where
  "foundations_default = \<lparr>damage_phase = BeforeDamage, first_strikers = [], pending_damage = None\<rparr>"

definition FLYING :: u32 where "FLYING = 1"

definition REACH :: u32 where "REACH = 2"

definition HASTE :: u32 where "HASTE = 4"

definition VIGILANCE :: u32 where "VIGILANCE = 8"

definition TRAMPLE :: u32 where "TRAMPLE = 16"

definition FIRST_STRIKE :: u32 where "FIRST_STRIKE = 32"

definition DOUBLE_STRIKE :: u32 where "DOUBLE_STRIKE = 64"

definition DEATHTOUCH :: u32 where "DEATHTOUCH = 128"

definition MENACE :: u32 where "MENACE = 256"

definition DEFENDER :: u32 where "DEFENDER = 512"

definition PROTECTION_FROM_MONOCOLORED :: u32 where "PROTECTION_FROM_MONOCOLORED = 8192"

definition ISLANDWALK :: u32 where "ISLANDWALK = 16384"

definition CANT_BE_BLOCKED :: u32 where "CANT_BE_BLOCKED = 65536"

definition PROTECTION_FROM_EVERYTHING :: u32 where "PROTECTION_FROM_EVERYTHING = 524288"

text \<open>Reading the state. \<^verbatim>\<open>objects.get\<close> of an unknown id is a panic, unspecified here.\<close>

definition battle_object :: "'r CombatGame \<Rightarrow> ObjectId \<Rightarrow> BattleObject" where
  "battle_object s x = items (battle_objects s) ! unat (object_raw x)"

definition has_effective_keyword :: "'r CombatGame \<Rightarrow> ObjectId \<Rightarrow> u32 \<Rightarrow> bool" where
  "has_effective_keyword s x k \<longleftrightarrow> eff_keywords (battle_object s x) AND k \<noteq> 0"

definition in_i32 :: "int \<Rightarrow> bool" where
  "in_i32 x \<longleftrightarrow> - (2 ^ 31) \<le> x \<and> x < 2 ^ 31"

text \<open>The value of 32-bit signed arithmetic whose exact result is \<open>x\<close>.\<close>

definition wrap_i32 :: "int \<Rightarrow> int" where
  "wrap_i32 x = sint (word_of_int x :: u32)"

definition link :: "'r CombatGame \<Rightarrow> ObjectId \<Rightarrow> ObjectLinkV4" where
  "link s x = \<lparr>link_object = x, link_generation = obj_generation (battle_object s x)\<rparr>"

definition live :: "'r CombatGame \<Rightarrow> ObjectLinkV4 \<Rightarrow> bool" where
  "live s l \<longleftrightarrow>
     (case arena_try_get (battle_objects s) (link_object l) of
        None \<Rightarrow> False
      | Some b \<Rightarrow> obj_zone b = Battlefield \<and> obj_generation b = link_generation l)"

definition is_still_in_combat :: "'r CombatGame \<Rightarrow> ObjectId \<Rightarrow> bool" where
  "is_still_in_combat s x \<longleftrightarrow> obj_zone (battle_object s x) = Battlefield"

section \<open>The combat record\<close>

definition reset_preserving_rules :: "CombatState \<Rightarrow> CombatState" where
  "reset_preserving_rules c =
     combat_default\<lparr>foundations :=
       (if foundations c = None then None else Some foundations_default)\<rparr>"

definition remove_attack_target :: "ObjectId \<Rightarrow> AttackTargetsV1 option \<Rightarrow> AttackTargetsV1 option" where
  "remove_attack_target x ts =
     (case ts of
        None \<Rightarrow> None
      | Some t \<Rightarrow>
          (let t' = t\<lparr>planeswalker_attacks := filter (\<lambda>(a, _). a \<noteq> x) (planeswalker_attacks t)\<rparr>
           in if planeswalker_attacks t' = [] \<and> pending_declaration t' = None then None else Some t'))"

definition remove_from_combat :: "ObjectId \<Rightarrow> CombatState \<Rightarrow> CombatState" where
  "remove_from_combat x c =
     c\<lparr>attackers := filter (\<lambda>a. a \<noteq> x) (attackers c),
       blocked_by := map (\<lambda>(a, bs). (a, filter (\<lambda>b. b \<noteq> x) bs))
                       (filter (\<lambda>(a, _). a \<noteq> x) (blocked_by c)),
       attack_targets := remove_attack_target x (attack_targets c)\<rparr>"

definition set_combat :: "(CombatState \<Rightarrow> CombatState) \<Rightarrow> 'r CombatGame \<Rightarrow> 'r CombatGame" where
  "set_combat f s = s\<lparr>combat := f (combat s)\<rparr>"

section \<open>Attackers\<close>

definition can_attack :: "'r CombatGame \<Rightarrow> ObjectId \<Rightarrow> bool" where
  "can_attack s x \<longleftrightarrow>
     (let b = battle_object s x in
      eff_executable b \<and> eff_creature b \<and> \<not> obj_tapped b \<and>
      \<not> has_effective_keyword s x DEFENDER \<and>
      (\<not> summoning_sick b \<or> has_effective_keyword s x HASTE) \<and>
      time_counters b = 0 \<and> \<not> enduring_enchantment b)"

definition eligible_attackers :: "'r CombatGame \<Rightarrow> ObjectId list" where
  "eligible_attackers s = filter (can_attack s) (battlefield s (active_player s))"

definition goad_is_active :: "'r CombatGame \<Rightarrow> GoadStateV4 \<Rightarrow> bool" where
  "goad_is_active s g \<longleftrightarrow>
     extra_turns s \<or> expires_at_turn g > turn_key s \<or>
     (expires_at_turn g = turn_key s \<and> active_player s \<noteq> goad_player g)"

definition required_goaded_attackers :: "'r CombatGame \<Rightarrow> ObjectId list \<Rightarrow> ObjectId list" where
  "required_goaded_attackers s eligible =
     filter (\<lambda>x. list_ex (goad_is_active s) (goaded_by (battle_object s x))) eligible"

definition required_attackers :: "'r CombatGame \<Rightarrow> ObjectId list \<Rightarrow> ObjectId list" where
  "required_attackers s eligible =
     (let goaded = required_goaded_attackers s eligible in
      filter (\<lambda>x. x \<in> set goaded \<or>
                  (obj_controller (battle_object s x) = active_player s \<and>
                   eff_must_attack (battle_object s x))) eligible)"

definition validate_declare_attackers ::
  "'r CombatGame \<Rightarrow> ObjectId list \<Rightarrow> (unit, CombatError) result" where
  "validate_declare_attackers s xs =
     (let eligible = eligible_attackers s in
      if current_step s \<noteq> DeclareAttackers \<or> attackers_declared (combat s) then Inl NoAttackersDecision
      else if \<not> list_all (\<lambda>a. a \<in> set eligible) xs then Inl IneligibleAttacker
      else if \<not> list_all (\<lambda>a. a \<in> set xs) (required_goaded_attackers s eligible)
      then Inl GoadedAttackerOmitted
      else if \<not> list_all (\<lambda>a. a \<in> set xs) (required_attackers s eligible)
      then Inl RequiredAttackerOmitted
      else if length (remdups_adj (sort xs)) \<noteq> length xs then Inl DuplicateAttacker
      else Inr ())"

text \<open>
  \<open>tap\<close> commits a tap event, \<open>publish\<close> records the attack events for triggers, and \<open>settle\<close> is
  \<^verbatim>\<open>collect_and_queue_triggers\<close> followed by \<^verbatim>\<open>reset_priority\<close>.
\<close>

definition commit_attack_declaration ::
  "(ObjectId \<Rightarrow> 'r CombatGame \<Rightarrow> 'r CombatGame) \<Rightarrow> ('r CombatGame \<Rightarrow> 'r CombatGame) \<Rightarrow> ObjectId list
    \<Rightarrow> 'r CombatGame \<Rightarrow> 'r CombatGame" where
  "commit_attack_declaration tap publish xs s =
     publish (set_combat (\<lambda>c. c\<lparr>attackers := xs, attackers_declared := True\<rparr>)
       (fold (\<lambda>x t. if has_effective_keyword t x VIGILANCE then t else tap x t) xs s))"

definition finish_declare_attackers ::
  "(ObjectId \<Rightarrow> 'r CombatGame \<Rightarrow> 'r CombatGame) \<Rightarrow> ('r CombatGame \<Rightarrow> 'r CombatGame)
    \<Rightarrow> ('r CombatGame \<Rightarrow> 'r CombatGame) \<Rightarrow> ObjectId list \<Rightarrow> 'r CombatGame \<Rightarrow> 'r CombatGame" where
  "finish_declare_attackers tap publish settle xs s =
     settle (commit_attack_declaration tap publish xs s)"

section \<open>Attack targets\<close>

definition defending_planeswalkers :: "'r CombatGame \<Rightarrow> PlayerId \<Rightarrow> ObjectId list" where
  "defending_planeswalkers s p =
     filter (\<lambda>x. obj_zone (battle_object s x) = Battlefield \<and> obj_controller (battle_object s x) = p \<and>
                 eff_planeswalker (battle_object s x)) (battlefield s p)"

definition has_pending_attack :: "'r CombatGame \<Rightarrow> bool" where
  "has_pending_attack s \<longleftrightarrow>
     (case attack_targets (combat s) of None \<Rightarrow> False | Some t \<Rightarrow> pending_declaration t \<noteq> None)"

definition begin_attack_targets :: "ObjectId list \<Rightarrow> 'r CombatGame \<Rightarrow> bool \<times> 'r CombatGame" where
  "begin_attack_targets xs s =
     (if xs = [] \<or> defending_planeswalkers s (opponent (active_player s)) = [] then (False, s)
      else (True, set_combat (\<lambda>c. c\<lparr>attack_targets := Some \<lparr>planeswalker_attacks = [],
                    pending_declaration = Some \<lparr>declared_attackers = xs, chosen_targets = []\<rparr>\<rparr>\<rparr>) s))"

definition apply_declare_attackers ::
  "(ObjectId \<Rightarrow> 'r CombatGame \<Rightarrow> 'r CombatGame) \<Rightarrow> ('r CombatGame \<Rightarrow> 'r CombatGame)
    \<Rightarrow> ('r CombatGame \<Rightarrow> 'r CombatGame) \<Rightarrow> ObjectId list \<Rightarrow> 'r CombatGame
    \<Rightarrow> (unit, CombatError) result \<times> 'r CombatGame" where
  "apply_declare_attackers tap publish settle xs s =
     (case validate_declare_attackers s xs of
        Inl e \<Rightarrow> (Inl e, s)
      | Inr _ \<Rightarrow>
          (case begin_attack_targets xs s of
             (True, t) \<Rightarrow> (Inr (), t)
           | (False, t) \<Rightarrow> (Inr (), finish_declare_attackers tap publish settle xs t)))"

definition attack_target_candidates :: "'r CombatGame \<Rightarrow> Target list" where
  "attack_target_candidates s =
     (let p = opponent (active_player s) in
      TargetPlayer p # map TargetObject (defending_planeswalkers s p))"

definition pending_attack :: "'r CombatGame \<Rightarrow> (PendingAttackDeclarationV1, CombatError) result" where
  "pending_attack s =
     (case attack_targets (combat s) of
        None \<Rightarrow> Inl NoAttackTargetPending
      | Some t \<Rightarrow>
          (case pending_declaration t of
             None \<Rightarrow> Inl NoAttackTargetPending
           | Some p \<Rightarrow>
               if current_step s \<noteq> DeclareAttackers \<or> attackers_declared (combat s) \<or>
                  length (declared_attackers p) \<le> length (chosen_targets p)
               then Inl InvalidAttackTargetContinuation
               else and_then (validate_declare_attackers s (declared_attackers p)) (\<lambda>_. Inr p)))"

definition attack_target_decision :: "'r CombatGame \<Rightarrow> Decision option" where
  "attack_target_decision s =
     (case pending_attack s of
        Inl _ \<Rightarrow> None
      | Inr p \<Rightarrow> Some (ChooseAttackTarget (active_player s)
                   (declared_attackers p ! length (chosen_targets p)) (attack_target_candidates s)))"

definition planeswalker_links ::
  "'r CombatGame \<Rightarrow> (ObjectId \<times> Target) list \<Rightarrow> (ObjectId \<times> ObjectLinkV4) list" where
  "planeswalker_links s pairs =
     concat (map (\<lambda>(a, t). case t of TargetObject x \<Rightarrow> [(a, link s x)] | _ \<Rightarrow> []) pairs)"

definition attack_target_answer ::
  "(ObjectId \<Rightarrow> 'r CombatGame \<Rightarrow> 'r CombatGame) \<Rightarrow> ('r CombatGame \<Rightarrow> 'r CombatGame)
    \<Rightarrow> ('r CombatGame \<Rightarrow> 'r CombatGame) \<Rightarrow> Target \<Rightarrow> 'r CombatGame
    \<Rightarrow> (unit, CombatError) result \<times> 'r CombatGame" where
  "attack_target_answer tap publish settle tgt s =
     (case (pending_attack s, attack_targets (combat s)) of
        (Inr p, Some ts) \<Rightarrow>
          if tgt \<notin> set (attack_target_candidates s) then (Inl IllegalAttackTarget, s)
          else
            (let chosen = chosen_targets p @ [tgt] in
             if length chosen < length (declared_attackers p)
             then (Inr (), set_combat (\<lambda>c. c\<lparr>attack_targets :=
                     Some (ts\<lparr>pending_declaration := Some (p\<lparr>chosen_targets := chosen\<rparr>)\<rparr>)\<rparr>) s)
             else
               (let pw = planeswalker_attacks ts @ planeswalker_links s (zip (declared_attackers p) chosen);
                    ts' = (if pw = [] then None
                           else Some (ts\<lparr>planeswalker_attacks := pw, pending_declaration := None\<rparr>))
                in (Inr (), finish_declare_attackers tap publish settle (declared_attackers p)
                      (set_combat (\<lambda>c. c\<lparr>attack_targets := ts'\<rparr>) s))))
      | (Inl e, _) \<Rightarrow> (Inl e, s)
      | (Inr _, None) \<Rightarrow> (Inl NoAttackTargetPending, s))"

definition attacked_planeswalker :: "'r CombatGame \<Rightarrow> ObjectId \<Rightarrow> ObjectLinkV4 option" where
  "attacked_planeswalker s a =
     (case attack_targets (combat s) of
        None \<Rightarrow> None
      | Some t \<Rightarrow> map_of (planeswalker_attacks t) a)"

definition damage_recipient :: "'r CombatGame \<Rightarrow> ObjectId \<Rightarrow> (Target \<times> ObjectLinkV4 option) option" where
  "damage_recipient s a =
     (case attacked_planeswalker s a of
        None \<Rightarrow> Some (TargetPlayer (opponent (obj_controller (battle_object s a))), None)
      | Some l \<Rightarrow> if live s l then Some (TargetObject (link_object l), Some l) else None)"

definition inherit_ninjutsu_target :: "ObjectId \<Rightarrow> ObjectLinkV4 \<Rightarrow> 'r CombatGame \<Rightarrow> 'r CombatGame" where
  "inherit_ninjutsu_target a l =
     set_combat (\<lambda>c. c\<lparr>attack_targets :=
       (let t = (case attack_targets c of
                   None \<Rightarrow> \<lparr>planeswalker_attacks = [], pending_declaration = None\<rparr> | Some t \<Rightarrow> t)
        in Some (t\<lparr>planeswalker_attacks :=
                     filter (\<lambda>(x, _). x \<noteq> a) (planeswalker_attacks t) @ [(a, l)]\<rparr>))\<rparr>)"

section \<open>Blockers\<close>

definition minimum_blockers_required :: "'r CombatGame \<Rightarrow> ObjectId \<Rightarrow> nat" where
  "minimum_blockers_required s a =
     (let b = battle_object s a;
          keyword_minimum = (if has_effective_keyword s a MENACE then 2 else 1)
      in max (case minimum_blockers_override b of
                Some n \<Rightarrow> n
              | None \<Rightarrow> max (eff_minimum_blockers b) keyword_minimum) 1)"

definition blocker_fits :: "'r CombatGame \<Rightarrow> ObjectId \<Rightarrow> ObjectId \<Rightarrow> bool" where
  "blocker_fits s a x \<longleftrightarrow>
     (let b = battle_object s x in
      \<not> obj_tapped b \<and> eff_executable b \<and> eff_creature b \<and> \<not> card_bars s a x \<and>
      \<not> (has_effective_keyword s a PROTECTION_FROM_EVERYTHING \<or>
         (has_effective_keyword s a PROTECTION_FROM_MONOCOLORED \<and> eff_monocolored b)) \<and>
      \<not> (has_effective_keyword s a FLYING \<and> \<not> has_effective_keyword s x FLYING \<and>
         \<not> has_effective_keyword s x REACH))"

definition legal_blockers_for :: "'r CombatGame \<Rightarrow> ObjectId \<Rightarrow> ObjectId list" where
  "legal_blockers_for s a =
     (let b = battle_object s a;
          defender = opponent (obj_controller b);
          field = battlefield s defender
      in if list_ex (\<lambda>x. eff_island_land (battle_object s x)) field \<and> has_effective_keyword s a ISLANDWALK
         then []
         else if eff_cant_be_blocked b \<or> has_effective_keyword s a CANT_BE_BLOCKED then []
         else if eff_evades_monarch b \<and> monarch s = Some defender then []
         else
           (let blockers = filter (blocker_fits s a) field in
            if length blockers < minimum_blockers_required s a then [] else blockers))"

fun check_blocks ::
  "'r CombatGame \<Rightarrow> ObjectId list \<Rightarrow> ObjectId list \<Rightarrow> (ObjectId \<times> ObjectId) list
    \<Rightarrow> (unit, CombatError) result" where
  "check_blocks s atts used_blockers [] = Inr ()"
| "check_blocks s atts used_blockers ((b, a) # rest_blocks) =
     (if a \<notin> set atts then Inl (NotAnAttacker a)
      else if b \<notin> set (legal_blockers_for s a) then Inl (CannotBlock b a)
      else if b \<in> set used_blockers then Inl (BlocksTwice b)
      else check_blocks s atts (used_blockers @ [b]) rest_blocks)"

fun check_minimums ::
  "'r CombatGame \<Rightarrow> (ObjectId \<times> ObjectId) list \<Rightarrow> ObjectId list \<Rightarrow> (unit, CombatError) result" where
  "check_minimums s blocks [] = Inr ()"
| "check_minimums s blocks (a # as) =
     (let assigned = length (filter (\<lambda>(_, x). x = a) blocks);
          least = minimum_blockers_required s a
      in if assigned \<noteq> 0 \<and> assigned < least then Inl (TooFewBlockers a least)
         else check_minimums s blocks as)"

definition validate_declare_blockers ::
  "'r CombatGame \<Rightarrow> (ObjectId \<times> ObjectId) list \<Rightarrow> (unit, CombatError) result" where
  "validate_declare_blockers s blocks =
     (if current_step s \<noteq> DeclareBlockers \<or> blockers_declared (combat s) then Inl NoBlockersDecision
      else
        (let atts = filter (is_still_in_combat s) (attackers (combat s)) in
         and_then (check_blocks s atts [] blocks) (\<lambda>_. check_minimums s blocks atts)))"

fun add_block ::
  "ObjectId \<times> ObjectId \<Rightarrow> (ObjectId \<times> ObjectId list) list \<Rightarrow> (ObjectId \<times> ObjectId list) list" where
  "add_block (b, a) [] = [(a, [b])]"
| "add_block (b, a) ((x, bs) # groups) =
     (if x = a then (x, bs @ [b]) # groups else (x, bs) # add_block (b, a) groups)"

definition apply_declare_blockers ::
  "('r CombatGame \<Rightarrow> 'r CombatGame) \<Rightarrow> (ObjectId \<times> ObjectId) list \<Rightarrow> 'r CombatGame
    \<Rightarrow> (unit, CombatError) result \<times> 'r CombatGame" where
  "apply_declare_blockers settle blocks s =
     (case validate_declare_blockers s blocks of
        Inl e \<Rightarrow> (Inl e, s)
      | Inr _ \<Rightarrow>
          (Inr (), settle (set_combat (\<lambda>c. c\<lparr>blocked_by := fold add_block blocks [],
                                              blockers_declared := True\<rparr>) s)))"

section \<open>Fixed damage assignment\<close>

definition participates_in_wave :: "'r CombatGame \<Rightarrow> ObjectId \<Rightarrow> bool \<Rightarrow> bool" where
  "participates_in_wave s x first_strike_wave \<longleftrightarrow>
     (let has_fs = has_effective_keyword s x FIRST_STRIKE;
          has_ds = has_effective_keyword s x DOUBLE_STRIKE
      in if first_strike_wave then has_fs \<or> has_ds else \<not> has_fs \<or> has_ds)"

definition combat_has_first_or_double_strike :: "'r CombatGame \<Rightarrow> bool" where
  "combat_has_first_or_double_strike s \<longleftrightarrow>
     list_ex (\<lambda>x. has_effective_keyword s x FIRST_STRIKE \<or> has_effective_keyword s x DOUBLE_STRIKE)
       (attackers (combat s) @ concat (map snd (blocked_by (combat s))))"

text \<open>What \<^verbatim>\<open>events.push\<close> of a positive amount adds.\<close>

definition damage_event :: "ObjectId \<Rightarrow> Target \<Rightarrow> int \<Rightarrow> ProposedDamage list" where
  "damage_event x t n = (if n > 0 then [ProposedDamage x t n] else [])"

definition trample_lethal :: "'r CombatGame \<Rightarrow> ObjectId \<Rightarrow> int" where
  "trample_lethal s b =
     max (wrap_i32 (eff_toughness (battle_object s b) - sint (obj_damage (battle_object s b)))) 0"

fun assign_trample ::
  "'r CombatGame \<Rightarrow> ObjectId \<Rightarrow> bool \<Rightarrow> bool \<Rightarrow> ObjectId list \<Rightarrow> int \<Rightarrow> ProposedDamage list \<times> int" where
  "assign_trample s a deathtouch has_excess [] remaining = ([], remaining)"
| "assign_trample s a deathtouch has_excess (b # bs) remaining =
     (let n = trample_lethal s b;
          assign = (if \<not> has_excess \<and> bs = [] then remaining
                    else min remaining (if deathtouch then min n 1 else n));
          left = (if assign > 0 then remaining - assign else remaining)
      in if left = 0 then (damage_event a (TargetObject b) assign, left)
         else (case assign_trample s a deathtouch has_excess bs left of
                 (evs, r) \<Rightarrow> (damage_event a (TargetObject b) assign @ evs, r)))"

definition lethal_needed :: "'r CombatGame \<Rightarrow> ObjectId \<Rightarrow> ObjectId \<Rightarrow> int" where
  "lethal_needed s a b =
     (if has_effective_keyword s a DEATHTOUCH then 1
      else max (eff_toughness (battle_object s b) - uint (obj_damage (battle_object s b))) 0)"

fun assign_in_order :: "'r CombatGame \<Rightarrow> ObjectId \<Rightarrow> ObjectId list \<Rightarrow> int \<Rightarrow> ProposedDamage list" where
  "assign_in_order s a [] remaining = []"
| "assign_in_order s a (b # bs) remaining =
     (if remaining \<le> 0 then []
      else
        (let assign = (if bs = [] then remaining else min remaining (lethal_needed s a b))
         in damage_event a (TargetObject b) assign @ assign_in_order s a bs (remaining - assign)))"

definition assign_attacker_damage_to_blockers ::
  "'r CombatGame \<Rightarrow> ObjectId \<Rightarrow> int \<Rightarrow> ObjectId list \<Rightarrow> ProposedDamage list" where
  "assign_attacker_damage_to_blockers s a pwr bs =
     (if has_effective_keyword s a TRAMPLE then
        (let excess = damage_recipient s a in
         case assign_trample s a (has_effective_keyword s a DEATHTOUCH) (excess \<noteq> None)
                (filter (is_still_in_combat s) bs) pwr of
           (evs, remaining) \<Rightarrow>
             evs @ (if remaining > 0
                    then (case excess of None \<Rightarrow> [] | Some (t, _) \<Rightarrow> [ProposedDamage a t remaining])
                    else []))
      else if length bs = 1 then [ProposedDamage a (TargetObject (bs ! 0)) pwr]
      else assign_in_order s a bs pwr)"

definition attacker_events :: "'r CombatGame \<Rightarrow> bool \<Rightarrow> ObjectId \<Rightarrow> ProposedDamage list" where
  "attacker_events s first_strike_wave a =
     (let pwr = eff_power (battle_object s a) in
      if \<not> is_still_in_combat s a \<or> \<not> participates_in_wave s a first_strike_wave then []
      else if pwr \<le> 0 \<or> eff_no_combat_damage (battle_object s a) then []
      else
        (case map_of (blocked_by (combat s)) a of
           Some bs \<Rightarrow> assign_attacker_damage_to_blockers s a pwr bs
         | None \<Rightarrow>
             (case damage_recipient s a of
                Some (t, _) \<Rightarrow> [ProposedDamage a t pwr]
              | None \<Rightarrow> [])))"

definition blocker_events ::
  "'r CombatGame \<Rightarrow> bool \<Rightarrow> ObjectId \<times> ObjectId list \<Rightarrow> ProposedDamage list" where
  "blocker_events s first_strike_wave = (\<lambda>(a, bs).
     concat (map (\<lambda>b.
       let pwr = eff_power (battle_object s b) in
       if \<not> is_still_in_combat s b \<or> \<not> participates_in_wave s b first_strike_wave then []
       else if pwr > 0 \<and> \<not> eff_no_combat_damage (battle_object s b)
       then [ProposedDamage b (TargetObject a) pwr] else []) bs))"

text \<open>\<open>commit\<close> is \<^verbatim>\<open>commit_combat_damage_events_inner\<close>, which may pause and then returns true.\<close>

definition combat_damage_wave ::
  "(ProposedDamage list \<Rightarrow> bool \<Rightarrow> 'r CombatGame \<Rightarrow> bool \<times> 'r CombatGame) \<Rightarrow> bool \<Rightarrow> 'r CombatGame
    \<Rightarrow> bool \<times> 'r CombatGame" where
  "combat_damage_wave commit first_strike_wave s =
     commit (concat (map (attacker_events s first_strike_wave) (attackers (combat s))) @
             concat (map (blocker_events s first_strike_wave) (blocked_by (combat s))))
       (first_strike_wave \<and> foundations (combat s) = None) s"

definition deal_combat_damage ::
  "(ProposedDamage list \<Rightarrow> bool \<Rightarrow> 'r CombatGame \<Rightarrow> bool \<times> 'r CombatGame)
    \<Rightarrow> ('r CombatGame \<Rightarrow> 'r CombatGame) \<Rightarrow> 'r CombatGame \<Rightarrow> 'r CombatGame" where
  "deal_combat_damage commit sba s =
     (if combat_has_first_or_double_strike s then
        (case combat_damage_wave commit True s of
           (True, t) \<Rightarrow> t
         | (False, t) \<Rightarrow>
             (let u = sba t in if halted u then u else snd (combat_damage_wave commit False u)))
      else snd (combat_damage_wave commit False s))"

section \<open>Damage assignment by ranges\<close>

definition enable_foundations_combat_v1 ::
  "'r CombatGame \<Rightarrow> (unit, CombatError) result \<times> 'r CombatGame" where
  "enable_foundations_combat_v1 s =
     (if attackers (combat s) \<noteq> [] \<or> attackers_declared (combat s) \<or> blockers_declared (combat s)
      then (Inl CombatAlreadyBegan, s)
      else (Inr (), set_combat (\<lambda>c. c\<lparr>foundations := Some foundations_default\<rparr>) s))"

definition has_pending_assignment :: "'r CombatGame \<Rightarrow> bool" where
  "has_pending_assignment s \<longleftrightarrow>
     (case foundations (combat s) of None \<Rightarrow> False | Some r \<Rightarrow> pending_damage r \<noteq> None)"

definition needs_normal_wave :: "'r CombatGame \<Rightarrow> bool" where
  "needs_normal_wave s \<longleftrightarrow>
     (case foundations (combat s) of
        None \<Rightarrow> False
      | Some r \<Rightarrow> damage_phase r = FirstStrike \<and> pending_damage r = None)"

definition assigned_power :: "'r CombatGame \<Rightarrow> ObjectId \<Rightarrow> int" where
  "assigned_power s x =
     (if eff_no_combat_damage (battle_object s x) then 0 else max (eff_power (battle_object s x)) 0)"

definition participates :: "'r CombatGame \<Rightarrow> ObjectLinkV4 \<Rightarrow> DamagePhaseV1 \<Rightarrow> ObjectLinkV4 list \<Rightarrow> bool" where
  "participates s l ph first \<longleftrightarrow>
     live s l \<and>
     (case ph of
        FirstStrike \<Rightarrow> l \<in> set first
      | Normal \<Rightarrow> l \<notin> set first \<or> has_effective_keyword s (link_object l) DOUBLE_STRIKE
      | BeforeDamage \<Rightarrow> False)"

definition blocker_recipient :: "'r CombatGame \<Rightarrow> ObjectId \<Rightarrow> ObjectId \<Rightarrow> DamageRecipientV1 list" where
  "blocker_recipient s a b =
     (if live s (link s b)
      then [\<lparr>target = TargetObject b, incarnation = Some (link s b),
             lethal = (let n = max (eff_toughness (battle_object s b) - uint (obj_damage (battle_object s b))) 0
                       in if has_effective_keyword s a DEATHTOUCH then min n 1 else n)\<rparr>]
      else [])"

definition excess_recipient :: "'r CombatGame \<Rightarrow> ObjectId \<Rightarrow> DamageRecipientV1 list" where
  "excess_recipient s a =
     (case damage_recipient s a of
        None \<Rightarrow> []
      | Some (t, l) \<Rightarrow> [\<lparr>target = t, incarnation = l, lethal = 0\<rparr>])"

definition attacker_damage :: "'r CombatGame \<Rightarrow> DamagePhaseV1 \<Rightarrow> ObjectLinkV4 list \<Rightarrow> ObjectId \<Rightarrow> CreatureDamageV1 list" where
  "attacker_damage s ph first a =
     (if \<not> participates s (link s a) ph first then []
      else if assigned_power s a = 0 then []
      else
        (let tr = (has_effective_keyword s a TRAMPLE \<and> damage_recipient s a \<noteq> None);
             rs = (case map_of (blocked_by (combat s)) a of
                     Some bs \<Rightarrow>
                       concat (map (blocker_recipient s a) bs) @ (if tr then excess_recipient s a else [])
                   | None \<Rightarrow> excess_recipient s a)
         in if rs = [] then []
            else [\<lparr>damage_source = link s a, damage_controller = obj_controller (battle_object s a),
                   creature_power = assigned_power s a, recipients = rs, trample = tr, amounts = []\<rparr>]))"

definition blocker_damage ::
  "'r CombatGame \<Rightarrow> DamagePhaseV1 \<Rightarrow> ObjectLinkV4 list \<Rightarrow> ObjectId \<times> ObjectId list \<Rightarrow> CreatureDamageV1 list" where
  "blocker_damage s ph first = (\<lambda>(a, bs).
     if \<not> live s (link s a) then []
     else concat (map (\<lambda>b.
       if \<not> participates s (link s b) ph first then []
       else if assigned_power s b = 0 then []
       else [\<lparr>damage_source = link s b, damage_controller = obj_controller (battle_object s b),
              creature_power = assigned_power s b,
              recipients = [\<lparr>target = TargetObject a, incarnation = Some (link s a), lethal = 0\<rparr>],
              trample = False, amounts = []\<rparr>]) bs))"

definition build_wave :: "'r CombatGame \<Rightarrow> DamagePhaseV1 \<Rightarrow> ObjectLinkV4 list \<Rightarrow> PendingDamageV1" where
  "build_wave s ph first =
     \<lparr>creatures = concat (map (attacker_damage s ph first) (attackers (combat s))) @
                  concat (map (blocker_damage s ph first) (blocked_by (combat s))),
      creature_index = 0, current_range = None\<rparr>"

definition start_first_wave :: "'r CombatGame \<Rightarrow> 'r CombatGame" where
  "start_first_wave s =
     (let first = map (link s)
            (filter (\<lambda>x. obj_zone (battle_object s x) = Battlefield \<and>
                         (has_effective_keyword s x FIRST_STRIKE \<or> has_effective_keyword s x DOUBLE_STRIKE))
               (attackers (combat s) @ concat (map snd (blocked_by (combat s)))));
          ph = (if first = [] then Normal else FirstStrike)
      in set_combat (\<lambda>c. c\<lparr>foundations := Some \<lparr>damage_phase = ph, first_strikers = first,
                             pending_damage = Some (build_wave s ph first)\<rparr>\<rparr>) s)"

text \<open>\<^verbatim>\<open>start_normal_wave\<close> expects the rules to be enabled and panics otherwise (no value here).\<close>

definition start_normal_wave :: "'r CombatGame \<Rightarrow> 'r CombatGame option" where
  "start_normal_wave s =
     (case foundations (combat s) of
        None \<Rightarrow> None
      | Some r \<Rightarrow>
          Some (set_combat (\<lambda>c. c\<lparr>foundations := Some (r\<lparr>damage_phase := Normal,
                  pending_damage := Some (build_wave s Normal (first_strikers r))\<rparr>)\<rparr>) s))"

fun sum_amounts :: "int \<Rightarrow> int list \<Rightarrow> (int, CombatError) result" where
  "sum_amounts acc [] = Inr acc"
| "sum_amounts acc (n # ns) =
     (if n < 0 then Inl NegativeDamage
      else if \<not> in_i32 (acc + n) then Inl DamageOverflow
      else sum_amounts (acc + n) ns)"

text \<open>Some earlier recipient got less than lethal damage.\<close>

definition lethal_missing :: "CreatureDamageV1 \<Rightarrow> bool" where
  "lethal_missing c \<longleftrightarrow> list_ex (\<lambda>(n, r). n < lethal r) (zip (amounts c) (recipients c))"

definition next_range :: "CreatureDamageV1 \<Rightarrow> (DamageRangeV1, CombatError) result" where
  "next_range c =
     and_then (sum_amounts 0 (amounts c)) (\<lambda>assigned.
       let remaining = creature_power c - assigned; i = length (amounts c) in
       if \<not> in_i32 remaining \<or> remaining < 0 then Inl DamageExceedsPower
       else if length (recipients c) \<le> i then Inl RecipientMissing
       else if i + 1 = length (recipients c) then
         (if trample c \<and> remaining > 0 \<and> lethal_missing c then Inl TrampleBypassesLethal
          else Inr \<lparr>range_min = remaining, range_max = remaining\<rparr>)
       else
         Inr \<lparr>range_min =
                (if trample c \<and> i + 2 = length (recipients c) then
                   (if lethal_missing c then remaining else min (lethal (recipients c ! i)) remaining)
                 else 0),
              range_max = remaining\<rparr>)"

definition creature_valid :: "'r CombatGame \<Rightarrow> CreatureDamageV1 \<Rightarrow> (unit, CombatError) result" where
  "creature_valid s c =
     (let x = link_object (damage_source c) in
      if \<not> live s (damage_source c) \<or> obj_controller (battle_object s x) \<noteq> damage_controller c \<or>
         assigned_power s x \<noteq> creature_power c \<or> length (recipients c) < length (amounts c) \<or>
         recipients c = []
      then Inl DamageSourceChanged
      else if list_ex (\<lambda>r. case incarnation r of
                             None \<Rightarrow> False
                           | Some l \<Rightarrow> target r \<noteq> TargetObject (link_object l) \<or> \<not> live s l) (recipients c)
      then Inl DamageRecipientChanged
      else Inr ())"

fun creatures_valid :: "'r CombatGame \<Rightarrow> CreatureDamageV1 list \<Rightarrow> (unit, CombatError) result" where
  "creatures_valid s [] = Inr ()"
| "creatures_valid s (c # cs) = and_then (creature_valid s c) (\<lambda>_. creatures_valid s cs)"

definition validate_pending :: "'r CombatGame \<Rightarrow> PendingDamageV1 \<Rightarrow> (unit, CombatError) result" where
  "validate_pending s p =
     (if current_step s \<noteq> CombatDamage \<or> stack_items s \<noteq> [] \<or> length (creatures p) < creature_index p
      then Inl InvalidDamageContinuation
      else creatures_valid s (creatures p))"

definition range_decision :: "CreatureDamageV1 \<Rightarrow> DamageRangeV1 \<Rightarrow> Decision" where
  "range_decision c r =
     ChooseCombatDamageRange (damage_controller c) (link_object (damage_source c))
       (target (recipients c ! length (amounts c))) (range_min r) (range_max r)
       (range_min r + (range_max r - range_min r) div 2)"

function drain_loop :: "PendingDamageV1 \<Rightarrow> (Decision option \<times> PendingDamageV1, CombatError) result" where
  "drain_loop p =
     (if creature_index p < length (creatures p) then
        (let c = creatures p ! creature_index p in
         if length (amounts c) = length (recipients c) then
           (if wrap_i32 (sum_list (amounts c)) \<noteq> creature_power c then Inl IncompleteAllocation
            else drain_loop (p\<lparr>creature_index := creature_index p + 1\<rparr>))
         else
           and_then (next_range c) (\<lambda>allowed.
             let r = (case current_range p of None \<Rightarrow> allowed | Some r \<Rightarrow> r) in
             if range_min r < range_min allowed \<or> range_max r > range_max allowed \<or>
                range_min r > range_max r
             then Inl InvalidAmountRange
             else if range_min r = range_max r
             then drain_loop (p\<lparr>creatures := (creatures p)[creature_index p :=
                                               c\<lparr>amounts := amounts c @ [range_min r]\<rparr>],
                               current_range := None\<rparr>)
             else Inr (Some (range_decision c r), p\<lparr>current_range := Some r\<rparr>)))
      else Inr (None, p))"
  by pat_completeness auto

lemma next_range_room: "next_range c = Inr r \<Longrightarrow> length (amounts c) < length (recipients c)"
  by (auto simp: next_range_def Let_def and_then_eq_Inr split: if_splits)

lemma sum_list_update_nat:
  fixes f :: "'a \<Rightarrow> nat"
  assumes "i < length xs"
  shows "sum_list (map f (xs[i := y])) + f (xs ! i) = sum_list (map f xs) + f y"
  using assms by (induction xs arbitrary: i) (auto split: nat.splits)

termination drain_loop
proof (relation "measures [\<lambda>p. sum_list (map (\<lambda>c. length (recipients c) - length (amounts c)) (creatures p)),
                           \<lambda>p. length (creatures p) - creature_index p]", goal_cases)
  case 1
  then show ?case by simp
next
  case (2 p c)
  then show ?case by (simp only: in_measures) (simp add: Let_def)
next
  case (3 p c allowed r)
  let ?f = "\<lambda>c. length (recipients c) - length (amounts c)"
  have "?f (c\<lparr>amounts := amounts c @ [range_min r]\<rparr>) < ?f (creatures p ! creature_index p)"
    using next_range_room[of c allowed] 3 by auto
  then have "sum_list (map ?f ((creatures p)[creature_index p := c\<lparr>amounts := amounts c @ [range_min r]\<rparr>]))
      < sum_list (map ?f (creatures p))"
    using sum_list_update_nat[OF 3(1), of ?f "c\<lparr>amounts := amounts c @ [range_min r]\<rparr>"] by linarith
  then show ?case by simp
qed

declare drain_loop.simps [simp del]

text \<open>All amounts of a finished wave, and \<^verbatim>\<open>drain_or_decide\<close> itself.\<close>

definition wave_events :: "CreatureDamageV1 list \<Rightarrow> ProposedDamage list" where
  "wave_events cs =
     concat (map (\<lambda>c. concat (map (\<lambda>(r, n). damage_event (link_object (damage_source c)) (target r) n)
                        (zip (recipients c) (amounts c)))) cs)"

definition set_pending :: "PendingDamageV1 option \<Rightarrow> 'r CombatGame \<Rightarrow> 'r CombatGame" where
  "set_pending p = set_combat (\<lambda>c. c\<lparr>foundations := map_option (\<lambda>r. r\<lparr>pending_damage := p\<rparr>) (foundations c)\<rparr>)"

definition pending_of :: "'r CombatGame \<Rightarrow> PendingDamageV1 option" where
  "pending_of s = Option.bind (foundations (combat s)) pending_damage"

definition drain_or_decide ::
  "(ProposedDamage list \<Rightarrow> 'r CombatGame \<Rightarrow> 'r CombatGame) \<Rightarrow> 'r CombatGame
    \<Rightarrow> (Decision option, CombatError) result \<times> 'r CombatGame" where
  "drain_or_decide commit s =
     (case pending_of s of
        None \<Rightarrow> (Inl NoPendingDamage, s)
      | Some p \<Rightarrow>
          (case and_then (validate_pending s p) (\<lambda>_. drain_loop p) of
             Inl e \<Rightarrow> (Inl e, s)
           | Inr (Some d, q) \<Rightarrow> (Inr (Some d), set_pending (Some q) s)
           | Inr (None, q) \<Rightarrow> (Inr None, commit (wave_events (creatures q)) (set_pending None s))))"

definition answer_range :: "bool \<Rightarrow> 'r CombatGame \<Rightarrow> (unit, CombatError) result \<times> 'r CombatGame" where
  "answer_range upper_half s =
     (case foundations (combat s) of
        None \<Rightarrow> (Inl CombatRulesDisabled, s)
      | Some rules \<Rightarrow>
          (case pending_damage rules of
             None \<Rightarrow> (Inl NoPendingDamage, s)
           | Some p \<Rightarrow>
               (case and_then (validate_pending s p) (\<lambda>_.
                       and_then (ok_or (current_range p) ChoiceNotOffered) (\<lambda>r.
                       if length (creatures p) \<le> creature_index p then Inl NoCurrentSource
                       else
                         and_then (next_range (creatures p ! creature_index p)) (\<lambda>allowed.
                         if range_min r < range_min allowed \<or> range_max r > range_max allowed \<or>
                            range_min r \<ge> range_max r
                         then Inl InvalidChoiceRange
                         else
                           (let split = range_min r + (range_max r - range_min r) div 2
                            in Inr (if upper_half then r\<lparr>range_min := split + 1\<rparr>
                                    else r\<lparr>range_max := split\<rparr>))))) of
                  Inl e \<Rightarrow> (Inl e, s)
                | Inr r \<Rightarrow> (Inr (), set_pending (Some (p\<lparr>current_range := Some r\<rparr>)) s))))"

section \<open>Combat actions\<close>

datatype CombatAction =
    DeclareAttackersAction "ObjectId list"
  | DeclareBlockersAction "(ObjectId \<times> ObjectId) list"
  | ChooseAttackTargetAction Target
  | ChooseCombatDamageRangeAction bool

text \<open>The combat arms of \<^verbatim>\<open>step_without_linked_aura_v1\<close>: a pending choice admits only its answer.\<close>

definition combat_action ::
  "(ObjectId \<Rightarrow> 'r CombatGame \<Rightarrow> 'r CombatGame) \<Rightarrow> ('r CombatGame \<Rightarrow> 'r CombatGame)
    \<Rightarrow> ('r CombatGame \<Rightarrow> 'r CombatGame) \<Rightarrow> CombatAction \<Rightarrow> 'r CombatGame
    \<Rightarrow> (unit, CombatError) result \<times> 'r CombatGame" where
  "combat_action tap publish settle act s =
     (if has_pending_attack s then
        (case act of
           ChooseAttackTargetAction t \<Rightarrow> attack_target_answer tap publish settle t s
         | _ \<Rightarrow> (Inl OnlyAttackTargetAnswer, s))
      else if has_pending_assignment s then
        (case act of
           ChooseCombatDamageRangeAction upper_half \<Rightarrow> answer_range upper_half s
         | _ \<Rightarrow> (Inl OnlyDamageAnswer, s))
      else
        (case act of
           ChooseAttackTargetAction _ \<Rightarrow> (Inl NoAttackTargetPending, s)
         | ChooseCombatDamageRangeAction _ \<Rightarrow> (Inl NoDamageChoicePending, s)
         | DeclareAttackersAction xs \<Rightarrow> apply_declare_attackers tap publish settle xs s
         | DeclareBlockersAction blocks \<Rightarrow> apply_declare_blockers settle blocks s))"

end
