(* ===== verification/Combat_Damage.thy ===== *)
theory Combat_Damage
  imports Combat
begin

text \<open>
  The binary-range protocol of \<^verbatim>\<open>combat_damage_v1.rs\<close> reaches exactly the legal divisions of
  combat damage. \<open>legal_allocation\<close> is the rule: every creature divides its whole power, and a
  trampler gives its excess recipient nothing until each blocker has lethal damage. \<open>prefix_ok\<close>
  says which prefixes of amounts can still be completed; \<open>next_range\<close> offers precisely the
  amounts that keep it. \<open>play\<close> runs the engine's loop: drain, answer, drain again.
\<close>

section \<open>Legal divisions\<close>

definition legal_allocation :: "CreatureDamageV1 \<Rightarrow> int list \<Rightarrow> bool" where
  "legal_allocation c ns \<longleftrightarrow>
     length ns = length (recipients c) \<and> list_all (\<lambda>n. 0 \<le> n) ns \<and> sum_list ns = creature_power c \<and>
     (trample c \<longrightarrow> last ns > 0 \<longrightarrow>
        (\<forall>i < length ns - 1. lethal (recipients c ! i) \<le> ns ! i))"

definition prefix_ok :: "CreatureDamageV1 \<Rightarrow> int list \<Rightarrow> bool" where
  "prefix_ok c ns \<longleftrightarrow>
     list_all (\<lambda>n. 0 \<le> n) ns \<and> length ns \<le> length (recipients c) \<and> sum_list ns \<le> creature_power c \<and>
     (length ns = length (recipients c) \<longrightarrow> sum_list ns = creature_power c) \<and>
     (trample c \<longrightarrow> length (recipients c) \<le> length ns + 1 \<longrightarrow>
        sum_list (take (length (recipients c) - 1) ns) < creature_power c \<longrightarrow>
        (\<forall>i < length (recipients c) - 1. lethal (recipients c ! i) \<le> ns ! i))"

definition creature_ok :: "CreatureDamageV1 \<Rightarrow> bool" where
  "creature_ok c \<longleftrightarrow>
     recipients c \<noteq> [] \<and> 0 \<le> creature_power c \<and> in_i32 (creature_power c) \<and>
     list_all (\<lambda>r. 0 \<le> lethal r) (recipients c)"

lemma prefix_ok_Nil: "creature_ok c \<Longrightarrow> prefix_ok c []"
  by (auto simp: prefix_ok_def creature_ok_def)

lemma sum_list_nonneg_int: "list_all (\<lambda>n. 0 \<le> n) (ns :: int list) \<Longrightarrow> 0 \<le> sum_list ns"
  by (induction ns) auto

lemma prefix_ok_full:
  assumes "length ns = length (recipients c)" "creature_ok c"
  shows "prefix_ok c ns \<longleftrightarrow> legal_allocation c ns"
proof -
  have ne: "ns \<noteq> []" using assms by (auto simp: creature_ok_def)
  have "sum_list (take (length ns - 1) ns) = sum_list ns - last ns"
    using ne by (metis append_butlast_last_id butlast_conv_take add_diff_cancel_right' sum_list.Cons
        sum_list.Nil sum_list_append add.right_neutral)
  then show ?thesis
    using assms by (auto simp: prefix_ok_def legal_allocation_def)
qed

lemma prefix_ok_take:
  assumes "legal_allocation c ns" "creature_ok c"
  shows "prefix_ok c (take k ns)"
proof (cases "length ns \<le> k")
  case True
  then show ?thesis using assms prefix_ok_full[of ns c] by (simp add: legal_allocation_def)
next
  case False
  have full: "prefix_ok c ns" and len: "length ns = length (recipients c)"
    using assms prefix_ok_full[of ns c] by (simp_all add: legal_allocation_def)
  have pos: "list_all (\<lambda>n. 0 \<le> n) (take k ns)" "list_all (\<lambda>n. 0 \<le> n) (drop k ns)"
    using assms(1) by (auto simp: legal_allocation_def list_all_iff dest: in_set_takeD in_set_dropD)
  have split: "sum_list ns = sum_list (take k ns) + sum_list (drop k ns)"
    by (metis append_take_drop_id sum_list_append)
  have le: "sum_list (take k ns) \<le> creature_power c"
    using split sum_list_nonneg_int[OF pos(2)] full by (simp add: prefix_ok_def)
  have take: "take (length ns - 1) (take k ns) = take (length ns - 1) ns"
    if "length (recipients c) \<le> length (take k ns) + 1"
    using that False len by (auto simp: min_def)
  show ?thesis
    using False full len pos(1) le take by (auto simp: prefix_ok_def)
qed

section \<open>The range offered next\<close>

lemma sum_amounts_ok:
  assumes "list_all (\<lambda>n. 0 \<le> n) ns" "0 \<le> acc" "acc + sum_list ns < 2 ^ 31"
  shows "sum_amounts acc ns = Inr (acc + sum_list ns)"
  using assms
proof (induction ns arbitrary: acc)
  case Nil
  then show ?case by simp
next
  case (Cons n ns)
  have "0 \<le> sum_list ns" using Cons.prems(1) sum_list_nonneg_int by simp
  then show ?case using Cons by (simp add: in_i32_def add.assoc)
qed

lemma lethal_missing_iff:
  assumes "length (amounts c) \<le> length (recipients c)"
  shows "lethal_missing c \<longleftrightarrow> (\<exists>i < length (amounts c). amounts c ! i < lethal (recipients c ! i))"
  using assms by (auto simp: lethal_missing_def list_ex_iff set_zip)

definition within :: "int \<Rightarrow> DamageRangeV1 \<Rightarrow> bool" where
  "within n r \<longleftrightarrow> range_min r \<le> n \<and> n \<le> range_max r"

text \<open>The simple form of \<open>prefix_ok\<close> for one more amount, in the three positions it can have.\<close>

lemma prefix_ok_snoc_early:
  assumes "prefix_ok c ns" "length ns + 2 < length (recipients c) \<or> \<not> trample c" "length ns + 1 < length (recipients c)"
  shows "prefix_ok c (ns @ [n]) \<longleftrightarrow> 0 \<le> n \<and> n \<le> creature_power c - sum_list ns"
  using assms by (auto simp: prefix_ok_def)

lemma prefix_ok_snoc_last_blocker:
  assumes "prefix_ok c ns" "trample c" "length ns + 2 = length (recipients c)"
  shows "prefix_ok c (ns @ [n]) \<longleftrightarrow>
    0 \<le> n \<and> n \<le> creature_power c - sum_list ns \<and>
    (n < creature_power c - sum_list ns \<longrightarrow>
       lethal (recipients c ! length ns) \<le> n \<and> (\<forall>i < length ns. lethal (recipients c ! i) \<le> ns ! i))"
proof -
  have len: "length (recipients c) - 1 = Suc (length ns)" using assms(3) by simp
  have all: "(\<forall>i < Suc (length ns). lethal (recipients c ! i) \<le> (ns @ [n]) ! i) \<longleftrightarrow>
    lethal (recipients c ! length ns) \<le> n \<and> (\<forall>i < length ns. lethal (recipients c ! i) \<le> ns ! i)"
    by (auto simp: less_Suc_eq nth_append)
  show ?thesis
    using assms unfolding prefix_ok_def len all by auto
qed

lemma prefix_ok_snoc_final:
  assumes "prefix_ok c ns" "length ns + 1 = length (recipients c)"
  shows "prefix_ok c (ns @ [n]) \<longleftrightarrow> n = creature_power c - sum_list ns"
proof -
  have len: "length (recipients c) - 1 = length ns" using assms(2) by simp
  have "(\<forall>i < length ns. lethal (recipients c ! i) \<le> (ns @ [n]) ! i) \<longleftrightarrow>
    (\<forall>i < length ns. lethal (recipients c ! i) \<le> ns ! i)"
    by (auto simp: nth_append)
  then show ?thesis
    using assms unfolding prefix_ok_def len by auto
qed

lemma next_range_exact:
  assumes "creature_ok c" "prefix_ok c (amounts c)" "length (amounts c) < length (recipients c)"
  shows "\<exists>r. next_range c = Inr r \<and> range_min r \<le> range_max r \<and> range_max r - range_min r < 2 ^ 31 \<and>
    (\<forall>n. prefix_ok c (amounts c @ [n]) \<longleftrightarrow> within n r)"
proof -
  let ?ns = "amounts c" and ?rem = "creature_power c - sum_list (amounts c)"
  have pos: "0 \<le> sum_list ?ns" and rem: "0 \<le> ?rem" "?rem < 2 ^ 31" "in_i32 ?rem"
    using assms sum_list_nonneg_int[of ?ns] by (auto simp: prefix_ok_def creature_ok_def in_i32_def)
  have sum: "sum_amounts 0 ?ns = Inr (sum_list ?ns)"
    using sum_amounts_ok[of ?ns 0] assms rem by (auto simp: prefix_ok_def creature_ok_def in_i32_def)
  have lm: "lethal_missing c \<longleftrightarrow> \<not> (\<forall>i < length ?ns. lethal (recipients c ! i) \<le> ?ns ! i)"
    using lethal_missing_iff[of c] assms(3) by (auto simp: not_le)
  consider (last) "length ?ns + 1 = length (recipients c)"
    | (blocker) "length ?ns + 2 = length (recipients c)" "trample c"
    | (early) "length ?ns + 1 < length (recipients c)" "length ?ns + 2 < length (recipients c) \<or> \<not> trample c"
    using assms(3) by linarith
  then show ?thesis
  proof cases
    case last
    have "\<not> (trample c \<and> ?rem > 0 \<and> lethal_missing c)"
      using assms(2) last unfolding lm prefix_ok_def by auto
    then have "next_range c = Inr \<lparr>range_min = ?rem, range_max = ?rem\<rparr>"
      using sum rem last by (auto simp: next_range_def Let_def)
    moreover have "prefix_ok c (?ns @ [n]) \<longleftrightarrow> within n \<lparr>range_min = ?rem, range_max = ?rem\<rparr>" for n
      unfolding prefix_ok_snoc_final[OF assms(2) last] within_def by auto
    ultimately show ?thesis by (intro exI[of _ "\<lparr>range_min = ?rem, range_max = ?rem\<rparr>"]) simp
  next
    case blocker
    let ?lo = "if lethal_missing c then ?rem else min (lethal (recipients c ! length ?ns)) ?rem"
    have "next_range c = Inr \<lparr>range_min = ?lo, range_max = ?rem\<rparr>"
      using sum rem blocker by (simp add: next_range_def Let_def)
    moreover have "0 \<le> lethal (recipients c ! length ?ns)"
      using assms(1,3) by (simp add: creature_ok_def list_all_length)
    moreover have "prefix_ok c (?ns @ [n]) \<longleftrightarrow> within n \<lparr>range_min = ?lo, range_max = ?rem\<rparr>" for n
      using rem(1) calculation(2)
      unfolding prefix_ok_snoc_last_blocker[OF assms(2) blocker(2,1)] within_def lm by auto
    ultimately show ?thesis
      using rem by (intro exI[of _ "\<lparr>range_min = ?lo, range_max = ?rem\<rparr>"]) auto
  next
    case early
    have "next_range c = Inr \<lparr>range_min = 0, range_max = ?rem\<rparr>"
      using sum rem early by (auto simp: next_range_def Let_def)
    moreover have "prefix_ok c (?ns @ [n]) \<longleftrightarrow> within n \<lparr>range_min = 0, range_max = ?rem\<rparr>" for n
      unfolding prefix_ok_snoc_early[OF assms(2) early(2,1)] within_def by simp
    ultimately show ?thesis
      using rem by (intro exI[of _ "\<lparr>range_min = 0, range_max = ?rem\<rparr>"]) simp
  qed
qed

section \<open>The drain loop\<close>

lemma wrap_i32_id: "in_i32 x \<Longrightarrow> wrap_i32 x = x"
  by (simp add: wrap_i32_def in_i32_def signed_of_int signed_take_bit_int_eq_self)

definition unassigned :: "CreatureDamageV1 \<Rightarrow> nat" where
  "unassigned c = length (recipients c) - length (amounts c)"

definition cleared :: "CreatureDamageV1 \<Rightarrow> CreatureDamageV1" where
  "cleared c = c\<lparr>amounts := []\<rparr>"

definition pending_ok :: "CreatureDamageV1 list \<Rightarrow> PendingDamageV1 \<Rightarrow> bool" where
  "pending_ok cs p \<longleftrightarrow>
     map cleared (creatures p) = cs \<and>
     list_all (\<lambda>c. creature_ok c \<and> prefix_ok c (amounts c)) (creatures p) \<and>
     creature_index p \<le> length (creatures p) \<and>
     (\<forall>i < creature_index p. unassigned (creatures p ! i) = 0) \<and>
     (\<forall>r. current_range p = Some r \<longrightarrow>
        creature_index p < length (creatures p) \<and> range_min r \<le> range_max r \<and>
        (\<exists>al. next_range (creatures p ! creature_index p) = Inr al \<and>
              range_min al \<le> range_min r \<and> range_max r \<le> range_max al))"

text \<open>Halvings of a range of \<open>x + 1\<close> values down to one value, and the answers still needed.\<close>

fun halvings :: "nat \<Rightarrow> nat" where
  "halvings x = (if x = 0 then 0 else Suc (halvings (x div 2)))"

declare halvings.simps [simp del]

definition answers_needed :: "PendingDamageV1 \<Rightarrow> nat" where
  "answers_needed p =
     (let open_amounts = sum_list (map unassigned (creatures p)) in
      case current_range p of
        None \<Rightarrow> 31 * open_amounts
      | Some r \<Rightarrow> 31 * (open_amounts - 1) + halvings (nat (range_max r - range_min r)))"

text \<open>The amounts chosen so far, and the range under discussion, still lead to the division \<open>ts\<close>.\<close>

definition agrees :: "int list list \<Rightarrow> PendingDamageV1 \<Rightarrow> bool" where
  "agrees ts p \<longleftrightarrow>
     list_all2 (\<lambda>c t. legal_allocation c t \<and> amounts c = take (length (amounts c)) t) (creatures p) ts \<and>
     (\<forall>r. current_range p = Some r \<longrightarrow>
        within (ts ! creature_index p ! length (amounts (creatures p ! creature_index p))) r)"

lemma amounts_update_simps [simp]:
  "prefix_ok (c\<lparr>amounts := ns\<rparr>) = prefix_ok c" "creature_ok (c\<lparr>amounts := ns\<rparr>) = creature_ok c"
  "legal_allocation (c\<lparr>amounts := ns\<rparr>) = legal_allocation c" "cleared (c\<lparr>amounts := ns\<rparr>) = cleared c"
  by (auto simp: fun_eq_iff prefix_ok_def creature_ok_def legal_allocation_def cleared_def)

lemma halvings_mono: "x \<le> y \<Longrightarrow> halvings x \<le> halvings y"
proof (induction y arbitrary: x rule: halvings.induct)
  case (1 y)
  show ?case
  proof (cases "x = 0")
    case True
    then show ?thesis by (simp add: halvings.simps[of 0])
  next
    case False
    then have "halvings (x div 2) \<le> halvings (y div 2)"
      using 1 by (simp add: div_le_mono)
    then show ?thesis
      using False 1 by (simp add: halvings.simps[of x] halvings.simps[of y])
  qed
qed

lemma halvings_bound: "x < 2 ^ k \<Longrightarrow> halvings x \<le> k"
proof (induction k arbitrary: x)
  case 0
  then show ?case by (simp add: halvings.simps)
next
  case (Suc k)
  then have "halvings (x div 2) \<le> k" by auto
  then show ?case by (simp add: halvings.simps[of x])
qed

lemma pending_current:
  assumes "pending_ok cs p" "creature_index p < length (creatures p)"
  defines "c \<equiv> creatures p ! creature_index p"
  shows "creature_ok c" "prefix_ok c (amounts c)" "length (amounts c) \<le> length (recipients c)"
  using assms by (auto simp: pending_ok_def list_all_length prefix_ok_def)

lemma pending_ok_skip:
  assumes "pending_ok cs p" "creature_index p < length (creatures p)"
    and "length (amounts (creatures p ! creature_index p)) = length (recipients (creatures p ! creature_index p))"
  shows "pending_ok cs (p\<lparr>creature_index := creature_index p + 1\<rparr>)" "current_range p = None"
proof -
  show none: "current_range p = None"
    using assms by (cases "current_range p") (auto simp: pending_ok_def dest: next_range_room)
  show "pending_ok cs (p\<lparr>creature_index := creature_index p + 1\<rparr>)"
    using assms none by (auto simp: pending_ok_def unassigned_def less_Suc_eq)
qed

lemma pending_ok_push:
  fixes p :: PendingDamageV1
  assumes "pending_ok cs p" "creature_index p < length (creatures p)"
    and c: "c = creatures p ! creature_index p"
    and n: "prefix_ok c (amounts c @ [n])"
    and q: "q = p\<lparr>creatures := (creatures p)[creature_index p := c\<lparr>amounts := amounts c @ [n]\<rparr>],
                 current_range := None\<rparr>"
  shows "pending_ok cs q"
    and "sum_list (map unassigned (creatures q)) = sum_list (map unassigned (creatures p)) - 1"
proof -
  have room: "length (amounts c) < length (recipients c)" using n by (simp add: prefix_ok_def)
  have "map cleared (creatures q) = map cleared (creatures p)"
    using assms(2) by (simp add: q c map_update list_update_same_conv)
  then show "pending_ok cs q"
    using assms by (auto simp: pending_ok_def list_all_length nth_list_update)
  show "sum_list (map unassigned (creatures q)) = sum_list (map unassigned (creatures p)) - 1"
    using room sum_list_update_nat[OF assms(2), of unassigned "c\<lparr>amounts := amounts c @ [n]\<rparr>"]
    by (simp add: q unassigned_def flip: c)
qed

lemma agrees_current:
  assumes "agrees ts p" "creature_index p < length (creatures p)"
  defines "c \<equiv> creatures p ! creature_index p" and "t \<equiv> ts ! creature_index p"
  shows "legal_allocation c t" "amounts c = take (length (amounts c)) t"
  using assms by (auto simp: agrees_def list_all2_conv_all_nth)

lemma agrees_next_amount:
  assumes "pending_ok cs p" "agrees ts p" "creature_index p < length (creatures p)"
  defines "c \<equiv> creatures p ! creature_index p" and "t \<equiv> ts ! creature_index p"
  assumes "length (amounts c) < length (recipients c)"
  shows "take (Suc (length (amounts c))) t = amounts c @ [t ! length (amounts c)]"
    and "prefix_ok c (amounts c @ [t ! length (amounts c)])"
proof -
  have legal: "legal_allocation c t" and am: "amounts c = take (length (amounts c)) t"
    using agrees_current[OF assms(2,3)] by (simp_all add: c_def t_def)
  have "length (amounts c) < length t" using legal assms(6) by (simp add: legal_allocation_def)
  then show eq: "take (Suc (length (amounts c))) t = amounts c @ [t ! length (amounts c)]"
    using am by (simp add: take_Suc_conv_app_nth)
  show "prefix_ok c (amounts c @ [t ! length (amounts c)])"
    using prefix_ok_take[OF legal, of "Suc (length (amounts c))"] pending_current(1)[OF assms(1,3)]
    by (simp add: eq flip: c_def)
qed

lemma range_in_play:
  assumes "pending_ok cs p" "creature_index p < length (creatures p)"
  defines "c \<equiv> creatures p ! creature_index p"
  assumes "length (amounts c) \<noteq> length (recipients c)" "next_range c = Inr al"
  defines "r \<equiv> (case current_range p of None \<Rightarrow> al | Some r \<Rightarrow> r)"
  shows "range_min al \<le> range_min r" "range_max r \<le> range_max al" "range_min r \<le> range_max r"
    "range_max r - range_min r < 2 ^ 31" "within n r \<Longrightarrow> prefix_ok c (amounts c @ [n])"
    "agrees ts p \<Longrightarrow> within (ts ! creature_index p ! length (amounts c)) r"
proof -
  have c: "creature_ok c" "prefix_ok c (amounts c)" "length (amounts c) < length (recipients c)"
    using pending_current[OF assms(1,2)] assms(4) by (simp_all add: c_def)
  have al: "range_min al \<le> range_max al" "range_max al - range_min al < 2 ^ 31"
    "prefix_ok c (amounts c @ [n]) \<longleftrightarrow> within n al" for n
    using next_range_exact[OF c] assms(5) by auto
  show r: "range_min al \<le> range_min r" "range_max r \<le> range_max al" "range_min r \<le> range_max r"
    using assms(1,5) al(1) by (auto simp: r_def pending_ok_def c_def split: option.splits)
  show "range_max r - range_min r < 2 ^ 31" using r al(2) by linarith
  show "within n r \<Longrightarrow> prefix_ok c (amounts c @ [n])" using r al(3) by (auto simp: within_def)
  show "within (ts ! creature_index p ! length (amounts c)) r" if ag: "agrees ts p"
  proof (cases "current_range p")
    case None
    then show ?thesis
      using agrees_next_amount(2)[OF assms(1) ag assms(2)] c(3) al(3) by (simp add: r_def c_def)
  next
    case (Some a)
    then show ?thesis using ag by (simp add: r_def c_def agrees_def)
  qed
qed

lemma agrees_push:
  assumes "pending_ok cs p" "agrees ts p" "creature_index p < length (creatures p)"
    and c: "c = creatures p ! creature_index p" and "length (amounts c) < length (recipients c)"
    and n: "n = ts ! creature_index p ! length (amounts c)"
  shows "agrees ts (p\<lparr>creatures := (creatures p)[creature_index p := c\<lparr>amounts := amounts c @ [n]\<rparr>],
                     current_range := None\<rparr>)"
  using assms(2) agrees_next_amount(1)[OF assms(1,2,3)] assms(3,5)
  by (auto simp: agrees_def list_all2_conv_all_nth nth_list_update c n)

text \<open>Offering a range costs at most the 31 answers that one open amount is worth.\<close>

lemma offered_range_cost:
  assumes "creature_index p < length (creatures p)" "0 < unassigned (creatures p ! creature_index p)"
    and "x < 2 ^ 31"
  shows "31 * (sum_list (map unassigned (creatures p)) - 1) + halvings (nat x)
    \<le> 31 * sum_list (map unassigned (creatures p))"
proof -
  have "unassigned (creatures p ! creature_index p) \<le> sum_list (map unassigned (creatures p))"
    using assms(1) by (intro member_le_sum_list) auto
  moreover have "halvings (nat x) \<le> 31"
    using assms(3) by (intro halvings_bound) (simp add: nat_less_iff)
  ultimately show ?thesis using assms(2) by (simp add: diff_mult_distrib2)
qed

definition drained :: "CreatureDamageV1 list \<Rightarrow> PendingDamageV1 \<Rightarrow> Decision option \<times> PendingDamageV1 \<Rightarrow> bool" where
  "drained cs p res \<longleftrightarrow>
     (case res of (d, q) \<Rightarrow>
        pending_ok cs q \<and> answers_needed q \<le> answers_needed p \<and> (\<forall>ts. agrees ts p \<longrightarrow> agrees ts q) \<and>
        (case d of
           None \<Rightarrow> creature_index q = length (creatures q)
         | Some _ \<Rightarrow> \<exists>r. current_range q = Some r \<and> range_min r < range_max r))"

lemma drained_trans:
  "drained cs q res \<Longrightarrow> answers_needed q \<le> answers_needed p \<Longrightarrow>
   (\<And>ts. agrees ts p \<Longrightarrow> agrees ts q) \<Longrightarrow> drained cs p res"
  by (auto simp: drained_def)

lemma drain_loop_ok:
  assumes "pending_ok cs p"
  shows "\<exists>res. drain_loop p = Inr res \<and> drained cs p res"
  using assms
proof (induction p rule: drain_loop.induct)
  case (1 p)
  show ?case
  proof (cases "creature_index p < length (creatures p)")
    case False
    then show ?thesis
      using 1(3) by (auto simp: drain_loop.simps drained_def pending_ok_def)
  next
    case idx: True
    define c where "c = creatures p ! creature_index p"
    note cur = pending_current[OF 1(3) idx, folded c_def]
    show ?thesis
    proof (cases "length (amounts c) = length (recipients c)")
      case full: True
      let ?q = "p\<lparr>creature_index := creature_index p + 1\<rparr>"
      note skip = pending_ok_skip[OF 1(3) idx, folded c_def, OF full]
      have "sum_list (amounts c) = creature_power c" "in_i32 (creature_power c)"
        using cur full by (auto simp: prefix_ok_def creature_ok_def)
      then have "wrap_i32 (sum_list (amounts c)) = creature_power c"
        by (simp add: wrap_i32_id)
      moreover from this obtain res where "drain_loop ?q = Inr res" "drained cs ?q res"
        using 1(1)[OF idx c_def full _ skip(1)] by auto
      moreover have "answers_needed ?q \<le> answers_needed p" "agrees ts p \<Longrightarrow> agrees ts ?q" for ts
        using skip(2) by (simp_all add: answers_needed_def agrees_def)
      ultimately show ?thesis
        using idx full drained_trans by (fastforce simp: drain_loop.simps[of p] simp flip: c_def)
    next
      case False
      obtain al where al: "next_range c = Inr al"
        using next_range_exact[OF cur(1,2)] cur(3) False by auto
      define r where "r = (case current_range p of None \<Rightarrow> al | Some r \<Rightarrow> r)"
      note rng = range_in_play[OF 1(3) idx, folded c_def, OF False al, folded r_def]
      let ?q = "p\<lparr>creatures := (creatures p)[creature_index p := c\<lparr>amounts := amounts c @ [range_min r]\<rparr>],
                 current_range := None\<rparr>"
      show ?thesis
      proof (cases "range_min r = range_max r")
        case True
        have w: "within (range_min r) r" using True by (simp add: within_def)
        note push = pending_ok_push[OF 1(3) idx c_def rng(5)[OF w] refl]
        obtain res where "drain_loop ?q = Inr res" "drained cs ?q res"
          using 1(2)[OF idx c_def False al r_def _ True push(1)] rng(1-3) by auto
        moreover have "answers_needed ?q \<le> answers_needed p"
          using push(2) True by (auto simp: answers_needed_def Let_def r_def split: option.splits)
        moreover have "agrees ts ?q" if "agrees ts p" for ts
        proof (rule agrees_push[OF 1(3) that idx c_def])
          show "length (amounts c) < length (recipients c)" using cur(3) False by simp
          show "range_min r = ts ! creature_index p ! length (amounts c)"
            using rng(6)[OF that] True unfolding within_def by linarith
        qed
        moreover have "drain_loop p = drain_loop ?q"
          using idx False al rng(1-3) True by (simp add: drain_loop.simps[of p] Let_def flip: c_def r_def)
        ultimately show ?thesis using drained_trans by auto
      next
        case less: False
        let ?p = "p\<lparr>current_range := Some r\<rparr>"
        have "drain_loop p = Inr (Some (range_decision c r), ?p)"
          using idx False al rng(1-3) less by (simp add: drain_loop.simps[of p] Let_def flip: c_def r_def)
        moreover have "pending_ok cs ?p"
          using 1(3) idx al rng(1-3) by (auto simp: pending_ok_def simp flip: c_def)
        moreover have "agrees ts ?p" if "agrees ts p" for ts
          using that rng(6)[OF that] by (simp add: agrees_def flip: c_def)
        moreover have "answers_needed ?p \<le> answers_needed p"
          using offered_range_cost[OF idx, folded c_def, OF _ rng(4)] False cur(3)
          by (auto simp: unassigned_def answers_needed_def Let_def r_def split: option.splits)
        ultimately show ?thesis using less rng(3) by (auto simp: drained_def)
      qed
    qed
  qed
qed

section \<open>The engine's loop\<close>

datatype 'r play_outcome =
    Stuck CombatError
  | Waiting Decision "'r CombatGame"
  | Done "bool list" "'r CombatGame"

fun play ::
  "(ProposedDamage list \<Rightarrow> 'r CombatGame \<Rightarrow> 'r CombatGame) \<Rightarrow> bool list \<Rightarrow> 'r CombatGame \<Rightarrow> 'r play_outcome" where
  "play commit bs s =
     (case drain_or_decide commit s of
        (Inl e, _) \<Rightarrow> Stuck e
      | (Inr None, t) \<Rightarrow> Done bs t
      | (Inr (Some d), t) \<Rightarrow>
          (case bs of
             [] \<Rightarrow> Waiting d t
           | b # bs' \<Rightarrow>
               (case answer_range b t of
                  (Inl e, _) \<Rightarrow> Stuck e
                | (Inr _, u) \<Rightarrow> play commit bs' u)))"

declare play.simps [simp del]

definition allocation_events :: "CreatureDamageV1 list \<Rightarrow> int list list \<Rightarrow> ProposedDamage list" where
  "allocation_events cs ts = wave_events (map2 (\<lambda>c ns. c\<lparr>amounts := ns\<rparr>) cs ts)"

definition wave_ready :: "'r CombatGame \<Rightarrow> CreatureDamageV1 list \<Rightarrow> bool" where
  "wave_ready s cs \<longleftrightarrow>
     current_step s = CombatDamage \<and> stack_items s = [] \<and> foundations (combat s) \<noteq> None \<and>
     list_all (\<lambda>c. creature_valid s c = Inr ()) cs"

lemma set_combat_reads [simp]:
  "battle_object (set_combat f s) = battle_object s" "live (set_combat f s) = live s"
  "current_step (set_combat f s) = current_step s" "stack_items (set_combat f s) = stack_items s"
  by (auto simp: fun_eq_iff battle_object_def live_def set_combat_def)

lemma assigned_power_set_combat [simp]: "assigned_power (set_combat f s) = assigned_power s"
  by (simp add: fun_eq_iff assigned_power_def)

lemma creature_valid_set_combat [simp]: "creature_valid (set_combat f s) = creature_valid s"
  unfolding fun_eq_iff creature_valid_def set_combat_reads assigned_power_set_combat by simp

lemma set_pending_reads [simp]:
  "creature_valid (set_pending q s) = creature_valid s" "wave_ready (set_pending q s) = wave_ready s"
  by (auto simp: fun_eq_iff set_pending_def wave_ready_def) (auto simp: set_combat_def)

lemma set_pending_twice [simp]: "set_pending q (set_pending q' s) = set_pending q s"
  by (simp add: set_pending_def set_combat_def option.map_comp comp_def)

lemma pending_of_set: "foundations (combat s) \<noteq> None \<Longrightarrow> pending_of (set_pending q s) = q"
  by (auto simp: pending_of_def set_pending_def set_combat_def)

lemma creatures_valid_iff: "creatures_valid s cs = Inr () \<longleftrightarrow> list_all (\<lambda>c. creature_valid s c = Inr ()) cs"
  by (induction cs) (auto simp: and_then_eq_Inr)

lemma validate_pending_ok:
  assumes "wave_ready s cs" "pending_ok cs p"
  shows "validate_pending s p = Inr ()"
proof -
  have "creature_valid s c = Inr ()" if "c \<in> set (creatures p)" for c
  proof -
    have "creature_valid s (cleared c) = Inr ()" "length (amounts c) \<le> length (recipients c)"
      using assms that by (auto simp: wave_ready_def pending_ok_def list_all_iff prefix_ok_def)
    then show ?thesis by (auto simp: creature_valid_def cleared_def Let_def split: if_splits)
  qed
  then show ?thesis
    using assms by (auto simp: validate_pending_def wave_ready_def pending_ok_def creatures_valid_iff list_all_iff)
qed

lemma drain_state:
  assumes "wave_ready s cs" "pending_ok cs p"
  obtains q where "drained cs p (None, q)"
      "drain_or_decide commit (set_pending (Some p) s) = (Inr None, commit (wave_events (creatures q)) (set_pending None s))"
    | d q where "drained cs p (Some d, q)"
      "drain_or_decide commit (set_pending (Some p) s) = (Inr (Some d), set_pending (Some q) s)"
proof -
  obtain d q where dq: "drain_loop p = Inr (d, q)" "drained cs p (d, q)"
    using drain_loop_ok[OF assms(2)] by auto
  have "validate_pending (set_pending (Some p) s) p = Inr ()"
    using validate_pending_ok[of "set_pending (Some p) s"] assms by simp
  then have "drain_or_decide commit (set_pending (Some p) s) =
    (case d of None \<Rightarrow> (Inr None, commit (wave_events (creatures q)) (set_pending None s))
     | Some d \<Rightarrow> (Inr (Some d), set_pending (Some q) s))"
    using assms(1) dq(1)
    by (auto simp: drain_or_decide_def pending_of_set wave_ready_def split: option.splits)
  then show ?thesis
    using that dq(2) by (cases d) auto
qed

lemma half_range:
  fixes x :: int
  assumes "0 < x"
  shows "halvings (nat (x div 2)) < halvings (nat x)" "halvings (nat (x - x div 2 - 1)) < halvings (nat x)"
proof -
  have "halvings (nat x) = Suc (halvings (nat x div 2))"
    using assms by (simp add: halvings.simps[of "nat x"])
  moreover have "nat (x div 2) = nat x div 2" using assms by (simp add: nat_div_distrib)
  moreover have "nat (x - x div 2 - 1) \<le> nat x div 2" using assms by (auto simp: nat_div_distrib[symmetric] zdiv_int)
  ultimately show "halvings (nat (x div 2)) < halvings (nat x)"
    "halvings (nat (x - x div 2 - 1)) < halvings (nat x)"
    using halvings_mono[of "nat (x - x div 2 - 1)" "nat x div 2"] by simp_all
qed

definition halved :: "bool \<Rightarrow> DamageRangeV1 \<Rightarrow> DamageRangeV1" where
  "halved upper r =
     (let split = range_min r + (range_max r - range_min r) div 2
      in if upper then r\<lparr>range_min := split + 1\<rparr> else r\<lparr>range_max := split\<rparr>)"

lemma answer_state:
  fixes b :: bool
  assumes "wave_ready s cs" "pending_ok cs p" "current_range p = Some r" "range_min r < range_max r"
  defines "q \<equiv> p\<lparr>current_range := Some (halved b r)\<rparr>"
  shows "answer_range b (set_pending (Some p) s) = (Inr (), set_pending (Some q) s)"
    and "pending_ok cs q" "answers_needed q < answers_needed p"
proof -
  obtain al where al: "next_range (creatures p ! creature_index p) = Inr al"
    "range_min al \<le> range_min r" "range_max r \<le> range_max al" "creature_index p < length (creatures p)"
    using assms(2,3) by (auto simp: pending_ok_def)
  have "validate_pending (set_pending (Some p) s) p = Inr ()"
    using validate_pending_ok[of "set_pending (Some p) s"] assms by simp
  moreover obtain rules where "foundations (combat (set_pending (Some p) s)) = Some rules" "pending_damage rules = Some p"
    using assms(1) by (auto simp: set_pending_def set_combat_def wave_ready_def)
  ultimately show "answer_range b (set_pending (Some p) s) = (Inr (), set_pending (Some q) s)"
    using al assms(3,4) by (simp add: answer_range_def halved_def Let_def q_def)
  have "range_min r \<le> range_min (halved b r)" "range_max (halved b r) \<le> range_max r"
    "range_min (halved b r) \<le> range_max (halved b r)"
    using assms(4) by (auto simp: halved_def Let_def)
  then show "pending_ok cs q"
    using assms(2) al by (auto simp: pending_ok_def q_def)
  have "halvings (nat (range_max (halved b r) - range_min (halved b r))) < halvings (nat (range_max r - range_min r))"
    using half_range[of "range_max r - range_min r"] assms(4) by (auto simp: halved_def Let_def algebra_simps)
  then show "answers_needed q < answers_needed p"
    using assms(3) by (simp add: answers_needed_def q_def)
qed

lemma agrees_halved:
  assumes "agrees ts p" "current_range p = Some r"
  defines "n \<equiv> ts ! creature_index p ! length (amounts (creatures p ! creature_index p))"
  shows "agrees ts (p\<lparr>current_range :=
           Some (halved (n > range_min r + (range_max r - range_min r) div 2) r)\<rparr>)"
  using assms by (auto simp: agrees_def halved_def within_def Let_def)

text \<open>What a finished loop has assigned.\<close>

lemma finished_allocation:
  assumes "drained cs p (None, q)"
  shows "list_all2 legal_allocation cs (map amounts (creatures q))"
    and "wave_events (creatures q) = allocation_events cs (map amounts (creatures q))"
    and "agrees ts q \<Longrightarrow> map amounts (creatures q) = ts"
proof -
  have q: "pending_ok cs q" "creature_index q = length (creatures q)"
    using assms by (simp_all add: drained_def)
  have cs: "cs = map cleared (creatures q)" using q(1) by (simp add: pending_ok_def)
  have full: "length (amounts c) = length (recipients c)" "creature_ok c" "prefix_ok c (amounts c)"
    if "c \<in> set (creatures q)" for c
  proof -
    show "creature_ok c" and pre: "prefix_ok c (amounts c)"
      using that q(1) by (auto simp: pending_ok_def list_all_iff)
    have "unassigned c = 0"
      using that q by (auto simp: pending_ok_def in_set_conv_nth)
    then show "length (amounts c) = length (recipients c)"
      using pre by (simp add: unassigned_def prefix_ok_def)
  qed
  show "list_all2 legal_allocation cs (map amounts (creatures q))"
    using full prefix_ok_full
    by (auto simp: cs list.rel_map list_all2_same cleared_def)
  have "map2 (\<lambda>c ns. c\<lparr>amounts := ns\<rparr>) cs (map amounts (creatures q)) = creatures q"
    by (intro nth_equalityI) (simp_all add: cs cleared_def)
  then show "wave_events (creatures q) = allocation_events cs (map amounts (creatures q))"
    by (simp add: allocation_events_def)
  show "map amounts (creatures q) = ts" if ag: "agrees ts q"
  proof (rule nth_equalityI)
    show "length (map amounts (creatures q)) = length ts"
      using ag by (auto simp: agrees_def dest: list_all2_lengthD)
    fix i assume "i < length (map amounts (creatures q))"
    then show "map amounts (creatures q) ! i = ts ! i"
      using ag full(1)[of "creatures q ! i"]
      by (auto simp: agrees_def list_all2_conv_all_nth legal_allocation_def)
  qed
qed

lemma play_sound:
  assumes "wave_ready s cs" "pending_ok cs p"
  shows "case play commit bs (set_pending (Some p) s) of
      Stuck e \<Rightarrow> False
    | Waiting d t \<Rightarrow> length bs < answers_needed p
    | Done rest_answers t \<Rightarrow> \<exists>ts. list_all2 legal_allocation cs ts \<and>
        t = commit (allocation_events cs ts) (set_pending None s)"
  using assms(2)
proof (induction bs arbitrary: p)
  case Nil
  show ?case
  proof (rule drain_state[OF assms(1) Nil, of commit], goal_cases)
    case (1 q)
    then show ?case
      using finished_allocation[OF 1(1)] by (auto simp: play.simps)
  next
    case (2 d q)
    then obtain r where "current_range q = Some r" "range_min r < range_max r" "answers_needed q \<le> answers_needed p"
      by (auto simp: drained_def)
    then have "0 < answers_needed p"
      by (auto simp: answers_needed_def Let_def halvings.simps[of "nat (range_max r - range_min r)"])
    then show ?case using 2 by (simp add: play.simps)
  qed
next
  case (Cons b bs)
  show ?case
  proof (rule drain_state[OF assms(1) Cons.prems, of commit], goal_cases)
    case (1 q)
    then show ?case
      using finished_allocation[OF 1(1)] by (auto simp: play.simps)
  next
    case (2 d q)
    then obtain r where r: "current_range q = Some r" "range_min r < range_max r" "pending_ok cs q"
        "answers_needed q \<le> answers_needed p"
      by (auto simp: drained_def)
    note ans = answer_state[OF assms(1) r(3,1,2), of b]
    have "play commit (b # bs) (set_pending (Some p) s) =
        play commit bs (set_pending (Some (q\<lparr>current_range := Some (halved b r)\<rparr>)) s)"
      using 2 ans(1) by (simp add: play.simps[of commit "b # bs"])
    then show ?case
      using Cons.IH[OF ans(2)] ans(3) r(4) by (auto split: play_outcome.splits)
  qed
qed

lemma play_complete:
  assumes "wave_ready s cs" "pending_ok cs p" "agrees ts p"
  shows "\<exists>bs. play commit bs (set_pending (Some p) s) = Done [] (commit (allocation_events cs ts) (set_pending None s))"
  using assms(2,3)
proof (induction "answers_needed p" arbitrary: p rule: less_induct)
  case less
  show ?case
  proof (rule drain_state[OF assms(1) less.prems(1), of commit], goal_cases)
    case (1 q)
    have "agrees ts q" using 1(1) less.prems(2) by (simp add: drained_def)
    then have "play commit [] (set_pending (Some p) s) = Done [] (commit (allocation_events cs ts) (set_pending None s))"
      using 1(2) finished_allocation[OF 1(1)] by (simp add: play.simps)
    then show ?case ..
  next
    case (2 d q)
    then obtain r where r: "current_range q = Some r" "range_min r < range_max r" "pending_ok cs q"
        "answers_needed q \<le> answers_needed p" and ag: "agrees ts q"
      using less.prems(2) by (auto simp: drained_def)
    define b where "b \<longleftrightarrow> ts ! creature_index q ! length (amounts (creatures q ! creature_index q))
        > range_min r + (range_max r - range_min r) div 2"
    note ans = answer_state[OF assms(1) r(3,1,2), of b]
    obtain bs where "play commit bs (set_pending (Some (q\<lparr>current_range := Some (halved b r)\<rparr>)) s) =
        Done [] (commit (allocation_events cs ts) (set_pending None s))"
      using less.hyps[OF _ ans(2)] ans(3) r(4) agrees_halved[OF ag r(1)] by (auto simp: b_def)
    then have "play commit (b # bs) (set_pending (Some p) s) = Done [] (commit (allocation_events cs ts) (set_pending None s))"
      using 2(2) ans(1) by (simp add: play.simps[of commit "b # bs"])
    then show ?case ..
  qed
qed

section \<open>The waves the engine starts\<close>

definition powers_fit :: "'r CombatGame \<Rightarrow> bool" where
  "powers_fit s \<longleftrightarrow> list_all (\<lambda>b. in_i32 (eff_power b)) (items (battle_objects s))"

lemma live_fits:
  assumes "powers_fit s" "live s (link s x)"
  shows "in_i32 (assigned_power s x)"
  using assms
  by (auto simp: powers_fit_def live_def link_def arena_try_get_def battle_object_def assigned_power_def
      list_all_length in_i32_def split: if_splits)

lemma attacker_damage_ok:
  assumes "c \<in> set (attacker_damage s ph first a)" "powers_fit s"
  shows "creature_ok c \<and> creature_valid s c = Inr () \<and> amounts c = []"
proof -
  have live: "live s (link s a)" and pow: "in_i32 (assigned_power s a)"
    using assms live_fits by (auto simp: attacker_damage_def participates_def split: if_splits)
  have rec: "0 \<le> lethal r \<and> (\<forall>l. incarnation r = Some l \<longrightarrow> target r = TargetObject (link_object l) \<and> live s l)"
    if "r \<in> set (recipients c)" for r
    using that assms(1)
    by (auto simp: attacker_damage_def Let_def blocker_recipient_def excess_recipient_def damage_recipient_def
        link_def split: if_splits option.splits)
  have "creature_power c = assigned_power s a" "damage_source c = link s a" "recipients c \<noteq> []" "amounts c = []"
    "damage_controller c = obj_controller (battle_object s a)"
    using assms(1) by (auto simp: attacker_damage_def Let_def split: if_splits)
  then show ?thesis
    using live pow rec
    by (auto simp: creature_ok_def creature_valid_def list_all_iff list_ex_iff link_def assigned_power_def
        Let_def split: option.splits)
qed

lemma blocker_damage_ok:
  assumes "c \<in> set (blocker_damage s ph first ab)" "powers_fit s"
  shows "creature_ok c \<and> creature_valid s c = Inr () \<and> amounts c = []"
proof -
  obtain a bs b where ab: "ab = (a, bs)" "live s (link s a)" "participates s (link s b) ph first"
    and c: "c = \<lparr>damage_source = link s b, damage_controller = obj_controller (battle_object s b),
              creature_power = assigned_power s b,
              recipients = [\<lparr>target = TargetObject a, incarnation = Some (link s a), lethal = 0\<rparr>],
              trample = False, amounts = []\<rparr>"
    using assms(1) by (cases ab) (auto simp: blocker_damage_def split: if_splits)
  then show ?thesis
    using live_fits[OF assms(2), of b]
    by (auto simp: creature_ok_def creature_valid_def participates_def assigned_power_def Let_def link_def)
qed

lemma build_wave_ok:
  assumes "powers_fit s"
  shows "pending_ok (creatures (build_wave s ph first)) (build_wave s ph first)"
    and "list_all (\<lambda>c. creature_valid s c = Inr ()) (creatures (build_wave s ph first))"
    and "list_all2 legal_allocation (creatures (build_wave s ph first)) ts \<Longrightarrow> agrees ts (build_wave s ph first)"
    and "answers_needed (build_wave s ph first)
      = 31 * sum_list (map (length \<circ> recipients) (creatures (build_wave s ph first)))"
proof -
  have all: "creature_ok c \<and> creature_valid s c = Inr () \<and> amounts c = []"
    if c: "c \<in> set (creatures (build_wave s ph first))" for c
  proof -
    obtain a ab where "c \<in> set (attacker_damage s ph first a) \<or> c \<in> set (blocker_damage s ph first ab)"
      using c by (auto simp: build_wave_def)
    then show ?thesis
      using attacker_damage_ok[OF _ assms] blocker_damage_ok[OF _ assms] by blast
  qed
  have "cleared c = c" if "c \<in> set (creatures (build_wave s ph first))" for c
    using all[OF that] by (simp add: cleared_def)
  then have "map cleared (creatures (build_wave s ph first)) = creatures (build_wave s ph first)"
    by (simp add: map_idI)
  then show "pending_ok (creatures (build_wave s ph first)) (build_wave s ph first)"
    using all prefix_ok_Nil
    by (auto simp: pending_ok_def list_all_iff) (simp_all add: build_wave_def)
  show "list_all (\<lambda>c. creature_valid s c = Inr ()) (creatures (build_wave s ph first))"
    using all by (simp add: list_all_iff)
  show "agrees ts (build_wave s ph first)" if "list_all2 legal_allocation (creatures (build_wave s ph first)) ts"
    using that all
    by (auto simp: agrees_def list_all2_conv_all_nth) (simp add: build_wave_def)
  have "map unassigned (creatures (build_wave s ph first))
      = map (length \<circ> recipients) (creatures (build_wave s ph first))"
    using all by (auto simp: unassigned_def)
  moreover have "current_range (build_wave s ph first) = None" by (simp add: build_wave_def)
  ultimately show "answers_needed (build_wave s ph first)
      = 31 * sum_list (map (length \<circ> recipients) (creatures (build_wave s ph first)))"
    unfolding answers_needed_def Let_def by (metis option.simps(4))
qed

lemma started_by:
  assumes "s = start_first_wave pre \<or> start_normal_wave pre = Some s" "pending_of s = Some wave"
  shows "\<exists>f ph first. s = set_combat f pre \<and> foundations (combat s) \<noteq> None \<and> wave = build_wave pre ph first"
  using assms(1)
proof
  assume "s = start_first_wave pre"
  then show ?thesis
    using assms(2) unfolding start_first_wave_def Let_def
    by (intro exI conjI) (auto simp: pending_of_def set_combat_def)
next
  assume "start_normal_wave pre = Some s"
  then obtain r where "s = set_combat (\<lambda>c. c\<lparr>foundations := Some (r\<lparr>damage_phase := Normal,
      pending_damage := Some (build_wave pre Normal (first_strikers r))\<rparr>)\<rparr>) pre"
    by (auto simp: start_normal_wave_def split: option.splits)
  then show ?thesis
    using assms(2) by (intro exI conjI) (auto simp: pending_of_def set_combat_def)
qed

lemma started_wave:
  assumes "current_step pre = CombatDamage" "stack_items pre = []" "powers_fit pre"
    and "s = start_first_wave pre \<or> start_normal_wave pre = Some s" "pending_of s = Some wave"
  shows "wave_ready s (creatures wave)" "pending_ok (creatures wave) wave" "set_pending (Some wave) s = s"
    "list_all2 legal_allocation (creatures wave) ts \<Longrightarrow> agrees ts wave"
    "answers_needed wave = 31 * sum_list (map (length \<circ> recipients) (creatures wave))"
proof -
  obtain f ph first where s: "s = set_combat f pre" "foundations (combat s) \<noteq> None" "wave = build_wave pre ph first"
    using started_by[OF assms(4,5)] by blast
  show "answers_needed wave = 31 * sum_list (map (length \<circ> recipients) (creatures wave))"
    unfolding s(3) by (rule build_wave_ok(4)[OF assms(3)])
  show "wave_ready s (creatures wave)"
    using s assms(1,2) build_wave_ok(2)[OF assms(3)] by (auto simp: wave_ready_def)
  show "pending_ok (creatures wave) wave"
    unfolding s(3) by (rule build_wave_ok(1)[OF assms(3)])
  show "agrees ts wave" if "list_all2 legal_allocation (creatures wave) ts"
    using that build_wave_ok(3)[OF assms(3)] by (simp add: s(3))
  show "set_pending (Some wave) s = s"
    using assms(5) by (auto simp: set_pending_def set_combat_def pending_of_def bind_eq_Some_conv)
qed

text \<open>
  C2. Dividing combat damage under the Foundations rules reaches exactly the legal divisions:
  from a combat damage wave the engine starts (the first or the normal one), the damage that
  some sequence of half-range answers commits is precisely the damage of a division in which
  each creature assigns its whole power among its recipients, no amount negative, and a trampler
  assigns nothing to the attacked player or planeswalker unless every live blocker gets lethal
  damage (one suffices with deathtouch). All creatures commit in one batch.
\<close>

theorem damage_divisions_exact:
  assumes "current_step pre = CombatDamage" "stack_items pre = []" "powers_fit pre"
    and "s = start_first_wave pre \<or> start_normal_wave pre = Some s" "pending_of s = Some wave"
  shows "{t. \<exists>answers. play commit answers s = Done [] t} =
    {commit (allocation_events (creatures wave) ts) (set_pending None s) |ts.
       list_all2 legal_allocation (creatures wave) ts}"
proof -
  note wave = started_wave[OF assms]
  have "\<exists>ts. list_all2 legal_allocation (creatures wave) ts \<and>
      t = commit (allocation_events (creatures wave) ts) (set_pending None s)"
    if "play commit answers s = Done [] t" for answers t
    using play_sound[OF wave(1,2), where commit = commit and bs = answers] that by (simp add: wave(3))
  moreover have "\<exists>answers. play commit answers s = Done [] (commit (allocation_events (creatures wave) ts) (set_pending None s))"
    if "list_all2 legal_allocation (creatures wave) ts" for ts
    using play_complete[OF wave(1,2) wave(4)[OF that], where commit = commit] by (simp add: wave(3))
  ultimately show ?thesis by blast
qed

definition demo_creature :: "PlayerId \<Rightarrow> int \<Rightarrow> int \<Rightarrow> u32 \<Rightarrow> BattleObject" where
  "demo_creature p pw tough kw =
     \<lparr>obj_zone = Battlefield, obj_generation = 1, obj_controller = p, obj_tapped = False,
      summoning_sick = False, obj_damage = 0, goaded_by = [], time_counters = 0,
      enduring_enchantment = False, minimum_blockers_override = None, eff_power = pw,
      eff_toughness = tough, eff_keywords = kw, eff_executable = True, eff_creature = True,
      eff_planeswalker = False, eff_island_land = False, eff_monocolored = True,
      eff_minimum_blockers = 1, eff_must_attack = False, eff_cant_be_blocked = False,
      eff_evades_monarch = False, eff_no_combat_damage = False\<rparr>"

text \<open>A 5/5 trampler of P0 blocked by two 2/2 creatures of P1, in the combat damage step.\<close>

definition demo_combat :: "ProposedDamage list CombatGame" where
  "demo_combat =
     \<lparr>current_step = CombatDamage, active_player = P0, battlefield = (\<lambda>_. []),
      battle_objects = \<lparr>items = [demo_creature P0 5 5 TRAMPLE, demo_creature P1 2 2 0, demo_creature P1 2 2 0]\<rparr>,
      stack_items = [], monarch = None, extra_turns = False, turn_key = 1, card_bars = (\<lambda>_ _. False),
      halted = False,
      combat = combat_default\<lparr>attackers_declared := True, blockers_declared := True,
        attackers := [ObjectId 0], blocked_by := [(ObjectId 0, [ObjectId 1, ObjectId 2])],
        foundations := Some foundations_default\<rparr>,
      other_state = []\<rparr>"

definition demo_commit :: "ProposedDamage list \<Rightarrow> ProposedDamage list CombatGame \<Rightarrow> ProposedDamage list CombatGame" where
  "demo_commit evs s = s\<lparr>other_state := evs\<rparr>"

lemma demo_powers: "powers_fit demo_combat"
  by (simp add: powers_fit_def demo_combat_def demo_creature_def in_i32_def)

lemma demo_started:
  "pending_of (start_first_wave demo_combat) = Some (build_wave demo_combat Normal [])"
  by (simp add: pending_of_def start_first_wave_def Let_def set_combat_def demo_combat_def combat_default_def
      battle_object_def demo_creature_def has_effective_keyword_def TRAMPLE_def FIRST_STRIKE_def DOUBLE_STRIKE_def)

theorem damage_divisions_exact_witness:
  "{t. \<exists>answers. play demo_commit answers (start_first_wave demo_combat) = Done [] t} =
    {demo_commit (allocation_events (creatures (build_wave demo_combat Normal [])) ts)
       (set_pending None (start_first_wave demo_combat)) |ts.
       list_all2 legal_allocation (creatures (build_wave demo_combat Normal [])) ts}"
  by (rule damage_divisions_exact[where pre = demo_combat and s = "start_first_wave demo_combat"
      and wave = "build_wave demo_combat Normal []" and commit = demo_commit])
    (simp_all add: demo_powers demo_started, simp_all add: demo_combat_def)

text \<open>
  C23. The division of damage ends: each creature needs at most 31 answers for each of its
  recipients, because an offered range has fewer than \<open>2 ^ 31\<close> values and every answer halves it.
  The loop never reports an error on the way.
\<close>

theorem damage_assignment_terminates:
  assumes "current_step pre = CombatDamage" "stack_items pre = []" "powers_fit pre"
    and "s = start_first_wave pre \<or> start_normal_wave pre = Some s" "pending_of s = Some wave"
    and "31 * sum_list (map (length \<circ> recipients) (creatures wave)) \<le> length answers"
  shows "\<exists>rest_answers t. play commit answers s = Done rest_answers t"
proof -
  note wave = started_wave[OF assms(1-5)]
  have "answers_needed wave \<le> length answers"
    using assms(6) by (simp add: wave(5))
  then show ?thesis
    using play_sound[OF wave(1,2), where commit = commit and bs = answers] by (auto simp: wave(3) split: play_outcome.splits)
qed

theorem damage_assignment_terminates_witness:
  "\<exists>rest_answers t. play demo_commit (replicate 155 True) (start_first_wave demo_combat)
     = Done rest_answers t"
proof (rule damage_assignment_terminates[where pre = demo_combat and s = "start_first_wave demo_combat"
      and wave = "build_wave demo_combat Normal []" and commit = demo_commit
      and answers = "replicate 155 True"])
  show "31 * sum_list (map (length \<circ> recipients) (creatures (build_wave demo_combat Normal [])))
      \<le> length (replicate 155 True)"
    by code_simp
qed (simp_all add: demo_powers demo_started, simp_all add: demo_combat_def)

end
