(* ===== verification/Combat_Declare.thy ===== *)
theory Combat_Declare
  imports Combat_Damage
begin

text \<open>
  Declaring attackers and blockers, the shape of the combat record over a whole combat, and the
  fixed damage assignment of games without the Foundations rules, which is shown to be one of the
  legal divisions of \<open>Combat_Damage\<close>.
\<close>

section \<open>Blocks\<close>

definition blockers_of :: "(ObjectId \<times> ObjectId) list \<Rightarrow> ObjectId \<Rightarrow> ObjectId list" where
  "blockers_of blocks a = map fst (filter (\<lambda>(_, x). x = a) blocks)"

lemma blockers_of_simps [simp]:
  "blockers_of [] a = []"
  "blockers_of ((b, x) # blocks) a = (if x = a then b # blockers_of blocks a else blockers_of blocks a)"
  by (simp_all add: blockers_of_def)

lemma blockers_of_append: "blockers_of (xs @ ys) a = blockers_of xs a @ blockers_of ys a"
  by (simp add: blockers_of_def)

lemma blockers_of_eq_Nil: "blockers_of blocks a = [] \<longleftrightarrow> a \<notin> snd ` set blocks"
  by (force simp: blockers_of_def filter_empty_conv)

lemma set_blockers_of: "set (blockers_of blocks a) = {b. (b, a) \<in> set blocks}"
  by (force simp: blockers_of_def)

lemma add_block_keys [simp]: "fst ` set (add_block x gs) = insert (snd x) (fst ` set gs)"
  by (induction x gs rule: add_block.induct) auto

lemma add_block_distinct: "distinct (map fst gs) \<Longrightarrow> distinct (map fst (add_block (b, a) gs))"
  by (induction "(b, a)" gs rule: add_block.induct) auto

lemma map_of_add_block:
  "map_of (add_block (b, a) gs) x =
     (if x = a then Some (case map_of gs a of None \<Rightarrow> [b] | Some bs \<Rightarrow> bs @ [b]) else map_of gs x)"
  by (induction "(b, a)" gs rule: add_block.induct) auto

lemma fold_add_block:
  "distinct (map fst (fold add_block blocks []))"
  "fst ` set (fold add_block blocks []) = snd ` set blocks"
  "map_of (fold add_block blocks []) a = (if blockers_of blocks a = [] then None else Some (blockers_of blocks a))"
proof -
  show "distinct (map fst (fold add_block blocks []))"
    by (induction blocks rule: rev_induct) (auto simp: add_block_distinct)
  show "fst ` set (fold add_block blocks []) = snd ` set blocks"
    by (induction blocks rule: rev_induct) simp_all
  show "map_of (fold add_block blocks []) a = (if blockers_of blocks a = [] then None else Some (blockers_of blocks a))"
    by (induction blocks rule: rev_induct)
      (auto simp: map_of_add_block blockers_of_append split: if_splits)
qed

text \<open>Every blocker stays in exactly one group.\<close>

lemma concat_add_block: "mset (concat (map snd (add_block (b, a) gs))) = add_mset b (mset (concat (map snd gs)))"
  by (induction "(b, a)" gs rule: add_block.induct) auto

lemma concat_fold_add_block: "mset (concat (map snd (fold add_block blocks []))) = mset (map fst blocks)"
  by (induction blocks rule: rev_induct) (auto simp: concat_add_block)

lemma check_blocks_ok:
  "check_blocks s atts seen blocks = Inr () \<longleftrightarrow>
     (\<forall>(b, a) \<in> set blocks. a \<in> set atts \<and> b \<in> set (legal_blockers_for s a)) \<and>
     distinct (map fst blocks) \<and> fst ` set blocks \<inter> set seen = {}"
  by (induction s atts seen blocks rule: check_blocks.induct) auto

lemma check_minimums_ok:
  "check_minimums s blocks atts = Inr () \<longleftrightarrow>
     (\<forall>a \<in> set atts. blockers_of blocks a = [] \<or> minimum_blockers_required s a \<le> length (blockers_of blocks a))"
  by (induction atts) (auto simp: Let_def blockers_of_def)

definition blocks_legal :: "'r CombatGame \<Rightarrow> (ObjectId \<times> ObjectId) list \<Rightarrow> bool" where
  "blocks_legal s blocks \<longleftrightarrow>
     current_step s = DeclareBlockers \<and> \<not> blockers_declared (combat s) \<and> distinct (map fst blocks) \<and>
     (\<forall>(b, a) \<in> set blocks. a \<in> set (attackers (combat s)) \<and> is_still_in_combat s a \<and>
        b \<in> set (legal_blockers_for s a) \<and>
        minimum_blockers_required s a \<le> length (blockers_of blocks a))"

lemma validate_blockers_iff: "validate_declare_blockers s blocks = Inr () \<longleftrightarrow> blocks_legal s blocks"
proof -
  have ne: "blockers_of blocks a \<noteq> [] \<longleftrightarrow> (\<exists>b. (b, a) \<in> set blocks)" for a
    by (force simp: blockers_of_eq_Nil)
  show ?thesis
  proof
    show "blocks_legal s blocks" if "validate_declare_blockers s blocks = Inr ()"
      using that ne
      by (fastforce simp: validate_declare_blockers_def blocks_legal_def Let_def and_then_eq_Inr
          check_blocks_ok check_minimums_ok split: if_splits)
    show "validate_declare_blockers s blocks = Inr ()" if "blocks_legal s blocks"
      using that ne
      by (fastforce simp: validate_declare_blockers_def blocks_legal_def Let_def and_then_eq_Inr
          check_blocks_ok check_minimums_ok)
  qed
qed

lemma result_unit_cases: "(r :: (unit, 'e) result) \<noteq> Inr () \<Longrightarrow> \<exists>e. r = Inl e"
  by (cases r) auto

text \<open>
  C20. Declaring blockers: the declaration is accepted exactly when the step and the turn's state
  allow it, no creature blocks twice, every pair names a live attacker and a creature that may
  block it, and every blocked attacker has at least the number of blockers it requires. Then each
  attacker's blockers are recorded in declaration order, an attacker without a pair stays
  unblocked, and nothing else changes before the triggers are collected; a refused declaration
  changes nothing.
\<close>

theorem declare_blockers_correct:
  "case apply_declare_blockers settle blocks s of
     (Inl e, t) \<Rightarrow> \<not> blocks_legal s blocks \<and> t = s
   | (Inr _, t) \<Rightarrow> blocks_legal s blocks \<and>
       (\<exists>groups. t = settle (set_combat (\<lambda>c. c\<lparr>blocked_by := groups, blockers_declared := True\<rparr>) s) \<and>
          distinct (map fst groups) \<and>
          (\<forall>a. map_of groups a =
             (if a \<in> snd ` set blocks then Some [b. (b, x) \<leftarrow> blocks, x = a] else None)))"
proof (cases "blocks_legal s blocks")
  case False
  then obtain e where "validate_declare_blockers s blocks = Inl e"
    using validate_blockers_iff[of s blocks] result_unit_cases by blast
  then show ?thesis using False by (simp add: apply_declare_blockers_def)
next
  case True
  have b: "blockers_of blocks a = [b. (b, x) \<leftarrow> blocks, x = a]" for a
    by (induction blocks) auto
  have "map_of (fold add_block blocks []) a =
      (if a \<in> snd ` set blocks then Some [b. (b, x) \<leftarrow> blocks, x = a] else None)" for a
    unfolding fold_add_block(3) blockers_of_eq_Nil by (auto simp flip: b)
  then show ?thesis
    using True validate_blockers_iff[of s blocks] fold_add_block(1)[of blocks]
    by (simp add: apply_declare_blockers_def) (rule exI[of _ "fold add_block blocks []"], simp)
qed

section \<open>Attackers\<close>

definition attackers_legal :: "'r CombatGame \<Rightarrow> ObjectId list \<Rightarrow> bool" where
  "attackers_legal s xs \<longleftrightarrow>
     current_step s = DeclareAttackers \<and> \<not> attackers_declared (combat s) \<and> distinct xs \<and>
     set xs \<subseteq> set (eligible_attackers s) \<and> set (required_attackers s (eligible_attackers s)) \<subseteq> set xs"

lemma dedup_length: "length (remdups_adj (sort xs)) = length xs \<longleftrightarrow> distinct (xs :: 'a::linorder list)"
proof -
  have "distinct (remdups_adj ys)" if "sorted ys" for ys :: "'a list"
    using that by (induction ys rule: remdups_adj.induct) auto
  then have "length (remdups_adj (sort xs)) = card (set xs)"
    using distinct_card[of "remdups_adj (sort xs)"] by simp
  then show ?thesis by (auto simp: card_distinct distinct_card)
qed

lemma validate_attackers_iff: "validate_declare_attackers s xs = Inr () \<longleftrightarrow> attackers_legal s xs"
proof -
  have "set (required_goaded_attackers s xs) \<subseteq> set (required_attackers s xs)" for xs
    by (auto simp: required_attackers_def required_goaded_attackers_def Let_def)
  then show ?thesis
    by (auto simp: validate_declare_attackers_def attackers_legal_def Let_def dedup_length list_all_iff)
qed

section \<open>The shape of the combat record\<close>

definition targets_wf :: "ObjectId set \<Rightarrow> AttackTargetsV1 option \<Rightarrow> bool" where
  "targets_wf atts ts \<longleftrightarrow>
     (case ts of
        None \<Rightarrow> True
      | Some t \<Rightarrow>
          pending_declaration t = None \<and> distinct (map fst (planeswalker_attacks t)) \<and>
          fst ` set (planeswalker_attacks t) \<subseteq> atts)"

definition blocks_wf :: "CombatState \<Rightarrow> bool" where
  "blocks_wf c \<longleftrightarrow>
     distinct (attackers c) \<and> distinct (map fst (blocked_by c)) \<and>
     fst ` set (blocked_by c) \<subseteq> set (attackers c) \<and> distinct (concat (map snd (blocked_by c)))"

definition combat_wf :: "CombatState \<Rightarrow> bool" where
  "combat_wf c \<longleftrightarrow>
     blocks_wf c \<and> (\<not> attackers_declared c \<longrightarrow> attackers c = [] \<and> blocked_by c = []) \<and>
     (case attack_targets c of
        Some t \<Rightarrow>
          (case pending_declaration t of
             Some p \<Rightarrow> planeswalker_attacks t = [] \<and> \<not> attackers_declared c \<and> distinct (declared_attackers p)
           | None \<Rightarrow> targets_wf (set (attackers c)) (Some t))
      | None \<Rightarrow> True)"

text \<open>
  Committing a tap, publishing the attack and collecting triggers change the combat record only
  by taking creatures out of combat that leave the battlefield.
\<close>

definition only_removes :: "('r CombatGame \<Rightarrow> 'r CombatGame) \<Rightarrow> bool" where
  "only_removes f \<longleftrightarrow> (\<forall>s. \<exists>xs. combat (f s) = fold remove_from_combat xs (combat s))"

lemma distinct_concat_filter:
  "distinct (concat (map snd gs)) \<Longrightarrow>
   distinct (concat (map (\<lambda>g. filter P (snd g)) (filter Q gs)))"
  by (induction gs) auto

lemma blocks_wf_remove: "blocks_wf c \<Longrightarrow> blocks_wf (remove_from_combat x c)"
  using distinct_concat_filter[of "blocked_by c" "\<lambda>b. b \<noteq> x" "\<lambda>(a, _). a \<noteq> x"]
  by (auto simp: blocks_wf_def remove_from_combat_def distinct_map_filter comp_def case_prod_unfold
      intro: inj_on_subset)

lemma remove_from_combat_keys: "fst ` set (blocked_by (remove_from_combat x c)) = fst ` set (blocked_by c) - {x}"
  by (force simp: remove_from_combat_def)

lemma remove_from_combat_gone:
  "x \<notin> set (attackers (remove_from_combat x c)) \<union> fst ` set (blocked_by (remove_from_combat x c)) \<union>
     set (concat (map snd (blocked_by (remove_from_combat x c))))"
  by (auto simp: remove_from_combat_def)

lemma remove_attack_target_pending:
  "ts = Some t \<Longrightarrow> pending_declaration t = Some p \<Longrightarrow> planeswalker_attacks t = [] \<Longrightarrow>
   remove_attack_target x ts = ts"
  by (simp add: remove_attack_target_def)

lemma targets_wf_remove: "targets_wf atts ts \<Longrightarrow> targets_wf (atts - {x}) (remove_attack_target x ts)"
  by (auto simp: targets_wf_def remove_attack_target_def Let_def distinct_map_filter split: option.splits)

lemma combat_wf_remove: "combat_wf c \<Longrightarrow> combat_wf (remove_from_combat x c)"
proof -
  assume wf: "combat_wf c"
  have set: "set (attackers (remove_from_combat x c)) = set (attackers c) - {x}"
    by (auto simp: remove_from_combat_def)
  have frame: "attackers_declared (remove_from_combat x c) = attackers_declared c"
    "attack_targets (remove_from_combat x c) = remove_attack_target x (attack_targets c)"
    by (simp_all add: remove_from_combat_def)
  have "\<not> attackers_declared c \<Longrightarrow> attackers (remove_from_combat x c) = [] \<and> blocked_by (remove_from_combat x c) = []"
    using wf by (simp add: combat_wf_def remove_from_combat_def)
  then show ?thesis
    using wf blocks_wf_remove[of c x] targets_wf_remove[of "set (attackers c)" "attack_targets c" x]
      remove_attack_target_pending
    unfolding combat_wf_def set frame
    by (auto simp: targets_wf_def split: option.splits)
qed

lemma combat_wf_removes: "combat_wf c \<Longrightarrow> combat_wf (fold remove_from_combat xs c)"
  by (induction xs arbitrary: c) (simp_all add: combat_wf_remove)

lemma only_removes_wf: "only_removes f \<Longrightarrow> combat_wf (combat s) \<Longrightarrow> combat_wf (combat (f s))"
  using combat_wf_removes by (metis only_removes_def)

text \<open>While a declaration is being completed: the targets are those of the declared attackers.\<close>

definition completing :: "ObjectId list \<Rightarrow> CombatState \<Rightarrow> bool" where
  "completing xs c \<longleftrightarrow> distinct xs \<and> blocked_by c = [] \<and> targets_wf (set xs) (attack_targets c)"

lemma completing_remove: "completing xs c \<Longrightarrow> completing xs (remove_from_combat x c)"
  using targets_wf_remove[of "set xs" "attack_targets c" x]
  by (auto simp: completing_def remove_from_combat_def targets_wf_def split: option.splits)

lemma completing_removes: "completing xs c \<Longrightarrow> completing xs (fold remove_from_combat ys c)"
  by (induction ys arbitrary: c) (simp_all add: completing_remove)

lemma completing_taps:
  assumes "\<And>x. only_removes (tap x)" "completing xs (combat s)"
  shows "completing xs (combat (fold (\<lambda>x t. if has_effective_keyword t x VIGILANCE then t else tap x t) ys s))"
  using assms(2)
proof (induction ys arbitrary: s)
  case Nil
  then show ?case by simp
next
  case (Cons y ys)
  obtain zs where "combat (tap y s) = fold remove_from_combat zs (combat s)"
    using assms(1) by (auto simp: only_removes_def)
  then have "completing xs (combat (if has_effective_keyword s y VIGILANCE then s else tap y s))"
    using Cons.prems completing_removes[of xs "combat s" zs] by simp
  then show ?case using Cons.IH by simp
qed

lemma combat_of_set_combat [simp]: "combat (set_combat f s) = f (combat s)"
  by (simp add: set_combat_def)

lemma finish_declare_wf:
  assumes "\<And>x. only_removes (tap x)" "only_removes publish" "only_removes settle" "completing xs (combat s)"
  shows "combat_wf (combat (finish_declare_attackers tap publish settle xs s))"
proof -
  let ?t = "fold (\<lambda>x t. if has_effective_keyword t x VIGILANCE then t else tap x t) xs s"
  have "completing xs (combat ?t)" by (rule completing_taps[OF assms(1,4)])
  then have "combat_wf ((combat ?t)\<lparr>attackers := xs, attackers_declared := True\<rparr>)"
    by (auto simp: completing_def combat_wf_def blocks_wf_def targets_wf_def split: option.splits)
  then show ?thesis
    unfolding finish_declare_attackers_def commit_attack_declaration_def
    by (intro only_removes_wf[OF assms(3)] only_removes_wf[OF assms(2)]) simp
qed

lemma declare_attackers_wf:
  assumes "\<And>x. only_removes (tap x)" "only_removes publish" "only_removes settle"
    and "combat_wf (combat s)" "\<not> has_pending_attack s"
  shows "combat_wf (combat (snd (apply_declare_attackers tap publish settle xs s)))"
proof (cases "attackers_legal s xs")
  case False
  then obtain e where "validate_declare_attackers s xs = Inl e"
    using validate_attackers_iff[of s xs] result_unit_cases by blast
  then show ?thesis using assms(4) by (simp add: apply_declare_attackers_def)
next
  case True
  then have v: "validate_declare_attackers s xs = Inr ()" by (simp add: validate_attackers_iff)
  have undeclared: "\<not> attackers_declared (combat s)" "distinct xs"
    "attackers (combat s) = []" "blocked_by (combat s) = []"
    using True assms(4) by (auto simp: attackers_legal_def combat_wf_def)
  show ?thesis
  proof (cases "fst (begin_attack_targets xs s)")
    case begun: True
    then show ?thesis
      using assms(4) undeclared v
      by (auto simp: apply_declare_attackers_def begin_attack_targets_def combat_wf_def blocks_wf_def split: if_splits)
  next
    case False
    then have "begin_attack_targets xs s = (False, s)"
      by (auto simp: begin_attack_targets_def split: if_splits)
    moreover have "completing xs (combat s)"
      using assms(4,5) undeclared
      by (auto simp: completing_def combat_wf_def has_pending_attack_def targets_wf_def split: option.splits)
    ultimately show ?thesis
      using v finish_declare_wf[OF assms(1-3)] by (simp add: apply_declare_attackers_def)
  qed
qed

lemma planeswalker_links_keys:
  "distinct (map fst pairs) \<Longrightarrow>
   distinct (map fst (planeswalker_links s pairs)) \<and>
   fst ` set (planeswalker_links s pairs) \<subseteq> fst ` set pairs"
proof (induction pairs)
  case Nil
  then show ?case by (simp add: planeswalker_links_def)
next
  case (Cons x pairs)
  obtain a t where x: "x = (a, t)" by (cases x)
  have "planeswalker_links s (x # pairs) =
      (case t of TargetObject y \<Rightarrow> [(a, link s y)] | _ \<Rightarrow> []) @ planeswalker_links s pairs"
    by (simp add: planeswalker_links_def x)
  then show ?case
    using Cons by (cases t) (auto simp: x)
qed

lemma attack_target_answer_wf:
  assumes "\<And>x. only_removes (tap x)" "only_removes publish" "only_removes settle" "combat_wf (combat s)"
  shows "combat_wf (combat (snd (attack_target_answer tap publish settle tgt s)))"
proof (cases "pending_attack s")
  case (Inl e)
  then show ?thesis using assms(4) by (simp add: attack_target_answer_def)
next
  case (Inr p)
  then obtain ts where ts: "attack_targets (combat s) = Some ts" "pending_declaration ts = Some p"
    "length (chosen_targets p) < length (declared_attackers p)"
    by (auto simp: pending_attack_def and_then_eq_Inr split: option.splits if_splits)
  have wf: "planeswalker_attacks ts = []" "distinct (declared_attackers p)" "blocked_by (combat s) = []"
    "\<not> attackers_declared (combat s)"
    using assms(4) ts by (auto simp: combat_wf_def)
  let ?pairs = "zip (declared_attackers p) (chosen_targets p @ [tgt])"
  show ?thesis
  proof (cases "length (chosen_targets p) + 1 < length (declared_attackers p)")
    case True
    then show ?thesis
      using assms(4) Inr ts wf
      by (auto simp: attack_target_answer_def combat_wf_def blocks_wf_def Let_def)
  next
    case False
    then have len: "length (chosen_targets p @ [tgt]) = length (declared_attackers p)" using ts(3) by simp
    have keys: "map fst ?pairs = declared_attackers p" using len by simp
    have "completing (declared_attackers p) ((combat s)\<lparr>attack_targets :=
        (if planeswalker_links s ?pairs = [] then None
         else Some (ts\<lparr>planeswalker_attacks := planeswalker_links s ?pairs, pending_declaration := None\<rparr>))\<rparr>)"
      using planeswalker_links_keys[of ?pairs s] wf keys
      by (auto simp: completing_def targets_wf_def simp del: zip_append simp flip: set_map)
    then show ?thesis
      using Inr ts wf(1) len assms(4) finish_declare_wf[OF assms(1-3)]
      by (auto simp: attack_target_answer_def Let_def)
  qed
qed

lemma declare_blockers_wf:
  assumes "only_removes settle" "combat_wf (combat s)"
  shows "combat_wf (combat (snd (apply_declare_blockers settle blocks s)))"
proof (cases "blocks_legal s blocks")
  case False
  then obtain e where "validate_declare_blockers s blocks = Inl e"
    using validate_blockers_iff[of s blocks] result_unit_cases by blast
  then show ?thesis using assms(2) by (simp add: apply_declare_blockers_def)
next
  case True
  let ?gs = "fold add_block blocks []"
  have "distinct (concat (map snd ?gs))"
    using True mset_eq_imp_distinct_iff[OF concat_fold_add_block[of blocks]] by (simp add: blocks_legal_def)
  moreover have keys: "fst ` set ?gs \<subseteq> set (attackers (combat s))"
    using True fold_add_block(2)[of blocks] by (auto simp: blocks_legal_def)
  moreover have "?gs = []" if "attackers (combat s) = []"
    using keys that by (cases ?gs) auto
  ultimately have "combat_wf ((combat s)\<lparr>blocked_by := ?gs, blockers_declared := True\<rparr>)"
    using assms(2) fold_add_block(1)[of blocks]
    by (auto simp: combat_wf_def blocks_wf_def targets_wf_def split: option.splits)
  then show ?thesis
    using True validate_blockers_iff[of s blocks] only_removes_wf[OF assms(1)]
    by (simp add: apply_declare_blockers_def)
qed

lemma answer_range_wf: "combat_wf (combat s) \<Longrightarrow> combat_wf (combat (snd (answer_range b s)))"
  by (auto simp: answer_range_def set_pending_def combat_wf_def blocks_wf_def targets_wf_def
      split: option.splits sum.splits)

datatype combat_op = ActionOp CombatAction | LeaveBattlefieldOp ObjectId | ResetOp

definition combat_step ::
  "(ObjectId \<Rightarrow> 'r CombatGame \<Rightarrow> 'r CombatGame) \<Rightarrow> ('r CombatGame \<Rightarrow> 'r CombatGame)
    \<Rightarrow> ('r CombatGame \<Rightarrow> 'r CombatGame) \<Rightarrow> combat_op \<Rightarrow> 'r CombatGame
    \<Rightarrow> (unit, CombatError) result \<times> 'r CombatGame" where
  "combat_step tap publish settle op s =
     (case op of
        ActionOp act \<Rightarrow> combat_action tap publish settle act s
      | LeaveBattlefieldOp x \<Rightarrow> (Inr (), set_combat (remove_from_combat x) s)
      | ResetOp \<Rightarrow> (Inr (), set_combat reset_preserving_rules s))"

lemma combat_step_wf:
  assumes "\<And>x. only_removes (tap x)" "only_removes publish" "only_removes settle" "combat_wf (combat s)"
  shows "combat_wf (combat (snd (combat_step tap publish settle op s)))"
proof (cases op)
  case (ActionOp act)
  then show ?thesis
    using assms declare_attackers_wf[OF assms] attack_target_answer_wf[OF assms]
      declare_blockers_wf[OF assms(3,4)] answer_range_wf[OF assms(4)]
    by (cases act) (auto simp: combat_step_def combat_action_def)
next
  case (LeaveBattlefieldOp x)
  then show ?thesis using assms(4) by (simp add: combat_step_def combat_wf_remove)
next
  case ResetOp
  then show ?thesis
    by (simp add: combat_step_def reset_preserving_rules_def combat_default_def combat_wf_def blocks_wf_def)
qed

lemma combat_machine:
  assumes "\<And>x. only_removes (tap x)" "only_removes publish" "only_removes settle"
  shows "fallible_machine (combat_step tap publish settle) (\<lambda>s. combat_wf (combat s))"
  by unfold_locales (rule combat_step_wf[OF assms])


definition demo_declaring :: "ProposedDamage list CombatGame" where
  "demo_declaring = demo_combat\<lparr>current_step := DeclareAttackers,
     battlefield := (\<lambda>p. if p = P0 then [ObjectId 0] else [ObjectId 1, ObjectId 2]), combat := combat_default\<rparr>"

lemma only_removes_id: "only_removes (\<lambda>s. s)"
  unfolding only_removes_def by (intro allI exI[of _ "[]"]) simp


end
