(* ===== verification/Combat_Fixed.thy ===== *)
theory Combat_Fixed
  imports Combat_Declare
begin

text \<open>
  The fixed assignment of \<^verbatim>\<open>engine.rs\<close> (\<^verbatim>\<open>assign_attacker_damage_to_blockers\<close>), used when the
  Foundations rules are off, is one of the divisions that those rules allow: a greedy walk over
  the blockers in declaration order.
\<close>

section \<open>Greedy division\<close>

text \<open>\<open>greedy\<close> stops at what each recipient needs; \<open>greedy_last\<close> gives the rest to the last one.\<close>

fun greedy :: "int list \<Rightarrow> int \<Rightarrow> int list" where
  "greedy [] r = []"
| "greedy (l # ls) r = min r l # greedy ls (r - min r l)"

fun greedy_last :: "int list \<Rightarrow> int \<Rightarrow> int list" where
  "greedy_last [] r = []"
| "greedy_last (l # ls) r =
     (let n = (if ls = [] then r else min r l) in n # greedy_last ls (r - n))"

lemma length_greedy [simp]: "length (greedy ls r) = length ls" "length (greedy_last ls r) = length ls"
  by (induction ls arbitrary: r) (auto simp: Let_def)

lemma greedy_bounds:
  assumes "list_all (\<lambda>l. 0 \<le> l) ls" "0 \<le> r"
  shows "list_all (\<lambda>n. 0 \<le> n) (greedy ls r)" "sum_list (greedy ls r) \<le> r"
    "sum_list (greedy ls r) < r \<Longrightarrow> greedy ls r = ls"
proof -
  have "list_all (\<lambda>n. 0 \<le> n) (greedy ls r) \<and> sum_list (greedy ls r) \<le> r \<and>
      (sum_list (greedy ls r) < r \<longrightarrow> greedy ls r = ls)"
    using assms
  proof (induction ls arbitrary: r)
    case Nil
    then show ?case by simp
  next
    case (Cons l ls)
    have "0 \<le> r - min r l" using Cons.prems by simp
    with Cons.IH[of "r - min r l"] Cons.prems sum_list_nonneg_int[of "greedy ls (r - min r l)"]
    show ?case by (auto simp: min_def)
  qed
  then show "list_all (\<lambda>n. 0 \<le> n) (greedy ls r)" "sum_list (greedy ls r) \<le> r"
    "sum_list (greedy ls r) < r \<Longrightarrow> greedy ls r = ls"
    by auto
qed

lemma greedy_last_bounds:
  assumes "list_all (\<lambda>l. 0 \<le> l) ls" "0 \<le> r"
  shows "list_all (\<lambda>n. 0 \<le> n) (greedy_last ls r)" "ls \<noteq> [] \<Longrightarrow> sum_list (greedy_last ls r) = r"
proof -
  have "list_all (\<lambda>n. 0 \<le> n) (greedy_last ls r) \<and> (ls \<noteq> [] \<longrightarrow> sum_list (greedy_last ls r) = r)"
    using assms by (induction ls arbitrary: r) (auto simp: Let_def)
  then show "list_all (\<lambda>n. 0 \<le> n) (greedy_last ls r)" "ls \<noteq> [] \<Longrightarrow> sum_list (greedy_last ls r) = r"
    by auto
qed

text \<open>The events of an amount for each blocker.\<close>

definition block_events :: "ObjectId \<Rightarrow> ObjectId list \<Rightarrow> int list \<Rightarrow> ProposedDamage list" where
  "block_events a bs ns = concat (map2 (\<lambda>b n. damage_event a (TargetObject b) n) bs ns)"

lemma block_events_simps [simp]:
  "block_events a [] ns = []"
  "block_events a (b # bs) (n # ns) = damage_event a (TargetObject b) n @ block_events a bs ns"
  by (simp_all add: block_events_def)

lemma greedy_zero:
  "list_all (\<lambda>l. 0 \<le> l) ls \<Longrightarrow> length bs = length ls \<Longrightarrow> block_events a bs (greedy ls 0) = []"
  "length bs = length ls \<Longrightarrow> list_all (\<lambda>l. 0 \<le> l) ls \<Longrightarrow> block_events a bs (greedy_last ls 0) = []"
  by (induction ls arbitrary: bs; auto simp: length_Suc_conv damage_event_def Let_def min_def)+

definition trample_need :: "'r CombatGame \<Rightarrow> bool \<Rightarrow> ObjectId \<Rightarrow> int" where
  "trample_need s dt b = (if dt then min (trample_lethal s b) 1 else trample_lethal s b)"

lemma trample_need_nonneg: "0 \<le> trample_need s dt b" "list_all (\<lambda>l. 0 \<le> l) (map (trample_need s dt) bs)"
  by (auto simp: trample_need_def trample_lethal_def list_all_iff)

lemma assign_trample_Cons:
  assumes "0 \<le> r" "n = (if \<not> ex \<and> bs = [] then r else min r (trample_need s dt b))"
  shows "assign_trample s a dt ex (b # bs) r =
    (if r - n = 0 then (damage_event a (TargetObject b) n, 0)
     else (case assign_trample s a dt ex bs (r - n) of
             (evs, q) \<Rightarrow> (damage_event a (TargetObject b) n @ evs, q)))"
proof -
  have "0 \<le> n" using assms trample_need_nonneg(1)[of s dt b] by simp
  then have "(if 0 < n then r - n else r) = r - n" by auto
  then show ?thesis
    unfolding assign_trample.simps Let_def trample_need_def[symmetric] assms(2)[symmetric] by auto
qed

lemma assign_trample_greedy:
  assumes "0 \<le> r"
  shows "assign_trample s a dt True bs r =
    (block_events a bs (greedy (map (trample_need s dt) bs) r), r - sum_list (greedy (map (trample_need s dt) bs) r))"
  using assms
proof (induction bs arbitrary: r)
  case Nil
  then show ?case by simp
next
  case (Cons b bs)
  note pos = trample_need_nonneg(2)[of s dt bs]
  have z: "sum_list (greedy (map (trample_need s dt) bs) 0) = 0"
    using greedy_bounds[OF pos, of 0] sum_list_nonneg_int[of "greedy (map (trample_need s dt) bs) 0"] by simp
  have "0 \<le> r - min r (trample_need s dt b)" by simp
  then show ?case
    using Cons.IH greedy_zero(1)[OF pos, of bs a] z assign_trample_Cons[OF Cons.prems refl, of s a dt True b bs]
    by auto
qed

lemma assign_trample_no_excess:
  assumes "0 \<le> r"
  shows "assign_trample s a dt False bs r =
    (block_events a bs (greedy_last (map (trample_need s dt) bs) r), if bs = [] then r else 0)"
  using assms
proof (induction bs arbitrary: r)
  case Nil
  then show ?case by simp
next
  case (Cons b bs)
  define n where "n = (if bs = [] then r else min r (trample_need s dt b))"
  have "0 \<le> r - n" by (simp add: n_def)
  then show ?case
    using Cons.IH greedy_zero(2)[OF _ trample_need_nonneg(2)[of s dt bs], of bs a]
      assign_trample_Cons[OF Cons.prems, of n False bs s dt b a]
    by (auto simp: Let_def simp flip: n_def) (auto simp: n_def)
qed

lemma assign_in_order_greedy:
  assumes "0 \<le> r"
  shows "assign_in_order s a bs r = block_events a bs (greedy_last (map (lethal_needed s a) bs) r)"
  using assms
proof (induction bs arbitrary: r)
  case Nil
  then show ?case by simp
next
  case (Cons b bs)
  have pos: "0 \<le> lethal_needed s a x" for x by (simp add: lethal_needed_def)
  then have "list_all (\<lambda>l. 0 \<le> l) (map (lethal_needed s a) (b # bs))" by (simp add: list_all_iff)
  note zero = greedy_zero(2)[OF _ this, of "b # bs" a]
  show ?case
  proof (cases "r = 0")
    case True
    then show ?thesis using zero by simp
  next
    case False
    then show ?thesis
      using Cons pos[of b] by (simp add: Let_def)
  qed
qed

text \<open>A later recipient gets damage only after each earlier one has what it needs.\<close>

lemma greedy_le: "list_all (\<lambda>l. 0 \<le> l) ls \<Longrightarrow> n \<in> set (greedy ls r) \<Longrightarrow> n \<le> max r 0"
proof (induction ls arbitrary: r)
  case (Cons l ls)
  then show ?case using Cons.IH[of "r - min r l"] by auto
qed simp

lemma greedy_last_le: "list_all (\<lambda>l. 0 \<le> l) ls \<Longrightarrow> n \<in> set (greedy_last ls r) \<Longrightarrow> n \<le> max r 0"
proof (induction ls arbitrary: r)
  case (Cons l ls)
  then show ?case using Cons.IH[of "r - min r l"] by (auto simp: Let_def split: if_splits)
qed simp

lemma greedy_order:
  assumes "list_all (\<lambda>l. 0 \<le> l) ls" "i < j" "j < length ls"
  shows "0 < greedy ls r ! j \<Longrightarrow> greedy ls r ! i = ls ! i"
    and "0 < greedy_last ls r ! j \<Longrightarrow> greedy_last ls r ! i = ls ! i"
proof -
  show "greedy ls r ! i = ls ! i" if "0 < greedy ls r ! j"
    using assms that
  proof (induction ls arbitrary: i j r)
    case (Cons l ls)
    obtain k where k: "j = Suc k" "k < length ls" using Cons.prems by (cases j) auto
    have "greedy ls (r - min r l) ! k \<le> max (r - min r l) 0"
      using greedy_le[of ls _ "r - min r l"] Cons.prems(1) k(2) by simp
    then have "min r l = l" using Cons.prems(4) k by auto
    then show ?case using Cons k by (cases i) auto
  qed simp
  show "greedy_last ls r ! i = ls ! i" if "0 < greedy_last ls r ! j"
    using assms that
  proof (induction ls arbitrary: i j r)
    case (Cons l ls)
    obtain k where k: "j = Suc k" "k < length ls" using Cons.prems by (cases j) auto
    then have ne: "ls \<noteq> []" by auto
    have "greedy_last ls (r - min r l) ! k \<le> max (r - min r l) 0"
      using greedy_last_le[of ls _ "r - min r l"] Cons.prems(1) k(2) by simp
    then have "min r l = l" using Cons.prems(4) k ne by (auto simp: Let_def)
    then show ?case using Cons k ne by (cases i) (auto simp: Let_def)
  qed simp
qed

section \<open>Legality\<close>

text \<open>Blockers still in combat, with toughness and damage whose difference fits 32 bits.\<close>

definition blocker_fits_i32 :: "'r CombatGame \<Rightarrow> ObjectId \<Rightarrow> bool" where
  "blocker_fits_i32 s b \<longleftrightarrow>
     live s (link s b) \<and> uint (obj_damage (battle_object s b)) < 2 ^ 31 \<and>
     in_i32 (eff_toughness (battle_object s b) - uint (obj_damage (battle_object s b)))"

definition blocker_record :: "'r CombatGame \<Rightarrow> ObjectId \<Rightarrow> ObjectId \<Rightarrow> DamageRecipientV1" where
  "blocker_record s a b =
     \<lparr>target = TargetObject b, incarnation = Some (link s b),
      lethal = trample_need s (has_effective_keyword s a DEATHTOUCH) b\<rparr>"

lemma sint_small: "uint (w :: u32) < 2 ^ 31 \<Longrightarrow> sint w = uint w"
  using wrap_i32_id[of "uint w"] by (simp add: wrap_i32_def in_i32_def order_trans[OF _ uint_ge_0])

lemma blocker_recipients:
  assumes "list_all (blocker_fits_i32 s) bs"
  shows "concat (map (blocker_recipient s a) bs) = map (blocker_record s a) bs"
    "filter (is_still_in_combat s) bs = bs"
proof -
  have "blocker_recipient s a b = [blocker_record s a b]" "is_still_in_combat s b" if "blocker_fits_i32 s b" for b
    using that
    by (auto simp: blocker_fits_i32_def blocker_recipient_def blocker_record_def trample_need_def
        trample_lethal_def sint_small wrap_i32_id Let_def is_still_in_combat_def live_def link_def
        arena_try_get_def battle_object_def split: if_splits)
  then show "concat (map (blocker_recipient s a) bs) = map (blocker_record s a) bs"
    "filter (is_still_in_combat s) bs = bs"
    using assms by (induction bs) auto
qed

lemma lethal_le_needed:
  assumes "blocker_fits_i32 s b"
  shows "lethal (blocker_record s a b) \<le> lethal_needed s a b"
  using assms
  by (simp add: blocker_record_def trample_need_def trample_lethal_def lethal_needed_def blocker_fits_i32_def
      sint_small wrap_i32_id)

definition events_of :: "ObjectId \<Rightarrow> DamageRecipientV1 list \<Rightarrow> int list \<Rightarrow> ProposedDamage list" where
  "events_of a rs ns = concat (map2 (\<lambda>r n. damage_event a (target r) n) rs ns)"

lemma events_of_blockers:
  "length ns = length bs \<Longrightarrow> events_of a (map (blocker_record s a) bs) ns = block_events a bs ns"
  by (induction ns bs rule: list_induct2) (simp_all add: events_of_def blocker_record_def)

lemma events_of_append:
  "length ns = length rs \<Longrightarrow> events_of a (rs @ rs') (ns @ ns') = events_of a rs ns @ events_of a rs' ns'"
  by (simp add: events_of_def)

definition in_order :: "CreatureDamageV1 \<Rightarrow> int list \<Rightarrow> bool" where
  "in_order c ns \<longleftrightarrow>
     (\<forall>j < length ns. 0 < ns ! j \<longrightarrow> (\<forall>i < j. lethal (recipients c ! i) \<le> ns ! i))"

lemma rest_to_last_legal:
  assumes "recipients c = map (blocker_record s a) bs" "bs \<noteq> []" "\<not> trample c" "0 \<le> creature_power c"
    and need: "\<And>b. b \<in> set bs \<Longrightarrow> lethal (blocker_record s a b) \<le> f b" "\<And>b. 0 \<le> f b"
  defines "ns \<equiv> greedy_last (map f bs) (creature_power c)"
  shows "legal_allocation c ns \<and> in_order c ns \<and> events_of a (recipients c) ns = block_events a bs ns"
proof -
  have pos: "list_all (\<lambda>l. 0 \<le> l) (map f bs)" using need(2) by (simp add: list_all_iff)
  have "legal_allocation c ns"
    using greedy_last_bounds[OF pos assms(4)] assms(1-3) by (auto simp: legal_allocation_def ns_def)
  moreover have "lethal (recipients c ! i) \<le> ns ! i" if "j < length ns" "0 < ns ! j" "i < j" for i j
  proof -
    have "ns ! i = f (bs ! i)" "i < length bs"
      using greedy_order(2)[OF pos \<open>i < j\<close>] that by (auto simp: ns_def)
    then show ?thesis using need(1) by (simp add: assms(1))
  qed
  then have "in_order c ns" by (simp add: in_order_def)
  moreover have "events_of a (recipients c) ns = block_events a bs ns"
    unfolding assms(1) by (rule events_of_blockers) (simp add: ns_def)
  ultimately show ?thesis by blast
qed

lemma excess_last_legal:
  assumes "recipients c = map (blocker_record s a) bs @ [r]" "0 \<le> creature_power c"
    and f: "f = trample_need s (has_effective_keyword s a DEATHTOUCH)"
  defines "ms \<equiv> greedy (map f bs) (creature_power c)"
  defines "ns \<equiv> ms @ [creature_power c - sum_list ms]"
  shows "legal_allocation c ns \<and> in_order c ns \<and>
    events_of a (recipients c) ns = block_events a bs ms @ damage_event a (target r) (creature_power c - sum_list ms)"
proof -
  have pos: "list_all (\<lambda>l. 0 \<le> l) (map f bs)" unfolding f by (rule trample_need_nonneg)
  note b = greedy_bounds[OF pos assms(2), folded ms_def]
  have need: "lethal (recipients c ! i) = map f bs ! i" if "i < length bs" for i
    using that by (simp add: assms(1) nth_append blocker_record_def f)
  have len: "length ms = length bs" by (simp add: ms_def)
  have "legal_allocation c ns"
    using b need len by (auto simp: legal_allocation_def ns_def assms(1) nth_append list_all_iff)
  moreover have "lethal (recipients c ! i) \<le> ns ! i" if "j < length ns" "0 < ns ! j" "i < j" for i j
  proof (cases "j < length bs")
    case True
    then show ?thesis
      using greedy_order(1)[OF pos \<open>i < j\<close>, of "creature_power c"] that need[of i] len
      by (auto simp: ns_def nth_append ms_def)
  next
    case False
    then have "sum_list ms < creature_power c" "i < length bs" using that len by (auto simp: ns_def nth_append)
    then show ?thesis using b(3) need[of i] len by (simp add: ns_def nth_append)
  qed
  then have "in_order c ns" by (simp add: in_order_def)
  moreover have "events_of a (recipients c) ns = block_events a bs ms @ damage_event a (target r) (creature_power c - sum_list ms)"
    using events_of_blockers[OF len, of a s] len by (simp add: assms(1) ns_def events_of_append) (simp add: events_of_def)
  ultimately show ?thesis by blast
qed

text \<open>The assignment of an attacker with trample, and without.\<close>

lemma trample_assignment_legal:
  assumes "recipients c = map (blocker_record s a) bs @ excess_recipient s a" "recipients c \<noteq> []" "list_all (blocker_fits_i32 s) bs"
    and "0 < creature_power c" "has_effective_keyword s a TRAMPLE" "trample c \<longleftrightarrow> damage_recipient s a \<noteq> None"
  shows "\<exists>ns. legal_allocation c ns \<and> in_order c ns \<and>
    assign_attacker_damage_to_blockers s a (creature_power c) bs = events_of a (recipients c) ns"
proof -
  note br = blocker_recipients[OF assms(3)]
  let ?f = "trample_need s (has_effective_keyword s a DEATHTOUCH)"
  show ?thesis
  proof (cases "damage_recipient s a")
    case (Some d)
    obtain t l where d: "d = (t, l)" by (cases d)
    have "recipients c = map (blocker_record s a) bs @ [\<lparr>target = t, incarnation = l, lethal = 0\<rparr>]"
      using assms(1) Some d by (simp add: excess_recipient_def)
    note legal = excess_last_legal[OF this _ refl]
    have "assign_attacker_damage_to_blockers s a (creature_power c) bs =
        block_events a bs (greedy (map ?f bs) (creature_power c)) @
        damage_event a t (creature_power c - sum_list (greedy (map ?f bs) (creature_power c)))"
      using assms(4,5) Some d by (simp add: assign_attacker_damage_to_blockers_def br(2) assign_trample_greedy damage_event_def)
    then show ?thesis using legal assms(4) by auto
  next
    case None
    have bs: "recipients c = map (blocker_record s a) bs" "bs \<noteq> []" "\<not> trample c"
      using assms(1,2,6) None by (auto simp: excess_recipient_def)
    have "assign_attacker_damage_to_blockers s a (creature_power c) bs =
        block_events a bs (greedy_last (map ?f bs) (creature_power c))"
      using None assms(4,5) bs(2) by (simp add: assign_attacker_damage_to_blockers_def br(2) assign_trample_no_excess)
    then show ?thesis
      using rest_to_last_legal[OF bs, of ?f] assms(4) by (auto simp: blocker_record_def trample_need_nonneg)
  qed
qed

lemma plain_assignment_legal:
  assumes bs: "recipients c = map (blocker_record s a) bs" "bs \<noteq> []" "\<not> trample c"
    and "list_all (blocker_fits_i32 s) bs" "0 < creature_power c" "\<not> has_effective_keyword s a TRAMPLE"
  shows "\<exists>ns. legal_allocation c ns \<and> in_order c ns \<and>
    assign_attacker_damage_to_blockers s a (creature_power c) bs = events_of a (recipients c) ns"
proof -
  note br = blocker_recipients[OF assms(4)]
  have needed: "lethal (blocker_record s a b) \<le> lethal_needed s a b" if "b \<in> set bs" for b
    using lethal_le_needed assms(4) that by (auto simp: list_all_iff)
  have "assign_attacker_damage_to_blockers s a (creature_power c) bs =
      block_events a bs (greedy_last (map (lethal_needed s a) bs) (creature_power c))"
  proof (cases "length bs = 1")
    case True
    then obtain b where "bs = [b]" by (auto simp: length_Suc_conv)
    then show ?thesis
      using assms(5,6) by (simp add: assign_attacker_damage_to_blockers_def damage_event_def)
  next
    case False
    then show ?thesis
      using assms(2,5,6) assign_in_order_greedy[of "creature_power c" s a bs]
      by (simp add: assign_attacker_damage_to_blockers_def)
  qed
  moreover have "0 \<le> lethal_needed s a b" for b by (simp add: lethal_needed_def)
  ultimately show ?thesis
    using rest_to_last_legal[OF bs _ needed] assms(5) by auto
qed

text \<open>
  C22. The fixed damage assignment of games without the Foundations rules is one of the divisions
  those rules allow: for a blocked attacker whose blockers are in combat, the damage it proposes
  is that of a legal division of its power among the same recipients, and it follows the blockers'
  declaration order, a recipient getting damage only when each earlier one has lethal damage.
\<close>

theorem fixed_assignment_legal:
  assumes "attacker_damage s ph first a = [c]" "map_of (blocked_by (combat s)) a = Some bs"
    and "list_all (blocker_fits_i32 s) bs"
  shows "\<exists>ns. legal_allocation c ns \<and> in_order c ns \<and>
    assign_attacker_damage_to_blockers s a (creature_power c) bs = events_of a (recipients c) ns"
proof -
  let ?tr = "has_effective_keyword s a TRAMPLE \<and> damage_recipient s a \<noteq> None"
  have c: "creature_power c = assigned_power s a" "trample c = ?tr" "recipients c \<noteq> []"
    "recipients c = map (blocker_record s a) bs @ (if ?tr then excess_recipient s a else [])"
    using assms(1,2) blocker_recipients(1)[OF assms(3)] by (auto simp: attacker_damage_def Let_def split: if_splits)
  have pw: "0 < creature_power c"
    using assms(1) c(1) by (auto simp: attacker_damage_def assigned_power_def split: if_splits)
  show ?thesis
  proof (cases "has_effective_keyword s a TRAMPLE")
    case True
    have "recipients c = map (blocker_record s a) bs @ excess_recipient s a"
      using c(4) True by (cases "damage_recipient s a") (auto simp: excess_recipient_def)
    then show ?thesis using trample_assignment_legal c(2,3) assms(3) pw True by blast
  next
    case False
    then have "recipients c = map (blocker_record s a) bs" "bs \<noteq> []" "\<not> trample c" using c by auto
    then show ?thesis using plain_assignment_legal assms(3) pw False by blast
  qed
qed

theorem fixed_assignment_legal_witness:
  "\<exists>c ns. attacker_damage demo_combat Normal [] (ObjectId 0) = [c] \<and> legal_allocation c ns \<and>
     assign_attacker_damage_to_blockers demo_combat (ObjectId 0) (creature_power c) [ObjectId 1, ObjectId 2]
       = events_of (ObjectId 0) (recipients c) ns"
proof -
  let ?c = "hd (attacker_damage demo_combat Normal [] (ObjectId 0))"
  have c: "attacker_damage demo_combat Normal [] (ObjectId 0) = [?c]" by code_simp
  have "map_of (blocked_by (combat demo_combat)) (ObjectId 0) = Some [ObjectId 1, ObjectId 2]" by code_simp
  moreover have "list_all (blocker_fits_i32 demo_combat) [ObjectId 1, ObjectId 2]" by code_simp
  ultimately show ?thesis
    using fixed_assignment_legal[OF c] c by blast
qed

end
