(* ===== verification/Turn_Order.thy ===== *)
theory Turn_Order
  imports Library
begin

text \<open>
  The order of steps and turns: \<^verbatim>\<open>mtg-kernel/src/extra_turn_v1.rs\<close> (\<^verbatim>\<open>schedule_owned\<close>, \<^verbatim>\<open>next\<close>,
  \<^verbatim>\<open>begin_next_turn\<close> and the replay of the history in \<^verbatim>\<open>validate\<close>) and, from
  \<^verbatim>\<open>mtg-kernel/src/engine.rs\<close>, \<^verbatim>\<open>STEP_ORDER\<close>, \<^verbatim>\<open>advance_step\<close>, \<^verbatim>\<open>reset_priority\<close> and the rule that the
  first turn of the game has no draw.

  A scheduled item keeps its stack identity and controller. \<open>authentic\<close> stands for the checks that
  the item was published and resolved as a printed extra-turn effect; events of other kinds are
  \<open>OtherEvent\<close>. What the entry of a step, the end of combat and the repeated cleanups do to the
  rest of the game is given by \<open>StepHooks\<close>. Optional cargo features are off.
\<close>

section \<open>Data\<close>

record ScheduledTurnV1 =
  item_id :: StackItemId
  item_controller :: PlayerId

text \<open>An array with one entry for each player.\<close>

type_synonym 'a per_player = "'a \<times> 'a"

definition at_player :: "'a per_player \<Rightarrow> PlayerId \<Rightarrow> 'a" where
  "at_player xs p = (if p = P0 then fst xs else snd xs)"

definition set_player :: "PlayerId \<Rightarrow> 'a \<Rightarrow> 'a per_player \<Rightarrow> 'a per_player" where
  "set_player p v xs = (if p = P0 then (v, snd xs) else (fst xs, v))"

lemma at_set_player [simp]:
  "at_player (set_player p v xs) p = v"
  "valid_player p \<Longrightarrow> valid_player q \<Longrightarrow> q \<noteq> p \<Longrightarrow> at_player (set_player p v xs) q = at_player xs q"
  by (auto simp: at_player_def set_player_def valid_player_def)

record ExtraTurnStateV1 =
  occurrence :: u32
  own_turns_started :: "u32 per_player"
  previous_player :: PlayerId
  next_regular_player :: PlayerId
  current_extra :: "StackItemId option"
  original_first_turn :: bool
  queued :: "ScheduledTurnV1 list"

datatype TurnEvent =
    ExtraTurnStartedV1 ExtraTurnStateV1 u32 PlayerId
  | ExtraTurnScheduledV1 ScheduledTurnV1
  | ExtraTurnBeganV1 ExtraTurnStateV1 ExtraTurnStateV1 u32 PlayerId
  | OtherEvent

record 'r TurnState =
  turn_round :: u32
  active_player :: PlayerId
  starting_player :: PlayerId
  current_step :: Step
  extra_turn_v1 :: "ExtraTurnStateV1 option"
  event_history :: "TurnEvent list"
  stack_rows :: "StackItemId list"
  pending_choice :: bool
  mana_pools :: "PlayerId \<Rightarrow> u8 list"
  restricted_pools :: "PlayerId \<Rightarrow> u32 list"
  priority_player :: PlayerId
  priority_passes :: "PlayerId \<Rightarrow> bool"
  priority_round :: u32
  stack_len_at_round_open :: nat
  engine_halted :: bool
  other :: 'r

datatype TurnError =
    OccurrenceExceeds
  | RoundExceeds
  | OwnTurnsExceed
  | NotRemoved
  | NotCleanup
  | InitialMalformed
  | NotResolved
  | Replayed
  | NoInitial
  | TransitionChanged
  | DiffersFromCommitted

record 'r StepHooks =
  time_stopped :: "'r \<Rightarrow> bool"
  leave_time_stop :: "'r \<Rightarrow> 'r option"
  cleanup_effects :: "'r \<Rightarrow> bool"
  cleanup_control :: "'r \<Rightarrow> bool"
  cleanup_restrictions :: "'r \<Rightarrow> bool"
  wave_due :: "'r \<Rightarrow> bool"
  start_wave :: "'r \<Rightarrow> 'r"
  attackers_left :: "'r \<Rightarrow> bool"
  reset_combat :: "'r \<Rightarrow> 'r"
  entry_action :: "Step \<Rightarrow> 'r TurnState \<Rightarrow> 'r"

section \<open>Extra turns\<close>

definition initial_own_turns :: "u32 \<Rightarrow> PlayerId \<Rightarrow> PlayerId \<Rightarrow> u32 per_player" where
  "initial_own_turns r active starting =
     (if active = starting then set_player (opponent active) (saturating_sub r 1) (r, r) else (r, r))"

definition initial_extra :: "u32 \<Rightarrow> PlayerId \<Rightarrow> PlayerId \<Rightarrow> ExtraTurnStateV1" where
  "initial_extra r active starting =
     \<lparr>occurrence = r, own_turns_started = initial_own_turns r active starting,
      previous_player = opponent active, next_regular_player = opponent active, current_extra = None,
      original_first_turn = (r = 1 \<and> active = starting), queued = []\<rparr>"

definition schedule_owned :: "ScheduledTurnV1 \<Rightarrow> 'r TurnState \<Rightarrow> (unit, TurnError) result \<times> 'r TurnState" where
  "schedule_owned item s =
     (if item_id item \<in> set (stack_rows s) then (Inl NotRemoved, s)
      else
        (let removed = s\<lparr>event_history := event_history s @ [OtherEvent]\<rparr>;
             installed =
               (case extra_turn_v1 removed of
                  Some _ \<Rightarrow> removed
                | None \<Rightarrow>
                    (let initial = initial_extra (turn_round s) (active_player s) (starting_player s) in
                     removed\<lparr>event_history := event_history removed
                                 @ [ExtraTurnStartedV1 initial (turn_round s) (active_player s)],
                             extra_turn_v1 := Some initial\<rparr>));
             e = the (extra_turn_v1 installed)
         in (Inr (), installed\<lparr>event_history := event_history installed @ [ExtraTurnScheduledV1 item],
                               extra_turn_v1 := Some (e\<lparr>queued := queued e @ [item]\<rparr>)\<rparr>)))"

definition next_turn ::
  "ExtraTurnStateV1 \<Rightarrow> u32 \<Rightarrow> PlayerId \<Rightarrow> PlayerId \<Rightarrow> (ExtraTurnStateV1 \<times> u32 \<times> PlayerId, TurnError) result" where
  "next_turn prev r starting current =
     and_then (ok_or (checked_add (occurrence prev) 1) OccurrenceExceeds) (\<lambda>occ.
       let a = prev\<lparr>occurrence := occ, original_first_turn := False, previous_player := current\<rparr> in
       and_then
         (if queued a \<noteq> [] then
            (let item = last (queued a) in
             Inr (a\<lparr>queued := butlast (queued a), current_extra := Some (item_id item)\<rparr>, r, item_controller item))
          else
            (let p = next_regular_player a;
                 b = a\<lparr>next_regular_player := opponent p, current_extra := None\<rparr>
             in if p = starting
                then and_then (ok_or (checked_add r 1) RoundExceeds) (\<lambda>r1. Inr (b, r1, p))
                else Inr (b, r, p)))
         (\<lambda>(b, r1, p).
            and_then (ok_or (checked_add (at_player (own_turns_started b) p) 1) OwnTurnsExceed) (\<lambda>c.
              Inr (b\<lparr>own_turns_started := set_player p c (own_turns_started b)\<rparr>, r1, p))))"

text \<open>The replay of the committed history: the scheduler, round and active player it derives, and
  the items scheduled so far.\<close>

type_synonym replay_state = "ExtraTurnStateV1 option \<times> u32 \<times> PlayerId \<times> StackItemId list"

definition replay_event ::
  "(ScheduledTurnV1 \<Rightarrow> bool) \<Rightarrow> PlayerId \<Rightarrow> StackItemId list \<Rightarrow> TurnEvent \<Rightarrow> replay_state
    \<Rightarrow> (replay_state, TurnError) result" where
  "replay_event authentic starting live ev = (\<lambda>(derived, r, p, ids).
     (case ev of
        ExtraTurnStartedV1 initial r1 active \<Rightarrow>
          (if derived \<noteq> None \<or> queued initial \<noteq> [] \<or> current_extra initial \<noteq> None \<or> occurrence initial \<noteq> r1 \<or>
              r1 = 0 \<or> own_turns_started initial \<noteq> initial_own_turns r1 active starting \<or>
              previous_player initial \<noteq> opponent active \<or> next_regular_player initial \<noteq> opponent active \<or>
              original_first_turn initial \<noteq> (r1 = 1 \<and> active = starting)
           then Inl InitialMalformed else Inr (Some initial, r1, active, ids))
      | ExtraTurnScheduledV1 item \<Rightarrow>
          (if \<not> authentic item then Inl NotResolved
           else if stack_raw (item_id item) = 0 \<or> item_id item \<in> set ids \<or> item_id item \<in> set live
           then Inl Replayed
           else case derived of
                  None \<Rightarrow> Inl NoInitial
                | Some e \<Rightarrow> Inr (Some (e\<lparr>queued := queued e @ [item]\<rparr>), r, p, ids @ [item_id item]))
      | ExtraTurnBeganV1 prev after r1 active \<Rightarrow>
          (if derived \<noteq> Some prev then Inl TransitionChanged
           else and_then (next_turn prev r starting p) (\<lambda>res.
             if res \<noteq> (after, r1, active) then Inl TransitionChanged
             else Inr (Some after, r1, active, ids)))
      | OtherEvent \<Rightarrow> Inr (derived, r, p, ids)))"

fun replay ::
  "(ScheduledTurnV1 \<Rightarrow> bool) \<Rightarrow> PlayerId \<Rightarrow> StackItemId list \<Rightarrow> TurnEvent list \<Rightarrow> replay_state
    \<Rightarrow> (replay_state, TurnError) result" where
  "replay authentic starting live [] acc = Inr acc"
| "replay authentic starting live (ev # evs) acc =
     and_then (replay_event authentic starting live ev acc) (replay authentic starting live evs)"

definition validate_turns :: "(ScheduledTurnV1 \<Rightarrow> bool) \<Rightarrow> 'r TurnState \<Rightarrow> (unit, TurnError) result" where
  "validate_turns authentic s =
     and_then (replay authentic (starting_player s) (stack_rows s) (event_history s)
                 (None, turn_round s, active_player s, []))
       (\<lambda>(derived, r, p, ids).
          if derived \<noteq> extra_turn_v1 s \<or> derived \<noteq> None \<and> (r \<noteq> turn_round s \<or> p \<noteq> active_player s)
          then Inl DiffersFromCommitted else Inr ())"

definition begin_next_turn ::
  "(ScheduledTurnV1 \<Rightarrow> bool) \<Rightarrow> 'r TurnState \<Rightarrow> (bool, TurnError) result \<times> 'r TurnState" where
  "begin_next_turn authentic s =
     (case extra_turn_v1 s of
        None \<Rightarrow> (Inr False, s)
      | Some prev \<Rightarrow>
          if current_step s \<noteq> Cleanup \<or> stack_rows s \<noteq> [] \<or> pending_choice s then (Inl NotCleanup, s)
          else
            (case and_then (validate_turns authentic s)
                    (\<lambda>_. next_turn prev (turn_round s) (starting_player s) (active_player s)) of
               Inl e \<Rightarrow> (Inl e, s)
             | Inr (after, r, p) \<Rightarrow>
                 (Inr True, s\<lparr>event_history := event_history s @ [ExtraTurnBeganV1 prev after r p],
                              extra_turn_v1 := Some after, turn_round := r, active_player := p\<rparr>)))"

section \<open>Steps\<close>

definition STEP_ORDER :: "Step list" where
  "STEP_ORDER = [Untap, Upkeep, Draw, Main1, BeginCombat, DeclareAttackers, DeclareBlockers, CombatDamage,
     EndCombat, Main2, End, Cleanup]"

fun step_position :: "Step \<Rightarrow> Step list \<Rightarrow> nat" where
  "step_position st [] = 0"
| "step_position st (x # xs) = (if x = st then 0 else Suc (step_position st xs))"

definition reset_priority :: "'r TurnState \<Rightarrow> 'r TurnState" where
  "reset_priority s =
     s\<lparr>priority_passes := (\<lambda>_. False), priority_player := active_player s, priority_round := priority_round s + 1,
       stack_len_at_round_open := length (stack_rows s)\<rparr>"

definition empty_mana :: "'r TurnState \<Rightarrow> 'r TurnState" where
  "empty_mana s = s\<lparr>mana_pools := (\<lambda>_. replicate 6 0), restricted_pools := (\<lambda>_. [])\<rparr>"

definition run_step_entry_action :: "'r StepHooks \<Rightarrow> Step \<Rightarrow> 'r TurnState \<Rightarrow> 'r TurnState" where
  "run_step_entry_action hk st s = s\<lparr>other := entry_action hk st s\<rparr>"

definition repeat_cleanup :: "'r StepHooks \<Rightarrow> 'r TurnState \<Rightarrow> 'r TurnState" where
  "repeat_cleanup hk s = reset_priority (run_step_entry_action hk Cleanup (empty_mana s))"

text \<open>The turn passes: to the scheduler's next turn, or by the plain alternation.\<close>

definition pass_turn :: "(ScheduledTurnV1 \<Rightarrow> bool) \<Rightarrow> 'r TurnState \<Rightarrow> 'r TurnState option" where
  "pass_turn authentic s =
     (case begin_next_turn authentic s of
        (Inl e, _) \<Rightarrow> None
      | (Inr True, t) \<Rightarrow> Some t
      | (Inr False, t) \<Rightarrow>
          (let p = opponent (active_player t) in
           Some (t\<lparr>active_player := p,
                   turn_round := (if p = starting_player t then turn_round t + 1 else turn_round t)\<rparr>)))"

definition enter_next_step :: "'r StepHooks \<Rightarrow> Step \<Rightarrow> 'r TurnState \<Rightarrow> 'r TurnState" where
  "enter_next_step hk next s =
     (let st = (if next = DeclareBlockers \<and> \<not> attackers_left hk (other s) then EndCombat else next);
          s1 = (if current_step s = EndCombat then s\<lparr>other := reset_combat hk (other s)\<rparr> else s)
      in reset_priority (run_step_entry_action hk st (empty_mana (s1\<lparr>current_step := st\<rparr>))))"

definition advance_step :: "(ScheduledTurnV1 \<Rightarrow> bool) \<Rightarrow> 'r StepHooks \<Rightarrow> 'r TurnState \<Rightarrow> 'r TurnState" where
  "advance_step authentic hk s =
     (if time_stopped hk (other s) then
        (case leave_time_stop hk (other s) of None \<Rightarrow> s\<lparr>engine_halted := True\<rparr> | Some r \<Rightarrow> s\<lparr>other := r\<rparr>)
      else if current_step s = Cleanup \<and> cleanup_effects hk (other s) then repeat_cleanup hk s
      else if current_step s = Cleanup \<and> cleanup_control hk (other s) then repeat_cleanup hk s
      else if current_step s = CombatDamage \<and> wave_due hk (other s) then
        (let s1 = empty_mana s in reset_priority (s1\<lparr>other := start_wave hk (other s1)\<rparr>))
      else if current_step s = Cleanup \<and> cleanup_restrictions hk (other s) then repeat_cleanup hk s
      else
        (let next_idx = step_position (current_step s) STEP_ORDER + 1 in
         if length STEP_ORDER \<le> next_idx then
           (case pass_turn authentic s of
              None \<Rightarrow> s\<lparr>engine_halted := True\<rparr>
            | Some t \<Rightarrow> enter_next_step hk (STEP_ORDER ! 0) t)
         else enter_next_step hk (STEP_ORDER ! next_idx) s))"

text \<open>The turn without a draw.\<close>

definition is_first_turn_of_the_game :: "'r TurnState \<Rightarrow> bool" where
  "is_first_turn_of_the_game s \<longleftrightarrow>
     turn_round s = 1 \<and> active_player s = starting_player s \<and>
     (case extra_turn_v1 s of None \<Rightarrow> True | Some e \<Rightarrow> original_first_turn e)"

section \<open>Games as runs\<close>

definition scheduled_ids :: "TurnEvent list \<Rightarrow> StackItemId list" where
  "scheduled_ids evs = concat (map (\<lambda>ev. case ev of ExtraTurnScheduledV1 item \<Rightarrow> [item_id item] | _ \<Rightarrow> []) evs)"

text \<open>A turn that was taken: its player, its round and whether it is an extra turn.\<close>

type_synonym taken_turn = "PlayerId \<times> u32 \<times> bool"

definition current_turn :: "'r TurnState \<Rightarrow> taken_turn" where
  "current_turn s =
     (active_player s, turn_round s,
      case extra_turn_v1 s of None \<Rightarrow> False | Some e \<Rightarrow> current_extra e \<noteq> None)"

definition fresh_game :: "'r TurnState \<Rightarrow> bool" where
  "fresh_game s \<longleftrightarrow>
     turn_round s = 1 \<and> valid_player (starting_player s) \<and> active_player s = starting_player s \<and>
     current_step s = Untap \<and> extra_turn_v1 s = None \<and> event_history s = []"

text \<open>The states a game reaches with the turns taken so far: the engine advances, resolves an
  extra-turn item that was authenticated and not scheduled before, or does something else that
  leaves the turn order alone and never brings a scheduled item back to the stack.\<close>

inductive turn_game ::
  "(ScheduledTurnV1 \<Rightarrow> bool) \<Rightarrow> 'r StepHooks \<Rightarrow> 'r TurnState \<Rightarrow> taken_turn list \<Rightarrow> bool"
  for authentic hk where
  start: "fresh_game s \<Longrightarrow> turn_game authentic hk s [current_turn s]"
| advance: "turn_game authentic hk s tr \<Longrightarrow> t = advance_step authentic hk s \<Longrightarrow>
    turn_game authentic hk t
      (if current_step s = Cleanup \<and> current_step t = Untap then tr @ [current_turn t] else tr)"
| schedule: "turn_game authentic hk s tr \<Longrightarrow> authentic item \<Longrightarrow> stack_raw (item_id item) \<noteq> 0 \<Longrightarrow>
    item_id item \<notin> set (scheduled_ids (event_history s)) \<Longrightarrow> valid_player (item_controller item) \<Longrightarrow>
    schedule_owned item s = (Inr (), t) \<Longrightarrow> turn_game authentic hk t tr"
| elsewhere: "turn_game authentic hk s tr \<Longrightarrow>
    set rows \<inter> set (scheduled_ids (event_history s)) = {} \<Longrightarrow>
    t = s\<lparr>event_history := event_history s @ replicate n OtherEvent, stack_rows := rows, pending_choice := b,
          mana_pools := m, restricted_pools := rm, priority_player := pp, priority_passes := ps, other := r\<rparr> \<Longrightarrow>
    turn_game authentic hk t tr"

definition same_turns :: "'r TurnState \<Rightarrow> 'r TurnState \<Rightarrow> bool" where
  "same_turns s t \<longleftrightarrow>
     turn_round t = turn_round s \<and> active_player t = active_player s \<and> starting_player t = starting_player s \<and>
     extra_turn_v1 t = extra_turn_v1 s \<and> event_history t = event_history s \<and> stack_rows t = stack_rows s \<and>
     pending_choice t = pending_choice s"

lemma same_turns_simps [simp]:
  "same_turns s (reset_priority t) = same_turns s t" "same_turns s (empty_mana t) = same_turns s t"
  "same_turns s (run_step_entry_action hk st t) = same_turns s t" "same_turns s (t\<lparr>other := r\<rparr>) = same_turns s t"
  "same_turns s (t\<lparr>current_step := st\<rparr>) = same_turns s t" "same_turns s (t\<lparr>engine_halted := b\<rparr>) = same_turns s t"
  "same_turns s s" "same_turns s (repeat_cleanup hk t) = same_turns s t" "same_turns s (enter_next_step hk st t) = same_turns s t"
  by (simp_all add: same_turns_def reset_priority_def empty_mana_def run_step_entry_action_def repeat_cleanup_def
      enter_next_step_def Let_def)

lemma current_step_simps [simp]:
  "current_step (reset_priority t) = current_step t" "current_step (empty_mana t) = current_step t"
  "current_step (run_step_entry_action hk st t) = current_step t"
  "current_step (repeat_cleanup hk t) = current_step t"
  by (simp_all add: reset_priority_def empty_mana_def run_step_entry_action_def repeat_cleanup_def)

lemma enter_step: "current_step (enter_next_step hk st s) = (if st = DeclareBlockers \<and> \<not> attackers_left hk (other s) then EndCombat else st)"
  by (simp add: enter_next_step_def Let_def)

lemma advance_cases:
  obtains (stay) "same_turns s (advance_step authentic hk s)"
      "\<not> (current_step s = Cleanup \<and> current_step (advance_step authentic hk s) = Untap)"
    | (passed) u where "pass_turn authentic s = Some u" "same_turns u (advance_step authentic hk s)"
      "current_step s = Cleanup" "current_step (advance_step authentic hk s) = Untap"
proof -
  have "(same_turns s (advance_step authentic hk s) \<and>
      \<not> (current_step s = Cleanup \<and> current_step (advance_step authentic hk s) = Untap)) \<or>
    (\<exists>u. pass_turn authentic s = Some u \<and> same_turns u (advance_step authentic hk s) \<and>
      current_step s = Cleanup \<and> current_step (advance_step authentic hk s) = Untap)"
    by (cases "current_step s") (auto simp: advance_step_def STEP_ORDER_def Let_def enter_step split: option.splits)
  then show thesis using stay passed by blast
qed

section \<open>The invariant\<close>

text \<open>Turn number \<open>i\<close> (from 0) of a game in which nobody takes extra turns.\<close>

definition regular_turn :: "PlayerId \<Rightarrow> nat \<Rightarrow> PlayerId \<times> nat" where
  "regular_turn starting i = (if even i then starting else opponent starting, i div 2 + 1)"

definition regular_turns :: "taken_turn list \<Rightarrow> (PlayerId \<times> nat) list" where
  "regular_turns tr = map (\<lambda>(p, r, _). (p, unat r)) (filter (\<lambda>(_, _, x). \<not> x) tr)"

definition turns_of :: "PlayerId \<Rightarrow> taken_turn list \<Rightarrow> nat" where
  "turns_of p tr = length (filter (\<lambda>(q, _, _). q = p) tr)"

definition replays :: "(ScheduledTurnV1 \<Rightarrow> bool) \<Rightarrow> 'r TurnState \<Rightarrow> bool" where
  "replays authentic s \<longleftrightarrow>
     (\<forall>live r p. set live \<inter> set (scheduled_ids (event_history s)) = {} \<longrightarrow>
        replay authentic (starting_player s) live (event_history s) (None, r, p, []) =
          Inr (case extra_turn_v1 s of
                 None \<Rightarrow> (None, r, p, [])
               | Some e \<Rightarrow> (Some e, turn_round s, active_player s, scheduled_ids (event_history s))))"

definition turn_inv :: "(ScheduledTurnV1 \<Rightarrow> bool) \<Rightarrow> 'r TurnState \<Rightarrow> taken_turn list \<Rightarrow> bool" where
  "turn_inv authentic s tr \<longleftrightarrow>
     (let n = length (regular_turns tr); st = starting_player s in
      valid_player st \<and> valid_player (active_player s) \<and> tr \<noteq> [] \<and> last tr = current_turn s \<and>
      regular_turns tr = map (regular_turn st) [0..<n] \<and> 0 < n \<and>
      unat (turn_round s) = snd (regular_turn st (n - 1)) \<and>
      (\<forall>i. Suc i < length tr \<longrightarrow> snd (snd (tr ! Suc i)) \<longrightarrow> fst (snd (tr ! Suc i)) = fst (snd (tr ! i))) \<and>
      set (stack_rows s) \<inter> set (scheduled_ids (event_history s)) = {} \<and>
      replays authentic s \<and>
      (case extra_turn_v1 s of
         None \<Rightarrow> (\<forall>x \<in> set tr. \<not> snd (snd x)) \<and> scheduled_ids (event_history s) = []
       | Some e \<Rightarrow>
           next_regular_player e = fst (regular_turn st n) \<and>
           (\<forall>p. valid_player p \<longrightarrow> unat (at_player (own_turns_started e) p) = turns_of p tr) \<and>
           (original_first_turn e \<longleftrightarrow> length tr = 1) \<and> unat (occurrence e) \<le> length tr \<and>
           (\<forall>item \<in> set (queued e). valid_player (item_controller item))))"

lemma replay_append:
  "replay a st live (xs @ ys) acc = and_then (replay a st live xs acc) (replay a st live ys)"
proof (induction xs arbitrary: acc)
  case (Cons x xs)
  then show ?case by (cases "replay_event a st live x acc") simp_all
qed simp

lemma replay_others: "replay a st live (replicate n OtherEvent) acc = Inr acc"
  by (induction n) (simp_all add: replay_event_def split: prod.split)

lemma scheduled_ids_simps [simp]:
  "scheduled_ids [] = []" "scheduled_ids (xs @ ys) = scheduled_ids xs @ scheduled_ids ys"
  "scheduled_ids (replicate n OtherEvent) = []" "scheduled_ids (OtherEvent # evs) = scheduled_ids evs"
  "scheduled_ids (ExtraTurnStartedV1 e r p # evs) = scheduled_ids evs"
  "scheduled_ids (ExtraTurnScheduledV1 item # evs) = item_id item # scheduled_ids evs"
  "scheduled_ids (ExtraTurnBeganV1 e f r p # evs) = scheduled_ids evs"
  by (simp_all add: scheduled_ids_def)

lemma replaysD:
  assumes "replays a s" "set live \<inter> set (scheduled_ids (event_history s)) = {}"
  shows "extra_turn_v1 s = Some e \<Longrightarrow> replay a (starting_player s) live (event_history s) (None, r, p, []) =
      Inr (Some e, turn_round s, active_player s, scheduled_ids (event_history s))"
    and "extra_turn_v1 s = None \<Longrightarrow> replay a (starting_player s) live (event_history s) (None, r, p, []) = Inr (None, r, p, [])"
  using assms by (auto simp: replays_def)

lemma current_turn_fields:
  "turn_round t = turn_round s \<Longrightarrow> active_player t = active_player s \<Longrightarrow> extra_turn_v1 t = extra_turn_v1 s \<Longrightarrow>
     current_turn t = current_turn s"
  by (simp add: current_turn_def)

lemma same_turns_inv:
  assumes "same_turns s t" "turn_inv a s tr"
  shows "turn_inv a t tr"
proof -
  have "replays a t = replays a s" "current_turn t = current_turn s"
    using assms(1) by (cases "extra_turn_v1 s"; simp add: same_turns_def replays_def current_turn_def)+
  then show ?thesis using assms by (cases "extra_turn_v1 s") (simp_all add: turn_inv_def same_turns_def)
qed

lemma elsewhere_inv:
  assumes inv: "turn_inv a s tr" and rows: "set rows \<inter> set (scheduled_ids (event_history s)) = {}"
    and t: "t = s\<lparr>event_history := event_history s @ replicate n OtherEvent, stack_rows := rows, pending_choice := b,
          mana_pools := m, restricted_pools := rm, priority_player := pp, priority_passes := ps, other := r\<rparr>"
  shows "turn_inv a t tr"
proof -
  have r: "replays a s" using inv by (simp add: turn_inv_def Let_def)
  have "replays a t"
    unfolding replays_def
  proof (intro allI impI)
    fix live :: "StackItemId list" and k q
    assume "set live \<inter> set (scheduled_ids (event_history t)) = {}"
    then have "set live \<inter> set (scheduled_ids (event_history s)) = {}" by (simp add: t)
    note R = replaysD[OF r this]
    show "replay a (starting_player t) live (event_history t) (None, k, q, []) =
        Inr (case extra_turn_v1 t of None \<Rightarrow> (None, k, q, [])
             | Some e \<Rightarrow> (Some e, turn_round t, active_player t, scheduled_ids (event_history t)))"
      using R(1)[of _ k q] R(2)[of k q] by (cases "extra_turn_v1 s") (simp_all add: t replay_append replay_others)
  qed
  moreover have "current_turn t = current_turn s" by (simp add: t current_turn_def)
  ultimately show ?thesis using inv rows by (cases "extra_turn_v1 s") (simp_all add: turn_inv_def t Let_def)
qed

lemma start_inv:
  assumes "fresh_game s"
  shows "turn_inv a s [current_turn s]"
  using assms
  by (simp add: fresh_game_def turn_inv_def regular_turns_def current_turn_def regular_turn_def replays_def)

text \<open>Counting the turns of a game without extra turns.\<close>

lemma regular_counts:
  assumes "valid_player st"
  shows "length (filter (\<lambda>i. fst (regular_turn st i) = st) [0..<n]) = (n + 1) div 2"
    "length (filter (\<lambda>i. fst (regular_turn st i) = opponent st) [0..<n]) = n div 2"
proof -
  have "st \<noteq> opponent st" using assms by (auto simp: valid_player_def opponent_def P0_def P1_def)
  then show "length (filter (\<lambda>i. fst (regular_turn st i) = st) [0..<n]) = (n + 1) div 2"
    "length (filter (\<lambda>i. fst (regular_turn st i) = opponent st) [0..<n]) = n div 2"
    by (induction n) (auto simp: regular_turn_def)
qed

lemma turns_of_append: "turns_of p (tr @ [x]) = turns_of p tr + (if fst x = p then 1 else 0)"
  by (auto simp: turns_of_def split: prod.splits)

lemma regular_turns_append:
  "regular_turns (tr @ [(p, r, x)]) = regular_turns tr @ (if x then [] else [(p, unat r)])"
  by (simp add: regular_turns_def)

lemma regular_turns_all: "\<forall>x \<in> set tr. \<not> snd (snd x) \<Longrightarrow> regular_turns tr = map (\<lambda>(p, r, _). (p, unat r)) tr"
  by (simp add: regular_turns_def filter_id_conv split_def)

lemma opponent_twice: "valid_player p \<Longrightarrow> opponent (opponent p) = p"
  by (auto simp: valid_player_def opponent_def P0_def P1_def)

lemma opponent_valid_player: "valid_player p \<Longrightarrow> valid_player (opponent p) \<and> opponent p \<noteq> p"
  by (auto simp: valid_player_def opponent_def P0_def P1_def)

lemma valid_two: "valid_player st \<Longrightarrow> valid_player p \<longleftrightarrow> p = st \<or> p = opponent st"
  by (auto simp: valid_player_def opponent_def P0_def P1_def)

lemma turn_invD:
  assumes "turn_inv a s tr"
  shows "valid_player (starting_player s)" "valid_player (active_player s)" "tr \<noteq> []" "last tr = current_turn s"
    "regular_turns tr = map (regular_turn (starting_player s)) [0..<length (regular_turns tr)]"
    "0 < length (regular_turns tr)"
    "unat (turn_round s) = snd (regular_turn (starting_player s) (length (regular_turns tr) - 1))"
    "Suc i < length tr \<Longrightarrow> snd (snd (tr ! Suc i)) \<Longrightarrow> fst (snd (tr ! Suc i)) = fst (snd (tr ! i))"
    "set (stack_rows s) \<inter> set (scheduled_ids (event_history s)) = {}" "replays a s"
    "extra_turn_v1 s = None \<Longrightarrow> (\<forall>x \<in> set tr. \<not> snd (snd x)) \<and> scheduled_ids (event_history s) = []"
    "extra_turn_v1 s = Some e \<Longrightarrow> next_regular_player e = fst (regular_turn (starting_player s) (length (regular_turns tr))) \<and>
           (\<forall>p. valid_player p \<longrightarrow> unat (at_player (own_turns_started e) p) = turns_of p tr) \<and>
           (original_first_turn e \<longleftrightarrow> length tr = 1) \<and> unat (occurrence e) \<le> length tr \<and>
           (\<forall>item \<in> set (queued e). valid_player (item_controller item))"
  using assms by (auto simp: turn_inv_def Let_def)

text \<open>Without extra turns the turns taken are the regular ones, so the counts are known.\<close>

lemma plain_game:
  assumes inv: "turn_inv a s tr" and none: "extra_turn_v1 s = None"
  shows "length (regular_turns tr) = length tr"
    "active_player s = fst (regular_turn (starting_player s) (length tr - 1))"
    "unat (turn_round s) = (length tr - 1) div 2 + 1"
    "valid_player p \<Longrightarrow> turns_of p tr = (if p = starting_player s then (length tr + 1) div 2 else length tr div 2)"
proof -
  note D = turn_invD[OF inv]
  have all: "\<forall>x \<in> set tr. \<not> snd (snd x)" using D(11) none by blast
  have eq: "regular_turns tr = map (\<lambda>(p, r, _). (p, unat r)) tr" by (rule regular_turns_all[OF all])
  then show len: "length (regular_turns tr) = length tr" by simp
  have reg: "map (\<lambda>(p, r, _). (p, unat r)) tr = map (regular_turn (starting_player s)) [0..<length tr]"
    using D(5) unfolding len eq by simp
  have "last (map (\<lambda>(p, r, _). (p, unat r)) tr) = regular_turn (starting_player s) (length tr - 1)"
    using reg D(3) by (simp add: last_conv_nth)
  moreover have "last (map (\<lambda>(p, r, _). (p, unat r)) tr) = (active_player s, unat (turn_round s))"
    using D(3,4) by (simp add: last_map current_turn_def)
  ultimately show "active_player s = fst (regular_turn (starting_player s) (length tr - 1))"
    "unat (turn_round s) = (length tr - 1) div 2 + 1"
    by (simp_all add: regular_turn_def)
  assume p: "valid_player p"
  have "turns_of p tr = length (filter (\<lambda>q. q = p) (map fst tr))"
    unfolding turns_of_def by (simp add: filter_map comp_def split_def)
  also have "map fst tr = map fst (map (\<lambda>(p, r, _). (p, unat r)) tr)" by (simp add: split_def)
  also have "\<dots> = map (\<lambda>i. fst (regular_turn (starting_player s) i)) [0..<length tr]" by (simp only: reg map_map comp_def)
  also have "length (filter (\<lambda>q. q = p) \<dots>) = length (filter (\<lambda>i. fst (regular_turn (starting_player s) i) = p) [0..<length tr])"
    by (simp add: filter_map comp_def)
  finally show "turns_of p tr = (if p = starting_player s then (length tr + 1) div 2 else length tr div 2)"
    using regular_counts[OF D(1), of "length tr"] p valid_two[OF D(1)] by auto
qed

definition queue_turn :: "ScheduledTurnV1 \<Rightarrow> ExtraTurnStateV1 \<Rightarrow> ExtraTurnStateV1" where
  "queue_turn item e = e\<lparr>queued := queued e @ [item]\<rparr>"

lemma install_extra:
  assumes inv: "turn_inv a s tr" and none: "extra_turn_v1 s = None" and len: "length tr < 2 ^ 32"
  shows "turn_inv a (s\<lparr>event_history := event_history s @ [OtherEvent,
      ExtraTurnStartedV1 (initial_extra (turn_round s) (active_player s) (starting_player s)) (turn_round s) (active_player s)],
    extra_turn_v1 := Some (initial_extra (turn_round s) (active_player s) (starting_player s))\<rparr>) tr"
    (is "turn_inv a ?t tr")
proof -
  note D = turn_invD[OF inv] and P = plain_game[OF inv none]
  let ?st = "starting_player s" and ?e = "initial_extra (turn_round s) (active_player s) (starting_player s)"
  have tr: "0 < length tr" using D(3) by simp
  have rnz: "turn_round s \<noteq> 0" using P(3) by auto
  have ids: "scheduled_ids (event_history s) = []" using D(11) none by blast
  have "replays a ?t"
    unfolding replays_def
  proof (intro allI impI)
    fix live :: "StackItemId list" and k q
    assume "set live \<inter> set (scheduled_ids (event_history ?t)) = {}"
    show "replay a (starting_player ?t) live (event_history ?t) (None, k, q, []) =
        Inr (case extra_turn_v1 ?t of None \<Rightarrow> (None, k, q, [])
             | Some e \<Rightarrow> (Some e, turn_round ?t, active_player ?t, scheduled_ids (event_history ?t)))"
      using replaysD(2)[OF D(10) _ none, of live k q] rnz ids
      by (simp add: replay_append replay_event_def initial_extra_def)
  qed
  moreover have "next_regular_player ?e = fst (regular_turn ?st (length tr))"
    using P(2) tr opponent_twice[OF D(1)] by (auto simp: initial_extra_def regular_turn_def)
  moreover have "unat (at_player (own_turns_started ?e) p) = turns_of p tr" if p: "valid_player p" for p
  proof -
    obtain j where j: "length tr = Suc j" using tr by (cases "length tr") auto
    have pair: "at_player (x, x) q = x" for x :: u32 and q by (simp add: at_player_def)
    have "p = ?st \<or> p = opponent ?st" using p valid_two[OF D(1)] by blast
    then show ?thesis
      using P(2,3) P(4)[OF p] j D(1) opponent_valid_player[OF D(1)] opponent_twice[OF D(1)]
      by (cases "even j")
        (auto simp: initial_extra_def initial_own_turns_def regular_turn_def unat_saturating_sub pair elim!: oddE evenE)
  qed
  moreover have "original_first_turn ?e \<longleftrightarrow> length tr = 1"
  proof -
    have "turn_round s = 1 \<longleftrightarrow> unat (turn_round s) = 1" by (simp add: word_unat_eq_iff)
    then show ?thesis
      using P(2,3) tr opponent_valid_player[OF D(1)] by (cases "length tr") (auto simp: initial_extra_def regular_turn_def odd_pos)
  qed
  moreover have "unat (occurrence ?e) \<le> length tr" using P(3) tr by (cases "length tr") (simp_all add: initial_extra_def)
  moreover have "current_turn ?t = current_turn s" "queued ?e = []" using none by (simp_all add: current_turn_def initial_extra_def)
  ultimately show ?thesis
    using D(1-9) P(1) by (simp add: turn_inv_def Let_def ids)
qed

lemma queue_extra:
  assumes inv: "turn_inv a s tr" and e: "extra_turn_v1 s = Some e" and item: "a item" "stack_raw (item_id item) \<noteq> 0"
    "item_id item \<notin> set (scheduled_ids (event_history s))" "item_id item \<notin> set (stack_rows s)"
    "valid_player (item_controller item)"
  shows "turn_inv a (s\<lparr>event_history := event_history s @ [ExtraTurnScheduledV1 item],
    extra_turn_v1 := Some (e\<lparr>queued := queued e @ [item]\<rparr>)\<rparr>) tr" (is "turn_inv a ?t tr")
proof -
  note D = turn_invD[OF inv]
  have "replays a ?t"
    unfolding replays_def
  proof (intro allI impI)
    fix live :: "StackItemId list" and k q
    assume "set live \<inter> set (scheduled_ids (event_history ?t)) = {}"
    then have live: "set live \<inter> set (scheduled_ids (event_history s)) = {}" "item_id item \<notin> set live" by auto
    show "replay a (starting_player ?t) live (event_history ?t) (None, k, q, []) =
        Inr (case extra_turn_v1 ?t of None \<Rightarrow> (None, k, q, [])
             | Some e \<Rightarrow> (Some e, turn_round ?t, active_player ?t, scheduled_ids (event_history ?t)))"
      using replaysD(1)[OF D(10) live(1) e, of k q] item live(2)
      by (simp add: replay_append replay_event_def)
  qed
  moreover have "current_turn ?t = current_turn s" using e by (simp add: current_turn_def)
  ultimately show ?thesis
    using D(1-9) D(12)[OF e] item by (simp add: turn_inv_def Let_def)
qed

lemma schedule_inv:
  assumes inv: "turn_inv a s tr" and len: "length tr < 2 ^ 32"
    and item: "a item" "stack_raw (item_id item) \<noteq> 0" "item_id item \<notin> set (scheduled_ids (event_history s))"
      "valid_player (item_controller item)"
    and t: "schedule_owned item s = (Inr (), t)"
  shows "turn_inv a t tr"
proof -
  have live: "item_id item \<notin> set (stack_rows s)" using t by (auto simp: schedule_owned_def split: if_splits)
  show ?thesis
  proof (cases "extra_turn_v1 s")
    case None
    let ?s1 = "s\<lparr>event_history := event_history s @ [OtherEvent,
      ExtraTurnStartedV1 (initial_extra (turn_round s) (active_player s) (starting_player s)) (turn_round s) (active_player s)],
      extra_turn_v1 := Some (initial_extra (turn_round s) (active_player s) (starting_player s))\<rparr>"
    have "turn_inv a ?s1 tr" using install_extra[OF inv None len] by simp
    from queue_extra[OF this _ item(1,2) _ _ item(4), of "initial_extra (turn_round s) (active_player s) (starting_player s)"]
    show ?thesis using t live item(3) None by (simp add: schedule_owned_def Let_def)
  next
    case (Some e)
    let ?s1 = "s\<lparr>event_history := event_history s @ replicate 1 OtherEvent, stack_rows := stack_rows s,
       pending_choice := pending_choice s, mana_pools := mana_pools s, restricted_pools := restricted_pools s,
       priority_player := priority_player s, priority_passes := priority_passes s, other := other s\<rparr>"
    have "turn_inv a ?s1 tr" by (rule elsewhere_inv[OF inv turn_invD(9)[OF inv] refl])
    from queue_extra[OF this _ item(1,2) _ _ item(4), of e]
    show ?thesis using t live item(3) Some by (simp add: schedule_owned_def Let_def)
  qed
qed

section \<open>Passing the turn\<close>

text \<open>One more turn was taken: the regular one that was due, or an extra one in the same round.\<close>

lemma turns_snoc:
  assumes inv: "turn_inv a s tr" and n: "n = length (regular_turns tr)"
    and x: "if x then r = turn_round s else (p, unat r) = regular_turn (starting_player s) n"
  shows "regular_turns (tr @ [(p, r, x)]) = map (regular_turn (starting_player s)) [0..<if x then n else Suc n]"
    "unat r = snd (regular_turn (starting_player s) ((if x then n else Suc n) - 1))"
    "Suc i < length (tr @ [(p, r, x)]) \<Longrightarrow> snd (snd ((tr @ [(p, r, x)]) ! Suc i)) \<Longrightarrow>
      fst (snd ((tr @ [(p, r, x)]) ! Suc i)) = fst (snd ((tr @ [(p, r, x)]) ! i))"
proof -
  note D = turn_invD[OF inv, folded n]
  show "regular_turns (tr @ [(p, r, x)]) = map (regular_turn (starting_player s)) [0..<if x then n else Suc n]"
    using D(5) x by (simp add: regular_turns_append)
  show "unat r = snd (regular_turn (starting_player s) ((if x then n else Suc n) - 1))"
    using D(7) x by (auto split: if_splits simp: prod_eq_iff)
  assume i: "Suc i < length (tr @ [(p, r, x)])" "snd (snd ((tr @ [(p, r, x)]) ! Suc i))"
  show "fst (snd ((tr @ [(p, r, x)]) ! Suc i)) = fst (snd ((tr @ [(p, r, x)]) ! i))"
  proof (cases "Suc i < length tr")
    case True
    then show ?thesis using D(8)[of i] i(2) by (simp add: nth_append)
  next
    case False
    then have li: "Suc i = length tr" using i(1) by simp
    then have "tr ! i = current_turn s" using D(3,4) by (metis diff_Suc_1 last_conv_nth)
    then show ?thesis using li i(2) x by (simp add: nth_append current_turn_def)
  qed
qed

lemma pass_plain:
  assumes inv: "turn_inv a s tr" and none: "extra_turn_v1 s = None" and len: "Suc (length tr) < 2 ^ 32"
    and p: "p = opponent (active_player s)"
    and u: "u = s\<lparr>active_player := p, turn_round := (if p = starting_player s then turn_round s + 1 else turn_round s)\<rparr>"
  shows "turn_inv a u (tr @ [current_turn u])"
proof -
  note D = turn_invD[OF inv] and P = plain_game[OF inv none]
  let ?st = "starting_player s" and ?n = "length tr"
  have tr: "0 < ?n" using D(3) by simp
  have c: "current_turn u = (p, turn_round u, False)" using none by (simp add: u current_turn_def)
  obtain j where j: "?n = Suc j" using tr by (cases ?n) auto
  have rnd: "unat (turn_round s + 1) = unat (turn_round s) + 1"
    using unat_add_no_overflow[of "turn_round s" 1] P(3) len tr by simp
  have "(p, unat (turn_round u)) = regular_turn ?st ?n"
    using P(2,3) j rnd opponent_twice[OF D(1)] opponent_valid_player[OF D(1)]
    by (auto simp: u p regular_turn_def elim!: oddE evenE)
  then have x: "if False then turn_round u = turn_round s else (p, unat (turn_round u)) = regular_turn ?st (length (regular_turns tr))"
    using P(1) by simp
  note T = turns_snoc[OF inv refl x]
  have "replays a u"
    using D(10) none by (simp add: replays_def u)
  moreover have "valid_player (active_player u)" using opponent_valid_player[OF D(2)] by (simp add: u p)
  ultimately show ?thesis
    using D(1,9,11) none T P(1) c unfolding turn_inv_def Let_def by (simp add: u)
qed

lemma next_turn_cases:
  assumes "next_turn prev r st cur = Inr (b, r1, p)"
  shows "unat (occurrence b) = unat (occurrence prev) + 1" "\<not> original_first_turn b" "previous_player b = cur"
    "unat (at_player (own_turns_started b) p) = unat (at_player (own_turns_started prev) p) + 1"
    "q \<noteq> p \<Longrightarrow> valid_player p \<Longrightarrow> valid_player q \<Longrightarrow>
       at_player (own_turns_started b) q = at_player (own_turns_started prev) q"
    "queued prev \<noteq> [] \<Longrightarrow> queued b = butlast (queued prev) \<and> current_extra b = Some (item_id (last (queued prev))) \<and>
       p = item_controller (last (queued prev)) \<and> r1 = r \<and> next_regular_player b = next_regular_player prev"
    "queued prev = [] \<Longrightarrow> queued b = [] \<and> current_extra b = None \<and> p = next_regular_player prev \<and>
       next_regular_player b = opponent p \<and> unat r1 = (if p = st then unat r + 1 else unat r)"
  using assms
  by (auto simp: next_turn_def Let_def and_then_eq_Inr split: if_splits dest!: checked_add_Some)

lemma next_turn_total:
  assumes "unat (occurrence prev) + 1 < 2 ^ 32" "unat r + 1 < 2 ^ 32"
    "\<And>q. q = next_regular_player prev \<or> q \<in> item_controller ` set (queued prev) \<Longrightarrow> unat (at_player (own_turns_started prev) q) + 1 < 2 ^ 32"
  shows "\<exists>res. next_turn prev r st cur = Inr res"
  using assms by (auto simp: next_turn_def Let_def checked_add_def and_then_eq_Inr)

lemma validate_ok:
  assumes "turn_inv a s tr"
  shows "validate_turns a s = Inr ()"
  using replaysD[OF turn_invD(10)[OF assms] turn_invD(9)[OF assms]]
  by (cases "extra_turn_v1 s") (simp_all add: validate_turns_def)

lemma turns_of_le: "turns_of p tr \<le> length tr"
  by (simp add: turns_of_def)

lemma pass_extra:
  assumes inv: "turn_inv a s tr" and e: "extra_turn_v1 s = Some prev" and len: "Suc (length tr) < 2 ^ 32"
    and nx: "next_turn prev (turn_round s) (starting_player s) (active_player s) = Inr (b, r, p)"
    and u: "u = s\<lparr>event_history := event_history s @ [ExtraTurnBeganV1 prev b r p],
      extra_turn_v1 := Some b, turn_round := r, active_player := p\<rparr>"
  shows "turn_inv a u (tr @ [current_turn u])"
proof -
  note D = turn_invD[OF inv] and N = next_turn_cases[OF nx]
  note E = D(12)[OF e]
  let ?st = "starting_player s" and ?n = "length (regular_turns tr)" and ?x = "queued prev \<noteq> []"
  have c: "current_turn u = (p, r, ?x)" using N(6,7) by (auto simp: u current_turn_def)
  have vp: "valid_player p"
    using N(6,7) E D(1) opponent_valid_player[OF D(1)] by (cases ?x) (auto simp: regular_turn_def)
  have "(p, unat r) = regular_turn ?st ?n" if "queued prev = []"
    using N(7)[OF that] E D(6,7) opponent_valid_player[OF D(1)]
    by (cases ?n) (auto simp: regular_turn_def elim!: oddE evenE)
  then have x: "if ?x then r = turn_round s else (p, unat r) = regular_turn ?st ?n" using N(6) by simp
  note T = turns_snoc[OF inv refl x]
  have "replays a u"
    unfolding replays_def
  proof (intro allI impI)
    fix live :: "StackItemId list" and k q
    assume "set live \<inter> set (scheduled_ids (event_history u)) = {}"
    then have live: "set live \<inter> set (scheduled_ids (event_history s)) = {}" by (simp add: u)
    show "replay a (starting_player u) live (event_history u) (None, k, q, []) =
        Inr (case extra_turn_v1 u of None \<Rightarrow> (None, k, q, [])
             | Some e \<Rightarrow> (Some e, turn_round u, active_player u, scheduled_ids (event_history u)))"
      using replaysD(1)[OF D(10) live e, of k q] nx by (simp add: u replay_append replay_event_def)
  qed
  moreover have "next_regular_player b = fst (regular_turn ?st (if ?x then ?n else Suc ?n))"
    using N(6,7) E opponent_twice[OF D(1)] by (auto simp: regular_turn_def)
  moreover have "unat (at_player (own_turns_started b) q) = turns_of q (tr @ [(p, r, ?x)])" if "valid_player q" for q
    using N(4) N(5)[of q] E that vp by (cases "q = p") (simp_all add: turns_of_append)
  moreover have "\<not> original_first_turn b" "unat (occurrence b) \<le> Suc (length tr)" using N(1,2) E by simp_all
  moreover have "\<forall>item \<in> set (queued b). valid_player (item_controller item)"
    using N(6,7) E by (cases ?x) (auto dest: in_set_butlastD)
  ultimately show ?thesis
    using D(1,3,6,9) T vp unfolding turn_inv_def Let_def c
    by (cases ?x) (simp_all add: u current_turn_def N(6,7))
qed

lemma pass_turn_inv:
  assumes inv: "turn_inv a s tr" and len: "Suc (length tr) < 2 ^ 32" and p: "pass_turn a s = Some u"
  shows "turn_inv a u (tr @ [current_turn u])"
proof (cases "extra_turn_v1 s")
  case None
  then show ?thesis
    using pass_plain[OF inv None len refl refl] p by (simp add: pass_turn_def begin_next_turn_def Let_def)
next
  case (Some prev)
  obtain b r q where nx: "next_turn prev (turn_round s) (starting_player s) (active_player s) = Inr (b, r, q)"
    and u: "u = s\<lparr>event_history := event_history s @ [ExtraTurnBeganV1 prev b r q],
      extra_turn_v1 := Some b, turn_round := r, active_player := q\<rparr>"
    using p Some validate_ok[OF inv]
    by (auto simp: pass_turn_def begin_next_turn_def split: if_splits sum.splits)
  show ?thesis by (rule pass_extra[OF inv Some len nx u])
qed

text \<open>At a completed cleanup the turn always passes.\<close>

lemma pass_turn_total:
  assumes inv: "turn_inv a s tr" and len: "Suc (length tr) < 2 ^ 32"
    and clean: "current_step s = Cleanup" "stack_rows s = []" "\<not> pending_choice s"
  shows "\<exists>u. pass_turn a s = Some u"
proof (cases "extra_turn_v1 s")
  case None
  then show ?thesis by (simp add: pass_turn_def begin_next_turn_def Let_def)
next
  case (Some prev)
  note D = turn_invD[OF inv] and E = turn_invD(12)[OF inv Some]
  have "length (regular_turns tr) \<le> length tr" by (simp add: regular_turns_def)
  then have r: "unat (turn_round s) + 1 < 2 ^ 32" using D(6,7) len by (simp add: regular_turn_def)
  have "unat (at_player (own_turns_started prev) q) + 1 < 2 ^ 32"
    if "q = next_regular_player prev \<or> q \<in> item_controller ` set (queued prev)" for q
  proof -
    have "valid_player q" using that E D(1) opponent_valid_player[OF D(1)] by (auto simp: regular_turn_def)
    then show ?thesis using E turns_of_le[of q tr] len by simp
  qed
  moreover have "unat (occurrence prev) + 1 < 2 ^ 32" using E len by simp
  ultimately obtain res where "next_turn prev (turn_round s) (starting_player s) (active_player s) = Inr res"
    using next_turn_total[OF _ r] by blast
  then show ?thesis
    using Some clean validate_ok[OF inv]
    by (cases res) (simp add: pass_turn_def begin_next_turn_def)
qed

lemma turn_game_inv: "turn_game a hk s tr \<Longrightarrow> length tr < 2 ^ 32 \<Longrightarrow> turn_inv a s tr"
proof (induction rule: turn_game.induct)
  case (start s)
  then show ?case by (rule_tac start_inv)
next
  case (advance s tr t)
  show ?case
  proof (cases rule: advance_cases[of s a hk])
    case stay
    then have "turn_inv a s tr" using advance.IH advance.prems advance.hyps(2) by auto
    then show ?thesis using stay same_turns_inv[of s t a tr] advance.hyps(2) by auto
  next
    case (passed u)
    then have len: "Suc (length tr) < 2 ^ 32" using advance.prems advance.hyps(2) by simp
    have "turn_inv a u (tr @ [current_turn u])"
      by (rule pass_turn_inv[OF advance.IH len passed(1)]) (use len in simp)
    moreover have "current_turn t = current_turn u"
      using passed(2) advance.hyps(2) by (simp add: same_turns_def current_turn_def)
    ultimately show ?thesis using passed same_turns_inv[of u t] advance.hyps(2) by simp
  qed
next
  case (schedule s tr item t)
  then show ?case using schedule_inv by blast
next
  case (elsewhere s tr rows t n b m rm pp ps r)
  show ?case by (rule elsewhere_inv[OF elsewhere.IH[OF elsewhere.prems] elsewhere.hyps(2,3)])
qed

section \<open>Properties\<close>

text \<open>C38. Extra turns do not disturb the regular ones. However extra turns are scheduled and taken,
  the regular turns of a game are those of a game without extra turns: the starting player and the
  opponent alternate, and the round grows with each turn of the starting player. Each extra turn
  belongs to the round of the turn before it. (For games of fewer than 2^32 turns.)\<close>

theorem regular_turns_undisturbed:
  assumes "turn_game authentic hk s tr" "length tr < 2 ^ 32"
  shows "regular_turns tr = map (regular_turn (starting_player s)) [0..<length (regular_turns tr)] \<and>
    0 < length (regular_turns tr) \<and> last tr = current_turn s \<and>
    (\<forall>i. Suc i < length tr \<and> snd (snd (tr ! Suc i)) \<longrightarrow> fst (snd (tr ! Suc i)) = fst (snd (tr ! i)))"
  using turn_invD(4,5,6,8)[OF turn_game_inv[OF assms]] by blast


text \<open>C40. The draw step is skipped on exactly one turn, the first of the game: the test the draw step
  makes is true precisely while only one turn has been taken - also when the starting player takes
  an extra turn in round 1, or the opponent does.\<close>

theorem first_draw_skipped_once:
  assumes "turn_game authentic hk s tr" "length tr < 2 ^ 32"
  shows "is_first_turn_of_the_game s \<longleftrightarrow> length tr = 1"
proof -
  have inv: "turn_inv authentic s tr" using turn_game_inv[OF assms] .
  note D = turn_invD[OF inv]
  have one: "turn_round s = 1 \<longleftrightarrow> unat (turn_round s) = 1" by (simp add: word_unat_eq_iff)
  show ?thesis
  proof (cases "extra_turn_v1 s")
    case None
    note P = plain_game[OF inv None]
    obtain j where j: "length tr = Suc j" using D(3) by (cases "length tr") auto
    show ?thesis
      using P(2,3) None opponent_valid_player[OF D(1)] one j
      by (cases j) (auto simp: is_first_turn_of_the_game_def regular_turn_def elim!: oddE evenE)
  next
    case (Some e)
    have "turn_round s = 1 \<and> active_player s = starting_player s" if l: "length tr = 1"
    proof -
      obtain x where tr: "tr = [x]" using l by (auto simp: length_Suc_conv)
      then have x: "x = current_turn s" using D(4) by simp
      have "length (regular_turns tr) = 1" using D(6) tr by (simp add: regular_turns_def split: if_splits)
      then have "regular_turns [x] = [(starting_player s, 1)]" using D(5) tr by (simp add: regular_turn_def)
      then show ?thesis using x one by (simp add: regular_turns_def current_turn_def split: if_splits prod.splits)
    qed
    then show ?thesis using turn_invD(12)[OF inv Some] Some by (auto simp: is_first_turn_of_the_game_def)
  qed
qed

section \<open>A game with an extra turn\<close>

definition demo_hooks :: "unit StepHooks" where
  "demo_hooks = \<lparr>time_stopped = (\<lambda>_. False), leave_time_stop = (\<lambda>_. None), cleanup_effects = (\<lambda>_. False),
     cleanup_control = (\<lambda>_. False), cleanup_restrictions = (\<lambda>_. False), wave_due = (\<lambda>_. False), start_wave = (\<lambda>u. u),
     attackers_left = (\<lambda>_. True), reset_combat = (\<lambda>u. u), entry_action = (\<lambda>_ _. ())\<rparr>"

definition demo_first :: "unit TurnState" where
  "demo_first = \<lparr>turn_round = 1, active_player = P0, starting_player = P0, current_step = Untap, extra_turn_v1 = None,
     event_history = [], stack_rows = [], pending_choice = False, mana_pools = (\<lambda>_. []), restricted_pools = (\<lambda>_. []),
     priority_player = P0, priority_passes = (\<lambda>_. False), priority_round = 0, stack_len_at_round_open = 0,
     engine_halted = False, other = ()\<rparr>"

text \<open>P0 schedules an extra turn at once; then the engine advances.\<close>

primrec demo_turn :: "nat \<Rightarrow> unit TurnState" where
  "demo_turn 0 = snd (schedule_owned \<lparr>item_id = StackItemId 3, item_controller = P0\<rparr> demo_first)"
| "demo_turn (Suc n) = advance_step (\<lambda>_. True) demo_hooks (demo_turn n)"

lemma demo_advance:
  assumes "current_step s = STEP_ORDER ! n" "n < 11"
  shows "current_step (advance_step a demo_hooks s) = STEP_ORDER ! Suc n" "same_turns s (advance_step a demo_hooks s)"
proof -
  have "n \<in> set [0..<11]" using assms(2) by simp
  then show "current_step (advance_step a demo_hooks s) = STEP_ORDER ! Suc n" "same_turns s (advance_step a demo_hooks s)"
    using assms(1) by (auto simp: upt_rec advance_step_def demo_hooks_def STEP_ORDER_def enter_step Let_def)
qed

lemma before_cleanup: "n < 11 \<Longrightarrow> STEP_ORDER ! n \<noteq> Cleanup"
  by (auto simp: STEP_ORDER_def nth_Cons' less_Suc_eq)

lemma same_turns_trans: "same_turns s t \<Longrightarrow> same_turns t u \<Longrightarrow> same_turns s u"
  by (simp add: same_turns_def)

lemma demo_within:
  "n < 12 \<Longrightarrow> current_step (demo_turn n) = STEP_ORDER ! n \<and> same_turns (demo_turn 0) (demo_turn n) \<and>
     turn_game (\<lambda>_. True) demo_hooks (demo_turn n) [(P0, 1, False)]"
proof (induction n)
  case 0
  have "turn_game (\<lambda>_. True) demo_hooks demo_first [current_turn demo_first]"
    by (rule turn_game.start) (simp add: fresh_game_def demo_first_def valid_player_def)
  then have "turn_game (\<lambda>_. True) demo_hooks (demo_turn 0) [current_turn demo_first]"
    by (rule turn_game.schedule[where item = "\<lparr>item_id = StackItemId 3, item_controller = P0\<rparr>"])
      (simp_all add: demo_first_def valid_player_def schedule_owned_def Let_def)
  then show ?case
    by (simp add: demo_first_def current_turn_def schedule_owned_def STEP_ORDER_def Let_def)
next
  case (Suc n)
  then have IH: "current_step (demo_turn n) = STEP_ORDER ! n" "same_turns (demo_turn 0) (demo_turn n)"
    "turn_game (\<lambda>_. True) demo_hooks (demo_turn n) [(P0, 1, False)]" and n: "n < 11"
    by simp_all
  note A = demo_advance[OF IH(1) n, of "\<lambda>_. True"]
  have nc: "current_step (demo_turn n) \<noteq> Cleanup" using IH(1) before_cleanup[OF n] by simp
  have "turn_game (\<lambda>_. True) demo_hooks (demo_turn (Suc n)) [(P0, 1, False)]"
    using turn_game.advance[OF IH(3) refl] nc by simp
  then show ?case using A same_turns_trans[OF IH(2) A(2)] by simp
qed

text \<open>The second turn of the demo is P0's extra turn, in round 1.\<close>

lemma demo_twelve:
  "turn_game (\<lambda>_. True) demo_hooks (demo_turn 12) [(P0, 1, False), (P0, 1, True)]"
proof -
  have c: "current_step (demo_turn 11) = Cleanup" and st: "same_turns (demo_turn 0) (demo_turn 11)"
    and g: "turn_game (\<lambda>_. True) demo_hooks (demo_turn 11) [(P0, 1, False)]"
    using demo_within[of 11] by (simp_all add: STEP_ORDER_def)
  have inv: "turn_inv (\<lambda>_. True) (demo_turn 11) [(P0, 1, False)]" by (rule turn_game_inv[OF g]) simp
  let ?s = "demo_turn 11" and ?e = "queue_turn \<lparr>item_id = StackItemId 3, item_controller = P0\<rparr> (initial_extra 1 P0 P0)"
  have e: "extra_turn_v1 ?s = Some ?e" "turn_round ?s = 1" "active_player ?s = P0" "starting_player ?s = P0"
    "stack_rows ?s = []" "\<not> pending_choice ?s"
    using st by (simp_all add: same_turns_def schedule_owned_def demo_first_def queue_turn_def Let_def)
  have "validate_turns (\<lambda>_. True) ?s = Inr ()" by (rule validate_ok[OF turn_game_inv[OF g]]) simp
  then obtain u where u: "pass_turn (\<lambda>_. True) ?s = Some u" "current_turn u = (P0, 1, True)"
    using e c
    by (simp add: pass_turn_def begin_next_turn_def next_turn_def queue_turn_def initial_extra_def initial_own_turns_def
        at_player_def set_player_def opponent_def P0_def checked_add_def saturating_sub_def current_turn_def Let_def)
  have n: "demo_turn 12 = advance_step (\<lambda>_. True) demo_hooks ?s" using demo_turn.simps(2)[of 11] by simp
  have t: "demo_turn 12 = enter_next_step demo_hooks Untap u"
    unfolding n using c u(1) by (simp add: advance_step_def demo_hooks_def STEP_ORDER_def)
  have "same_turns u (demo_turn 12)" "current_step (demo_turn 12) = Untap" by (simp_all add: t enter_step)
  then have "current_turn (demo_turn 12) = (P0, 1, True)" "current_step (demo_turn 12) = Untap"
    using u(2) by (simp_all add: same_turns_def current_turn_def)
  then show ?thesis
    using turn_game.advance[OF g n] c by simp
qed

theorem regular_turns_undisturbed_witness:
  "\<exists>s tr. turn_game (\<lambda>_. True) demo_hooks s tr \<and> length tr = 2 \<and> regular_turns tr = [(P0, 1)] \<and>
     last tr = current_turn s \<and> fst (snd (tr ! 1)) = fst (snd (tr ! 0))"
proof -
  have "current_turn (demo_turn 12) = (P0, 1, True)"
    using regular_turns_undisturbed[OF demo_twelve] by simp
  then show ?thesis
    using demo_twelve
    by (intro exI[of _ "demo_turn 12"] exI[of _ "[(P0, 1, False), (P0, 1, True)]"]) (simp add: regular_turns_def)
qed


theorem first_draw_skipped_once_witness:
  "is_first_turn_of_the_game (demo_turn 11) \<and> \<not> is_first_turn_of_the_game (demo_turn 12)"
proof -
  have "turn_game (\<lambda>_. True) demo_hooks (demo_turn 11) [(P0, 1, False)]" using demo_within[of 11] by simp
  then show ?thesis
    using first_draw_skipped_once[of "\<lambda>_. True" demo_hooks] demo_twelve by fastforce
qed

end
