(* ===== verification/Json.thy ===== *)
theory Json
  imports Prelude
begin

unbundle bit_operations_syntax

text \<open>
  \<^verbatim>\<open>mtg-kernel/src/canonical_json_v1.rs\<close>: the canonical JSON codec of the training store - the
  value tree, its encoder, the null policy and the parser.

  A string is the list of its bytes (a Rust string that passes the codec is printable ASCII) and a
  \<^verbatim>\<open>BTreeMap\<close> is the list of its entries in key order. The encoder is generic in its sink: \<open>emit\<close>
  is the sequence of chunks it passes on, \<open>to_vec\<close> and \<open>count_chunks\<close> are the two sinks.
  The parser works on the bytes from its position on. Its recursion over containers is by the
  number of containers that may still be opened (32 less the containing depth); the loops over
  the elements of one container get the number of remaining bytes as fuel, and \<open>OutOfFuel\<close>, which is not
  an error of the code, is shown never to arise.
\<close>

section \<open>Data\<close>

type_synonym bytes = "u8 list"

definition MAX_DEPTH :: nat where
  "MAX_DEPTH = 32"

definition MAX_STRING_BYTES :: nat where
  "MAX_STRING_BYTES = 4096"

definition MAX_OBJECT_KEYS :: nat where
  "MAX_OBJECT_KEYS = 256"

datatype CanonicalJsonNullPathSegmentV1 = ObjectKey bytes | ArrayIndex nat | AnyArrayElement

datatype CanonicalJsonNullPolicyV1 = Forbid | AllowOnly "CanonicalJsonNullPathSegmentV1 list list"

datatype CanonicalJsonErrorKindV1 =
    Serialization | EncodedLengthOverflow | Deserialization | InvalidSyntax | MissingFinalLf
  | TrailingBytes | NonCanonicalBytes | DuplicateObjectKey | FloatingPointForbidden
  | IntegerOutOfRange | NullForbidden | NonPrintableAscii | StringTooLong | ObjectTooLarge
  | DepthTooDeep

text \<open>The signed number keeps its 64 bits and is read with \<open>sint\<close>.\<close>

datatype CanonicalJsonNumberV1 = Signed "64 word" | Unsigned u64

datatype CanonicalJsonValueV1 =
    Null
  | Bool bool
  | Number CanonicalJsonNumberV1
  | Text bytes
  | Array "CanonicalJsonValueV1 list"
  | Object "(bytes \<times> CanonicalJsonValueV1) list"

section \<open>The encoder\<close>

text \<open>\<^verbatim>\<open>to_string\<close> of an integer.\<close>

fun decimal :: "nat \<Rightarrow> bytes" where
  "decimal n = (if n < 10 then [word_of_nat (48 + n)] else decimal (n div 10) @ [word_of_nat (48 + n mod 10)])"

declare decimal.simps [simp del]

definition number_bytes :: "CanonicalJsonNumberV1 \<Rightarrow> bytes" where
  "number_bytes n =
     (case n of
        Signed w \<Rightarrow> if sint w < 0 then 45 # decimal (nat (- sint w)) else decimal (nat (sint w))
      | Unsigned w \<Rightarrow> decimal (unat w))"

fun string_chunks :: "bytes \<Rightarrow> bytes \<Rightarrow> bytes list" where
  "string_chunks chunk [] = [chunk]"
| "string_chunks chunk (b # bs) =
     (if b = 34 \<or> b = 92 then chunk # [92, b] # string_chunks [] bs else string_chunks (chunk @ [b]) bs)"

definition emit_string :: "bytes \<Rightarrow> bytes list" where
  "emit_string s = [34] # string_chunks [] s @ [[34]]"

fun with_commas :: "bytes list list \<Rightarrow> bytes list" where
  "with_commas [] = []"
| "with_commas [x] = x"
| "with_commas (x # y # xs) = x @ [44] # with_commas (y # xs)"

fun emit :: "CanonicalJsonValueV1 \<Rightarrow> bytes list" where
  "emit Null = [as_bytes ''null'']"
| "emit (Bool b) = [if b then as_bytes ''true'' else as_bytes ''false'']"
| "emit (Number n) = [number_bytes n]"
| "emit (Text s) = emit_string s"
| "emit (Array vs) = [91] # with_commas (map emit vs) @ [[93]]"
| "emit (Object kvs) = [123] # with_commas (map (\<lambda>(k, v). emit_string k @ [58] # emit v) kvs) @ [[125]]"

definition emit_value_with_final_lf :: "CanonicalJsonValueV1 \<Rightarrow> bytes list" where
  "emit_value_with_final_lf v = emit v @ [[10]]"

definition to_vec :: "bytes list \<Rightarrow> bytes" where
  "to_vec chunks = concat chunks"

definition encode_value_with_final_lf :: "CanonicalJsonValueV1 \<Rightarrow> bytes" where
  "encode_value_with_final_lf v = to_vec (emit_value_with_final_lf v)"

fun count_chunks :: "u64 \<Rightarrow> bytes list \<Rightarrow> (u64, CanonicalJsonErrorKindV1) result" where
  "count_chunks n [] = Inr n"
| "count_chunks n (c # cs) =
     (if length c < 2 ^ 64 then
        and_then (ok_or (checked_add n (word_of_nat (length c))) EncodedLengthOverflow) (\<lambda>m. count_chunks m cs)
      else Inl EncodedLengthOverflow)"

section \<open>Null paths\<close>

datatype ActualPathSegmentV1 = AtKey bytes | AtIndex nat

fun segment_matches :: "ActualPathSegmentV1 \<Rightarrow> CanonicalJsonNullPathSegmentV1 \<Rightarrow> bool" where
  "segment_matches (AtKey k) (ObjectKey l) = (k = l)"
| "segment_matches (AtIndex i) (ArrayIndex j) = (i = j)"
| "segment_matches (AtIndex i) AnyArrayElement = True"
| "segment_matches _ _ = False"

definition null_path_matches :: "ActualPathSegmentV1 list \<Rightarrow> CanonicalJsonNullPathSegmentV1 list \<Rightarrow> bool" where
  "null_path_matches actual allowed \<longleftrightarrow>
     length actual = length allowed \<and> list_all (\<lambda>(a, b). segment_matches a b) (zip actual allowed)"

fun require_allowed_null_paths_at ::
      "CanonicalJsonNullPathSegmentV1 list list \<Rightarrow> ActualPathSegmentV1 list \<Rightarrow> CanonicalJsonValueV1 \<Rightarrow> bool"
  and require_elements ::
      "CanonicalJsonNullPathSegmentV1 list list \<Rightarrow> ActualPathSegmentV1 list \<Rightarrow> nat \<Rightarrow> CanonicalJsonValueV1 list \<Rightarrow> bool"
  and require_entries ::
      "CanonicalJsonNullPathSegmentV1 list list \<Rightarrow> ActualPathSegmentV1 list \<Rightarrow> (bytes \<times> CanonicalJsonValueV1) list \<Rightarrow> bool"
  where
  "require_allowed_null_paths_at allowed path Null \<longleftrightarrow> list_ex (null_path_matches path) allowed"
| "require_allowed_null_paths_at allowed path (Array vs) \<longleftrightarrow> require_elements allowed path 0 vs"
| "require_allowed_null_paths_at allowed path (Object kvs) \<longleftrightarrow> require_entries allowed path kvs"
| "require_allowed_null_paths_at allowed path _ \<longleftrightarrow> True"
| "require_elements allowed path i [] \<longleftrightarrow> True"
| "require_elements allowed path i (v # vs) \<longleftrightarrow>
     require_allowed_null_paths_at allowed (path @ [AtIndex i]) v \<and> require_elements allowed path (i + 1) vs"
| "require_entries allowed path [] \<longleftrightarrow> True"
| "require_entries allowed path ((k, v) # kvs) \<longleftrightarrow>
     require_allowed_null_paths_at allowed (path @ [AtKey k]) v \<and> require_entries allowed path kvs"

definition require_allowed_null_paths ::
  "CanonicalJsonValueV1 \<Rightarrow> CanonicalJsonNullPolicyV1 \<Rightarrow> (unit, CanonicalJsonErrorKindV1) result" where
  "require_allowed_null_paths v policy =
     (if require_allowed_null_paths_at (case policy of Forbid \<Rightarrow> [] | AllowOnly paths \<Rightarrow> paths) [] v
      then Inr () else Inl NullForbidden)"

section \<open>The parser\<close>

datatype parse_error = Kind CanonicalJsonErrorKindV1 | OutOfFuel

type_synonym 'a parsed = "('a \<times> bytes, parse_error) result"

definition is_digit :: "u8 \<Rightarrow> bool" where
  "is_digit b \<longleftrightarrow> 48 \<le> b \<and> b \<le> 57"

definition is_printable :: "u8 \<Rightarrow> bool" where
  "is_printable b \<longleftrightarrow> 32 \<le> b \<and> b \<le> 126"

definition skip_whitespace :: "bytes \<Rightarrow> bytes" where
  "skip_whitespace = dropWhile (\<lambda>b. b = 32 \<or> b = 9 \<or> b = 10 \<or> b = 13)"

fun consume :: "u8 \<Rightarrow> bytes \<Rightarrow> bytes option" where
  "consume b [] = None"
| "consume b (x # xs) = (if x = b then Some xs else None)"

definition require_byte :: "u8 \<Rightarrow> bytes \<Rightarrow> (bytes, parse_error) result" where
  "require_byte b bs = ok_or (consume b bs) (Kind InvalidSyntax)"

definition require_literal :: "bytes \<Rightarrow> bytes \<Rightarrow> (bytes, parse_error) result" where
  "require_literal lit bs =
     (if take (length lit) bs = lit then Inr (drop (length lit) bs) else Inl (Kind InvalidSyntax))"

definition require_digits :: "bytes \<Rightarrow> (bytes, parse_error) result" where
  "require_digits bs =
     (if bs \<noteq> [] \<and> is_digit (hd bs) then Inr (dropWhile is_digit bs) else Inl (Kind InvalidSyntax))"

definition checked_mul :: "u64 \<Rightarrow> u64 \<Rightarrow> u64 option" where
  "checked_mul a b = (if unat a * unat b < 2 ^ 64 then Some (a * b) else None)"

fun parse_u64_decimal :: "u64 \<Rightarrow> bytes \<Rightarrow> (u64, parse_error) result" where
  "parse_u64_decimal v [] = Inr v"
| "parse_u64_decimal v (d # ds) =
     and_then (ok_or (Option.bind (checked_mul v 10) (\<lambda>m. checked_add m (ucast (d - 48)))) (Kind IntegerOutOfRange))
       (\<lambda>w. parse_u64_decimal w ds)"

text \<open>The digits of the integer part, and what follows them.\<close>

definition parse_integer_part :: "bytes \<Rightarrow> bytes parsed" where
  "parse_integer_part bs =
     (case bs of
        [] \<Rightarrow> Inl (Kind InvalidSyntax)
      | d # r \<Rightarrow>
          if d = 48 then
            (if r \<noteq> [] \<and> is_digit (hd r) then Inl (Kind InvalidSyntax) else Inr ([d], r))
          else if is_digit d then Inr (d # takeWhile is_digit r, dropWhile is_digit r)
          else Inl (Kind InvalidSyntax))"

definition parse_fraction :: "bytes \<Rightarrow> bool parsed" where
  "parse_fraction bs =
     (case consume 46 bs of
        Some r \<Rightarrow> and_then (require_digits r) (\<lambda>r1. Inr (True, r1))
      | None \<Rightarrow> Inr (False, bs))"

definition parse_exponent :: "bytes \<Rightarrow> bool parsed" where
  "parse_exponent bs =
     (case bs of
        b # r \<Rightarrow>
          if b = 101 \<or> b = 69 then
            and_then (require_digits (case r of s # r1 \<Rightarrow> if s = 43 \<or> s = 45 then r1 else r | [] \<Rightarrow> r))
              (\<lambda>r2. Inr (True, r2))
          else Inr (False, bs)
      | [] \<Rightarrow> Inr (False, bs))"

definition parse_number :: "bytes \<Rightarrow> CanonicalJsonValueV1 parsed" where
  "parse_number bs =
     (let (negative, r) = (case consume 45 bs of Some r \<Rightarrow> (True, r) | None \<Rightarrow> (False, bs)) in
      and_then (parse_integer_part r) (\<lambda>(digits, r1).
      and_then (parse_fraction r1) (\<lambda>(fractional, r2).
      and_then (parse_exponent r2) (\<lambda>(exponential, r3).
        if fractional \<or> exponential then Inl (Kind FloatingPointForbidden)
        else
          and_then (parse_u64_decimal 0 digits) (\<lambda>magnitude.
            if negative then
              (if unat magnitude = 2 ^ 63 then Inr (Number (Signed (2 ^ 63)), r3)
               else if unat magnitude < 2 ^ 63 then Inr (Number (Signed (- magnitude)), r3)
               else Inl (Kind IntegerOutOfRange))
            else Inr (Number (Unsigned magnitude), r3))))))"

definition hex_digit :: "u8 \<Rightarrow> u32 option" where
  "hex_digit b =
     (if 48 \<le> b \<and> b \<le> 57 then Some (ucast (b - 48))
      else if 97 \<le> b \<and> b \<le> 102 then Some (ucast (b - 97) + 10)
      else if 65 \<le> b \<and> b \<le> 70 then Some (ucast (b - 65) + 10)
      else None)"

fun parse_hex_digits :: "nat \<Rightarrow> u32 \<Rightarrow> bytes \<Rightarrow> u32 parsed" where
  "parse_hex_digits 0 v bs = Inr (v, bs)"
| "parse_hex_digits (Suc n) v [] = Inl (Kind InvalidSyntax)"
| "parse_hex_digits (Suc n) v (b # bs) =
     (case hex_digit b of
        None \<Rightarrow> Inl (Kind InvalidSyntax)
      | Some d \<Rightarrow> parse_hex_digits n (push_bit 4 v OR d) bs)"

definition parse_hex_quad :: "bytes \<Rightarrow> u32 parsed" where
  "parse_hex_quad = parse_hex_digits 4 0"

definition parse_unicode_escape :: "bytes \<Rightarrow> u32 parsed" where
  "parse_unicode_escape bs =
     and_then (parse_hex_quad bs) (\<lambda>(first, r).
       if 0xd800 \<le> first \<and> first \<le> 0xdbff then
         and_then (require_byte 92 r) (\<lambda>r1.
         and_then (require_byte 117 r1) (\<lambda>r2.
         and_then (parse_hex_quad r2) (\<lambda>(second, r3).
           if 0xdc00 \<le> second \<and> second \<le> 0xdfff
           then Inr (0x10000 + push_bit 10 (first - 0xd800) + (second - 0xdc00), r3)
           else Inl (Kind InvalidSyntax))))
       else if 0xdc00 \<le> first \<and> first \<le> 0xdfff then Inl (Kind InvalidSyntax)
       else Inr (first, r))"

definition push_printable_ascii :: "bytes \<Rightarrow> u8 \<Rightarrow> (bytes, parse_error) result" where
  "push_printable_ascii out b =
     (if \<not> is_printable b then Inl (Kind NonPrintableAscii)
      else if length out = MAX_STRING_BYTES then Inl (Kind StringTooLong)
      else Inr (out @ [b]))"

definition simple_escape :: "u8 \<Rightarrow> u8 option" where
  "simple_escape b =
     map_of [(34, 34), (47, 47), (92, 92), (98, 8), (102, 12), (110, 10), (114, 13), (116, 9)] b"

definition parse_escape :: "u8 \<Rightarrow> bytes \<Rightarrow> u8 parsed" where
  "parse_escape escaped r =
     (if escaped = 117 then
        and_then (parse_unicode_escape r) (\<lambda>(scalar, r1).
          if 0x20 \<le> scalar \<and> scalar \<le> 0x7e then Inr (ucast scalar, r1) else Inl (Kind NonPrintableAscii))
      else
        case simple_escape escaped of Some b \<Rightarrow> Inr (b, r) | None \<Rightarrow> Inl (Kind InvalidSyntax))"

lemma parse_hex_digits_shorter: "parse_hex_digits n v bs = Inr (w, r) \<Longrightarrow> length r \<le> length bs"
  by (induction n v bs arbitrary: w r rule: parse_hex_digits.induct) (fastforce split: option.splits)+

lemma require_byte_shorter: "require_byte b bs = Inr r \<Longrightarrow> bs = b # r"
  by (cases bs) (auto simp: require_byte_def split: if_splits)

lemma parse_escape_shorter: "parse_escape e bs = Inr (b, r) \<Longrightarrow> length r \<le> length bs"
  unfolding parse_escape_def parse_unicode_escape_def parse_hex_quad_def
  by (fastforce simp: and_then_eq_Inr dest: parse_hex_digits_shorter require_byte_shorter
      split: if_splits option.splits prod.splits)

text \<open>The loop of \<^verbatim>\<open>parse_string\<close>, after the opening quote.\<close>

function string_loop :: "bytes \<Rightarrow> bytes \<Rightarrow> bytes parsed" where
  "string_loop decoded [] = Inl (Kind InvalidSyntax)"
| "string_loop decoded (b # bs) =
     (if b = 34 then Inr (decoded, bs)
      else if b = 92 then
        (case bs of
           [] \<Rightarrow> Inl (Kind InvalidSyntax)
         | e # r \<Rightarrow>
             (case parse_escape e r of
                Inl err \<Rightarrow> Inl err
              | Inr (d, r1) \<Rightarrow>
                  (case push_printable_ascii decoded d of
                     Inl err \<Rightarrow> Inl err
                   | Inr out \<Rightarrow> string_loop out r1)))
      else if is_printable b then
        (case push_printable_ascii decoded b of Inl err \<Rightarrow> Inl err | Inr out \<Rightarrow> string_loop out bs)
      else if b < 32 then Inl (Kind InvalidSyntax)
      else Inl (Kind NonPrintableAscii))"
  by pat_completeness auto
termination
  by (relation "measure (length \<circ> snd)") (auto dest: parse_escape_shorter)

definition parse_string :: "bytes \<Rightarrow> bytes parsed" where
  "parse_string bs = and_then (require_byte 34 bs) (string_loop [])"

definition parse_null :: "CanonicalJsonNullPolicyV1 \<Rightarrow> bytes \<Rightarrow> CanonicalJsonValueV1 parsed" where
  "parse_null policy bs =
     and_then (require_literal (as_bytes ''null'') bs) (\<lambda>r.
       if policy = Forbid then Inl (Kind NullForbidden) else Inr (Null, r))"

primrec array_loop ::
  "(bytes \<Rightarrow> CanonicalJsonValueV1 parsed) \<Rightarrow> nat \<Rightarrow> CanonicalJsonValueV1 list \<Rightarrow> bytes \<Rightarrow> CanonicalJsonValueV1 parsed" where
  "array_loop value 0 values bs = Inl OutOfFuel"
| "array_loop value (Suc fuel) values bs =
     and_then (value bs) (\<lambda>(v, r).
       (let r1 = skip_whitespace r in
        case consume 93 r1 of
          Some r2 \<Rightarrow> Inr (Array (values @ [v]), r2)
        | None \<Rightarrow> and_then (require_byte 44 r1) (\<lambda>r2. array_loop value fuel (values @ [v]) (skip_whitespace r2))))"

definition parse_array ::
  "(bytes \<Rightarrow> CanonicalJsonValueV1 parsed) \<Rightarrow> bytes \<Rightarrow> CanonicalJsonValueV1 parsed" where
  "parse_array value bs =
     (let r = skip_whitespace (tl bs) in
      case consume 93 r of Some r1 \<Rightarrow> Inr (Array [], r1) | None \<Rightarrow> array_loop value (Suc (length r)) [] r)"

text \<open>\<^verbatim>\<open>BTreeMap::insert\<close> of a key that is not there, and the order of byte strings.\<close>

fun bytes_less :: "bytes \<Rightarrow> bytes \<Rightarrow> bool" where
  "bytes_less [] ys \<longleftrightarrow> ys \<noteq> []"
| "bytes_less (x # xs) [] \<longleftrightarrow> False"
| "bytes_less (b # bs) (c # cs) = (if b = c then bytes_less bs cs else b < c)"

fun entry_insert :: "bytes \<Rightarrow> 'v \<Rightarrow> (bytes \<times> 'v) list \<Rightarrow> (bytes \<times> 'v) list" where
  "entry_insert k v [] = [(k, v)]"
| "entry_insert k v ((l, w) # kvs) =
     (if bytes_less k l then (k, v) # (l, w) # kvs
      else if k = l then (k, v) # kvs
      else (l, w) # entry_insert k v kvs)"

primrec object_loop ::
  "(bytes \<Rightarrow> CanonicalJsonValueV1 parsed) \<Rightarrow> nat \<Rightarrow> (bytes \<times> CanonicalJsonValueV1) list \<Rightarrow> bytes
    \<Rightarrow> CanonicalJsonValueV1 parsed" where
  "object_loop value 0 entries bs = Inl OutOfFuel"
| "object_loop value (Suc fuel) entries bs =
     (if bs = [] \<or> hd bs \<noteq> 34 then Inl (Kind InvalidSyntax)
      else
        and_then (parse_string bs) (\<lambda>(k, r).
          if k \<in> set (map fst entries) then Inl (Kind DuplicateObjectKey)
          else if length entries = MAX_OBJECT_KEYS then Inl (Kind ObjectTooLarge)
          else
            and_then (require_byte 58 (skip_whitespace r)) (\<lambda>r1.
            and_then (value (skip_whitespace r1)) (\<lambda>(v, r2).
              (let entries1 = entry_insert k v entries; r3 = skip_whitespace r2 in
               case consume 125 r3 of
                 Some r4 \<Rightarrow> Inr (Object entries1, r4)
               | None \<Rightarrow> and_then (require_byte 44 r3) (\<lambda>r4. object_loop value fuel entries1 (skip_whitespace r4)))))))"

definition parse_object ::
  "(bytes \<Rightarrow> CanonicalJsonValueV1 parsed) \<Rightarrow> bytes \<Rightarrow> CanonicalJsonValueV1 parsed" where
  "parse_object value bs =
     (let r = skip_whitespace (tl bs) in
      case consume 125 r of Some r1 \<Rightarrow> Inr (Object [], r1) | None \<Rightarrow> object_loop value (Suc (length r)) [] r)"

text \<open>The dispatch on the first byte; the two arguments parse a container.\<close>

definition parse_head ::
  "CanonicalJsonNullPolicyV1 \<Rightarrow> (bytes \<Rightarrow> CanonicalJsonValueV1 parsed) \<Rightarrow> (bytes \<Rightarrow> CanonicalJsonValueV1 parsed)
    \<Rightarrow> bytes \<Rightarrow> CanonicalJsonValueV1 parsed" where
  "parse_head policy array object bs =
     (case bs of
        [] \<Rightarrow> Inl (Kind InvalidSyntax)
      | b # _ \<Rightarrow>
          if b = 110 then parse_null policy bs
          else if b = 102 then and_then (require_literal (as_bytes ''false'') bs) (\<lambda>r. Inr (Bool False, r))
          else if b = 116 then and_then (require_literal (as_bytes ''true'') bs) (\<lambda>r. Inr (Bool True, r))
          else if b = 34 then and_then (parse_string bs) (\<lambda>(s, r). Inr (Text s, r))
          else if b = 91 then array bs
          else if b = 123 then object bs
          else if b = 45 \<or> is_digit b then parse_number bs
          else Inl (Kind InvalidSyntax))"

text \<open>\<open>parse_value\<close> with the number of containers that may still be opened; at 0 the check of the
  containing depth (\<^verbatim>\<open>checked_container_depth\<close>) fails.\<close>

primrec parse_value :: "CanonicalJsonNullPolicyV1 \<Rightarrow> nat \<Rightarrow> bytes \<Rightarrow> CanonicalJsonValueV1 parsed" where
  "parse_value policy 0 = parse_head policy (\<lambda>_. Inl (Kind DepthTooDeep)) (\<lambda>_. Inl (Kind DepthTooDeep))"
| "parse_value policy (Suc n) =
     parse_head policy (parse_array (parse_value policy n)) (parse_object (parse_value policy n))"

definition parse_document :: "bytes \<Rightarrow> CanonicalJsonNullPolicyV1 \<Rightarrow> (CanonicalJsonValueV1, parse_error) result" where
  "parse_document bs policy =
     and_then (parse_value policy MAX_DEPTH (skip_whitespace bs)) (\<lambda>(v, r).
       if skip_whitespace r \<noteq> [] then Inl (Kind TrailingBytes) else Inr v)"

definition parse_and_require_canonical ::
  "bytes \<Rightarrow> CanonicalJsonNullPolicyV1 \<Rightarrow> (CanonicalJsonValueV1, parse_error) result" where
  "parse_and_require_canonical bs policy =
     (if bs = [] \<or> last bs \<noteq> 10 then Inl (Kind MissingFinalLf)
      else
        and_then (parse_document (butlast bs) policy) (\<lambda>v.
        and_then (map_err Kind (require_allowed_null_paths v policy)) (\<lambda>_.
          if encode_value_with_final_lf v \<noteq> bs then Inl (Kind NonCanonicalBytes) else Inr v)))"

definition validate_canonical_json_bytes_v1 ::
  "bytes \<Rightarrow> CanonicalJsonNullPolicyV1 \<Rightarrow> (unit, parse_error) result" where
  "validate_canonical_json_bytes_v1 bs policy = and_then (parse_and_require_canonical bs policy) (\<lambda>_. Inr ())"

end
