(* ===== verification/Json_Parse.thy ===== *)
theory Json_Parse
  imports Json
begin

text \<open>
  The canonical JSON parser accepts exactly the bytes the encoder writes for well-formed values,
  and reads back the value: numbers lose only the difference between a signed and an unsigned
  representation of the same integer.
\<close>

section \<open>Well-formed values\<close>

definition string_ok :: "bytes \<Rightarrow> bool" where
  "string_ok s \<longleftrightarrow> list_all is_printable s \<and> length s \<le> MAX_STRING_BYTES"

text \<open>A value that opens at most \<open>n\<close> nested containers and keeps the bounds of the store.\<close>

fun fits :: "nat \<Rightarrow> CanonicalJsonValueV1 \<Rightarrow> bool" where
  "fits n (Text s) \<longleftrightarrow> string_ok s"
| "fits (Suc n) (Array vs) \<longleftrightarrow> list_all (fits n) vs"
| "fits (Suc n) (Object kvs) \<longleftrightarrow>
     list_all (\<lambda>(k, v). string_ok k \<and> fits n v) kvs \<and> sorted_wrt bytes_less (map fst kvs) \<and>
     length kvs \<le> MAX_OBJECT_KEYS"
| "fits 0 (Array vs) \<longleftrightarrow> False"
| "fits 0 (Object kvs) \<longleftrightarrow> False"
| "fits n _ \<longleftrightarrow> True"

lemma fits_atoms [simp]:
  "fits n Null" "fits n (Bool b)" "fits n (Number m)" "fits n (Text s) \<longleftrightarrow> string_ok s"
  by (cases n; simp)+

fun null_free :: "CanonicalJsonValueV1 \<Rightarrow> bool" where
  "null_free Null \<longleftrightarrow> False"
| "null_free (Array vs) \<longleftrightarrow> list_all null_free vs"
| "null_free (Object kvs) \<longleftrightarrow> list_all (\<lambda>(k, v). null_free v) kvs"
| "null_free _ \<longleftrightarrow> True"

text \<open>The value the parser reads: a signed number that is not negative becomes unsigned.\<close>

fun normalize :: "CanonicalJsonValueV1 \<Rightarrow> CanonicalJsonValueV1" where
  "normalize (Number (Signed w)) = Number (if sint w < 0 then Signed w else Unsigned w)"
| "normalize (Array vs) = Array (map normalize vs)"
| "normalize (Object kvs) = Object (map (\<lambda>(k, v). (k, normalize v)) kvs)"
| "normalize v = v"

section \<open>Bytes of the encoder\<close>

definition enc :: "CanonicalJsonValueV1 \<Rightarrow> bytes" where
  "enc v = concat (emit v)"

fun join :: "bytes list \<Rightarrow> bytes" where
  "join [] = []"
| "join [x] = x"
| "join (x # y # xs) = x @ 44 # join (y # xs)"

definition escape :: "bytes \<Rightarrow> bytes" where
  "escape s = concat (map (\<lambda>b. if b = 34 \<or> b = 92 then [92, b] else [b]) s)"

definition enc_string :: "bytes \<Rightarrow> bytes" where
  "enc_string s = 34 # escape s @ [34]"

definition enc_entry :: "bytes \<times> CanonicalJsonValueV1 \<Rightarrow> bytes" where
  "enc_entry = (\<lambda>(k, v). enc_string k @ 58 # enc v)"

lemma concat_with_commas: "concat (with_commas xss) = join (map concat xss)"
  by (induction xss rule: with_commas.induct) simp_all

lemma concat_string_chunks: "concat (string_chunks chunk s) = chunk @ escape s"
  by (induction chunk s rule: string_chunks.induct) (simp_all add: escape_def)

lemma concat_emit_string: "concat (emit_string s) = enc_string s"
  by (simp add: emit_string_def enc_string_def concat_string_chunks)

lemma enc_eq: "enc = (\<lambda>v. concat (emit v))"
  by (simp add: enc_def fun_eq_iff)

lemma enc_simps:
  "enc Null = as_bytes ''null''" "enc (Bool b) = (if b then as_bytes ''true'' else as_bytes ''false'')"
  "enc (Number n) = number_bytes n" "enc (Text s) = enc_string s"
  "enc (Array vs) = 91 # join (map enc vs) @ [93]"
  "enc (Object kvs) = 123 # join (map enc_entry kvs) @ [125]"
  by (simp_all add: enc_eq enc_entry_def concat_with_commas concat_emit_string comp_def split_def)

lemma as_bytes_literals:
  "as_bytes ''null'' = [110, 117, 108, 108]" "as_bytes ''true'' = [116, 114, 117, 101]"
  "as_bytes ''false'' = [102, 97, 108, 115, 101]"
  by (simp_all add: as_bytes_def of_char_of)

section \<open>Numbers\<close>

text \<open>What may follow a value inside a document: nothing, a comma or a closing bracket.\<close>

definition stops :: "bytes \<Rightarrow> bool" where
  "stops r \<longleftrightarrow> r = [] \<or> hd r \<in> {44, 93, 125}"

definition digit :: "nat \<Rightarrow> u8" where
  "digit m = word_of_nat (48 + m)"

lemma decimal_rec: "decimal n = (if n < 10 then [] else decimal (n div 10)) @ [digit (n mod 10)]"
  by (subst decimal.simps) (simp add: digit_def del: of_nat_add)

lemma unat_digit: "m < 10 \<Longrightarrow> unat (digit m) = 48 + m"
  by (simp add: digit_def unat_of_nat del: of_nat_add)

lemma is_digit_digit: "m < 10 \<Longrightarrow> is_digit (digit m)"
  by (simp add: is_digit_def word_le_nat_alt unat_digit)

lemma decimal_digits: "list_all is_digit (decimal n) \<and> decimal n \<noteq> []"
proof (induction n rule: decimal.induct)
  case (1 n)
  then show ?case by (subst (1 2) decimal_rec) (simp add: is_digit_digit)
qed

lemma digit_48: "m < 10 \<Longrightarrow> digit m = 48 \<longleftrightarrow> m = 0"
  by (auto simp: digit_def dest: arg_cong[where f = unat] unat_digit)

lemma decimal_head: "0 < n \<Longrightarrow> hd (decimal n) \<noteq> 48"
proof (induction n rule: decimal.induct)
  case (1 n)
  then show ?case
    using decimal_digits[of "n div 10"] by (subst decimal_rec) (auto simp: hd_append digit_48)
qed

lemma parse_u64_append:
  "parse_u64_decimal v (xs @ ys) = and_then (parse_u64_decimal v xs) (\<lambda>w. parse_u64_decimal w ys)"
proof (induction v xs rule: parse_u64_decimal.induct)
  case (2 v d ds)
  show ?case
    using 2 by (cases "Option.bind (checked_mul v 10) (\<lambda>m. checked_add m (ucast (d - 48)))") simp_all
qed simp

lemma digit_value: "m < 10 \<Longrightarrow> ucast (digit m - 48) = (word_of_nat m :: u64)"
proof -
  assume m: "m < 10"
  have "digit m - 48 = word_of_nat m" by (simp add: digit_def)
  moreover have "unat (word_of_nat m :: u8) = m" using m by (simp add: unat_of_nat)
  ultimately show ?thesis by (metis of_nat_unat)
qed

lemma unat_small: "n < 2 ^ 64 \<Longrightarrow> unat (word_of_nat n :: u64) = n"
  by (simp add: unat_of_nat)

lemma push_decimal_digit:
  assumes "n < 2 ^ 64"
  shows "parse_u64_decimal (word_of_nat (n div 10)) [digit (n mod 10)] = Inr (word_of_nat n)"
proof -
  have "n div 10 * 10 \<le> n" "n div 10 * 10 + n mod 10 = n" by simp_all
  moreover have "n div 10 < 2 ^ 64" "n div 10 * 10 < 2 ^ 64" "n mod 10 < 2 ^ 64" using assms by linarith+
  moreover have "checked_mul (word_of_nat (n div 10)) 10 = Some (word_of_nat (n div 10 * 10))"
    using calculation by (simp add: checked_mul_def unat_small)
  moreover have "checked_add (word_of_nat (n div 10 * 10)) (word_of_nat (n mod 10) :: u64) = Some (word_of_nat n)"
    using calculation assms unfolding checked_add_def
    by (simp add: unat_small del: of_nat_add of_nat_mult flip: of_nat_add)
  ultimately show ?thesis by (simp add: digit_value del: of_nat_add of_nat_mult)
qed

lemma parse_u64_decimal: "n < 2 ^ 64 \<Longrightarrow> parse_u64_decimal 0 (decimal n) = Inr (word_of_nat n)"
proof (induction n rule: decimal.induct)
  case (1 n)
  then show ?case
    using push_decimal_digit[of n] by (subst decimal_rec) (auto simp: parse_u64_append simp del: parse_u64_decimal.simps(2))
qed

lemma stops_no_digit: "stops r \<Longrightarrow> r \<noteq> [] \<Longrightarrow> \<not> is_digit (hd r) \<and> hd r \<notin> {46, 101, 69}"
  by (auto simp: stops_def is_digit_def)

lemma takeWhile_digits:
  assumes "list_all is_digit ds" "stops r"
  shows "takeWhile is_digit (ds @ r) = ds" "dropWhile is_digit (ds @ r) = r"
proof -
  have "takeWhile is_digit r = [] \<and> dropWhile is_digit r = r"
    using stops_no_digit[OF assms(2)] by (cases r) auto
  then show "takeWhile is_digit (ds @ r) = ds" "dropWhile is_digit (ds @ r) = r"
    using assms(1) by (simp_all add: list_all_iff takeWhile_append2 dropWhile_append2)
qed

lemma parse_integer_decimal:
  assumes "stops r"
  shows "parse_integer_part (decimal n @ r) = Inr (decimal n, r)"
proof -
  obtain d ds where d: "decimal n = d # ds" using decimal_digits[of n] by (cases "decimal n") auto
  have digits: "is_digit d" "list_all is_digit ds" using decimal_digits[of n] d by auto
  show ?thesis
  proof (cases "d = 48")
    case True
    then have "n = 0" using decimal_head[of n] d by auto
    then have "ds = []" using d by (simp add: decimal.simps[of 0])
    then show ?thesis using True d stops_no_digit[OF assms] by (auto simp: parse_integer_part_def)
  next
    case False
    then show ?thesis using digits d takeWhile_digits[OF digits(2) assms] by (simp add: parse_integer_part_def)
  qed
qed

lemma after_integer:
  assumes "stops r"
  shows "parse_fraction r = Inr (False, r)" "parse_exponent r = Inr (False, r)"
  using stops_no_digit[OF assms] by (cases r; auto simp: parse_fraction_def parse_exponent_def)+

lemma decimal_not_minus: "consume 45 (decimal n @ r) = None"
proof -
  obtain d ds where "decimal n = d # ds" "is_digit d" using decimal_digits[of n] by (cases "decimal n") auto
  then show ?thesis by (auto simp: is_digit_def)
qed

lemma parse_decimal:
  assumes "stops r" "m < 2 ^ 64"
  shows "parse_number (decimal m @ r) = Inr (Number (Unsigned (word_of_nat m)), r)"
  using parse_integer_decimal[OF assms(1)] after_integer[OF assms(1)] decimal_not_minus assms(2)
  by (simp add: parse_number_def parse_u64_decimal)

lemma parse_minus_decimal:
  assumes "stops r" "m \<le> 2 ^ 63"
  shows "parse_number (45 # decimal m @ r) = Inr (Number (Signed (- word_of_nat m)), r)"
proof -
  have d: "parse_u64_decimal 0 (decimal m) = Inr (word_of_nat m)"
    by (rule parse_u64_decimal) (use assms(2) in simp)
  have u: "unat (word_of_nat m :: u64) = m" by (rule unat_small) (use assms(2) in simp)
  show ?thesis
  proof (cases "m = 2 ^ 63")
    case True
    then show ?thesis
      using parse_integer_decimal[OF assms(1)] after_integer[OF assms(1)] d by (simp add: parse_number_def)
  next
    case False
    then show ?thesis
      using parse_integer_decimal[OF assms(1)] after_integer[OF assms(1)] d u assms(2)
      by (simp add: parse_number_def)
  qed
qed

lemma sint_nonneg: "0 \<le> sint (w :: 64 word) \<Longrightarrow> nat (sint w) = unat w"
proof -
  assume "0 \<le> sint w"
  moreover have "sint w < 2 ^ 63" using sint_lt[of w] by simp
  ultimately have "uint w = sint w" by (simp add: uint_sint take_bit_int_eq_self)
  then show ?thesis by (simp add: unat_eq_nat_uint)
qed

lemma parse_number_bytes:
  assumes "stops r"
  shows "parse_number (number_bytes n @ r) = Inr (normalize (Number n), r)"
proof (cases n)
  case (Unsigned w)
  then show ?thesis
    using parse_decimal[OF assms, of "unat w"] unsigned_less[of w] by (simp add: number_bytes_def)
next
  case (Signed w)
  show ?thesis
  proof (cases "sint w < 0")
    case False
    then have "nat (sint w) = unat w" by (simp add: sint_nonneg)
    then show ?thesis
      using parse_decimal[OF assms, of "unat w"] Signed False unsigned_less[of w] by (simp add: number_bytes_def)
  next
    case True
    have "word_of_nat (nat (- sint w)) = - w"
      using True by (simp add: of_nat_nat)
    moreover have "nat (- sint w) \<le> 2 ^ 63" using sint_ge[of w] by simp
    ultimately show ?thesis
      using parse_minus_decimal[OF assms, of "nat (- sint w)"] Signed True by (simp add: number_bytes_def)
  qed
qed

section \<open>Strings\<close>

lemma escape_simps: "escape [] = []" "escape (b # bs) = (if b = 34 \<or> b = 92 then [92, b] else [b]) @ escape bs"
  by (simp_all add: escape_def)

lemma parse_escape_self:
  "parse_escape 34 r = Inr (34, r)" "parse_escape 92 r = Inr (92, r)"
  by (simp_all add: parse_escape_def simple_escape_def)

lemma string_loop_escape:
  "list_all is_printable s \<Longrightarrow> length out + length s \<le> MAX_STRING_BYTES \<Longrightarrow>
   string_loop out (escape s @ 34 # r) = Inr (out @ s, r)"
proof (induction s arbitrary: out)
  case Nil
  then show ?case by (simp add: escape_simps)
next
  case (Cons b s)
  have push: "push_printable_ascii out b = Inr (out @ [b])"
    using Cons.prems by (auto simp: push_printable_ascii_def)
  have rest: "string_loop (out @ [b]) (escape s @ 34 # r) = Inr ((out @ [b]) @ s, r)"
    by (rule Cons.IH) (use Cons.prems in simp_all)
  show ?case
  proof (cases "b = 34 \<or> b = 92")
    case True
    then show ?thesis using push rest by (auto simp: escape_simps parse_escape_self)
  next
    case False
    then show ?thesis using push rest Cons.prems(1) by (simp add: escape_simps)
  qed
qed

lemma parse_string_bytes:
  "string_ok s \<Longrightarrow> parse_string (enc_string s @ r) = Inr (s, r)"
  using string_loop_escape[of s "[]" r]
  by (simp add: string_ok_def parse_string_def enc_string_def require_byte_def)

section \<open>First bytes\<close>

definition starts_value :: "bytes \<Rightarrow> bool" where
  "starts_value bs \<longleftrightarrow> bs \<noteq> [] \<and> hd bs \<notin> {32, 9, 10, 13, 44, 58, 93, 125}"

lemma decimal_starts: "starts_value (decimal n)"
  using decimal_digits[of n] by (cases "decimal n") (auto simp: starts_value_def is_digit_def)

lemma enc_starts: "starts_value (enc v)"
proof (cases v)
  case (Number n)
  then show ?thesis
    using decimal_starts by (auto simp: enc_simps number_bytes_def starts_value_def split: CanonicalJsonNumberV1.split)
qed (simp_all add: enc_simps as_bytes_literals enc_string_def starts_value_def)

lemma starts_append: "starts_value bs \<Longrightarrow> starts_value (bs @ r)"
  by (auto simp: starts_value_def)

lemma enc_entry_starts: "starts_value (enc_entry e)"
  by (cases e) (simp add: enc_entry_def enc_string_def starts_value_def)

lemma starts_no_skip:
  "starts_value bs \<Longrightarrow> skip_whitespace bs = bs"
  by (cases bs) (auto simp: starts_value_def skip_whitespace_def)

lemma starts_no_close:
  assumes "starts_value bs"
  shows "consume 93 bs = None" "consume 125 bs = None"
  using assms by (cases bs; auto simp: starts_value_def)+

lemma join_starts: "xs \<noteq> [] \<Longrightarrow> starts_value (hd xs) \<Longrightarrow> starts_value (join xs)"
  by (cases xs rule: join.cases) (auto intro: starts_append)

lemma skip_punctuation: "b \<in> {44, 93, 125} \<Longrightarrow> skip_whitespace (b # r) = b # r"
  by (auto simp: skip_whitespace_def)

end
