(* ===== verification/Json_Exact.thy ===== *)
theory Json_Exact
  imports Json_Parse
begin

text \<open>
  The container loops of the canonical JSON parser, proved against the contract of the function
  that parses one element (\<open>element_parser\<close>); \<open>parse_value\<close> at every depth is an instance. From it:
  the parser accepts exactly the encodings of the well-formed values.
\<close>

section \<open>Order of keys\<close>

lemma bytes_less_irrefl: "\<not> bytes_less k k"
  by (induction k) auto

lemma bytes_less_Nil [simp]: "\<not> bytes_less k []"
  by (cases k) auto

lemma bytes_less_asym: "bytes_less k l \<Longrightarrow> \<not> bytes_less l k"
  by (induction k l rule: bytes_less.induct) auto

lemma bytes_less_trans: "bytes_less k l \<Longrightarrow> bytes_less l m \<Longrightarrow> bytes_less k m"
proof (induction k l arbitrary: m rule: bytes_less.induct)
  case (1 ys)
  then show ?case by (cases m) (auto)
next
  case (3 x xs y ys)
  then show ?case by (cases m) (auto split: if_splits)
qed simp

lemma bytes_less_total: "k \<noteq> l \<Longrightarrow> \<not> bytes_less k l \<Longrightarrow> bytes_less l k"
  by (induction k l rule: bytes_less.induct) auto

lemma entry_insert_last:
  "(\<And>l. l \<in> set (map fst e) \<Longrightarrow> bytes_less l k) \<Longrightarrow> entry_insert k v e = e @ [(k, v)]"
proof (induction e)
  case (Cons x e)
  obtain l w where x: "x = (l, w)" by (cases x)
  have "bytes_less l k" using Cons.prems[of l] x by simp
  then have "\<not> bytes_less k l" "k \<noteq> l" using bytes_less_asym bytes_less_irrefl by auto
  then show ?case using Cons x by simp
qed simp

lemma set_entry_insert: "k \<notin> set (map fst e) \<Longrightarrow> set (entry_insert k v e) = insert (k, v) (set e)"
  by (induction k v e rule: entry_insert.induct) auto

lemma length_entry_insert: "k \<notin> set (map fst e) \<Longrightarrow> length (entry_insert k v e) = Suc (length e)"
  by (induction k v e rule: entry_insert.induct) auto

lemma sorted_entry_insert:
  "k \<notin> set (map fst e) \<Longrightarrow> sorted_wrt bytes_less (map fst e) \<Longrightarrow> sorted_wrt bytes_less (map fst (entry_insert k v e))"
proof (induction k v e rule: entry_insert.induct)
  case (2 k v l w kvs)
  show ?case
  proof (cases "bytes_less k l")
    case True
    then show ?thesis using 2(3) bytes_less_trans by fastforce
  next
    case False
    then have "bytes_less l k" using 2(2) bytes_less_total by auto
    moreover have "sorted_wrt bytes_less (map fst (entry_insert k v kvs))"
      using 2 False by auto
    ultimately show ?thesis
      using 2(2,3) False set_entry_insert[of k kvs v] by auto
  qed
qed simp

section \<open>What the pieces return\<close>

lemma skip_length: "length (skip_whitespace bs) \<le> length bs"
  by (simp add: skip_whitespace_def length_dropWhile_le)

lemma consume_Some: "consume b bs = Some r \<longleftrightarrow> bs = b # r"
  by (cases bs) auto

lemma require_byte_result: "require_byte b bs = Inr r \<longleftrightarrow> bs = b # r"
  by (simp add: require_byte_def consume_Some)

lemma push_printable_result:
  "push_printable_ascii out b = Inr out' \<Longrightarrow> string_ok out \<Longrightarrow> string_ok out'"
  by (auto simp: push_printable_ascii_def string_ok_def split: if_splits)

lemma string_loop_result:
  "string_loop out bs = Inr (s, r) \<Longrightarrow> string_ok out \<Longrightarrow> string_ok s \<and> length r < length bs"
proof (induction out bs arbitrary: s r rule: string_loop.induct)
  case (2 decoded b bs)
  show ?case
  proof (cases "b = 34")
    case True
    then show ?thesis using 2(3,4) by simp
  next
    case no_quote: False
    show ?thesis
    proof (cases "b = 92")
      case True
      then show ?thesis
        using 2 no_quote by (fastforce dest: parse_escape_shorter push_printable_result split: list.splits sum.splits)
    next
      case False
      then show ?thesis
        using 2 no_quote by (fastforce dest: push_printable_result split: sum.splits if_splits)
    qed
  qed
qed simp

lemma parse_string_result: "parse_string bs = Inr (s, r) \<Longrightarrow> string_ok s \<and> length r < length bs"
  by (auto simp: parse_string_def and_then_eq_Inr require_byte_result string_ok_def dest!: string_loop_result)

lemma dropWhile_shorter: "length (dropWhile f bs) \<le> length bs"
  by (simp add: length_dropWhile_le)

lemma integer_part_shorter: "parse_integer_part bs = Inr (d, r) \<Longrightarrow> length r < length bs"
  by (cases bs) (auto simp: parse_integer_part_def less_Suc_eq_le dropWhile_shorter split: if_splits)

lemma require_digits_shorter: "require_digits bs = Inr r \<Longrightarrow> length r \<le> length bs"
  by (auto simp: require_digits_def dropWhile_shorter split: if_splits)

lemma fraction_shorter: "parse_fraction bs = Inr (f, r) \<Longrightarrow> length r \<le> length bs"
  by (auto simp: parse_fraction_def and_then_eq_Inr consume_Some dest: require_digits_shorter split: option.splits)

lemma exponent_shorter: "parse_exponent bs = Inr (e, r) \<Longrightarrow> length r \<le> length bs"
  by (auto simp: parse_exponent_def and_then_eq_Inr split: list.splits if_splits dest!: require_digits_shorter)

lemma parse_number_result: "parse_number bs = Inr (v, r) \<Longrightarrow> fits n v \<and> length r < length bs"
proof -
  assume p: "parse_number bs = Inr (v, r)"
  obtain neg r0 where sign: "(case consume 45 bs of Some r \<Rightarrow> (True, r) | None \<Rightarrow> (False, bs)) = (neg, r0)"
    by (cases "case consume 45 bs of Some r \<Rightarrow> (True, r) | None \<Rightarrow> (False, bs)")
  then have "length r0 \<le> length bs" by (auto simp: consume_Some split: option.splits)
  moreover obtain d r1 f r2 e where parts: "parse_integer_part r0 = Inr (d, r1)" "parse_fraction r1 = Inr (f, r2)"
      "parse_exponent r2 = Inr (e, r)" and "\<exists>m. v = Number m"
    using p sign by (fastforce simp: parse_number_def and_then_eq_Inr split: if_splits)
  moreover have "fits n (Number m)" for m by (cases n) simp_all
  ultimately show ?thesis
    using integer_part_shorter[OF parts(1)] fraction_shorter[OF parts(2)] exponent_shorter[OF parts(3)] by auto
qed

lemma literal_shorter: "require_literal lit bs = Inr r \<Longrightarrow> lit \<noteq> [] \<Longrightarrow> bs \<noteq> [] \<Longrightarrow> length r < length bs"
  by (auto simp: require_literal_def split: if_splits)

lemma as_bytes_eq_Nil [simp]: "as_bytes s = [] \<longleftrightarrow> s = []"
  by (metis length_0_conv length_as_bytes)

text \<open>The fuel of the model is an error none of the pieces raises.\<close>

definition answers :: "('a, parse_error) result \<Rightarrow> bool" where
  "answers r \<longleftrightarrow> r \<noteq> Inl OutOfFuel"

lemma answers_intros [simp, intro]: "answers (Inr x)" "answers (Inl (Kind k))" "answers (ok_or o1 (Kind k))"
  by (auto simp: answers_def)

lemma answers_and_then [intro!]:
  "answers r \<Longrightarrow> (\<And>x. r = Inr x \<Longrightarrow> answers (f x)) \<Longrightarrow> answers (and_then r f)"
  by (auto simp: answers_def and_then_eq_Inl)

lemma require_byte_answers [simp, intro]: "answers (require_byte b bs)"
  by (simp add: require_byte_def)

lemma hex_digits_answers [simp, intro]: "answers (parse_hex_digits n v bs)"
  by (induction n v bs rule: parse_hex_digits.induct) (auto split: option.split)

lemma unicode_escape_answers [simp, intro]: "answers (parse_unicode_escape bs)"
  unfolding parse_unicode_escape_def parse_hex_quad_def by (auto split: if_split prod.split)

lemma escape_answers [simp, intro]: "answers (parse_escape e bs)"
  unfolding parse_escape_def by (auto split: option.split)

lemma push_answers [simp, intro]: "answers (push_printable_ascii out b)"
  by (simp add: push_printable_ascii_def)

lemma answers_case:
  "answers r \<Longrightarrow> (\<And>x. r = Inr x \<Longrightarrow> answers (f x)) \<Longrightarrow> answers (case r of Inl e \<Rightarrow> Inl e | Inr x \<Rightarrow> f x)"
  by (auto simp: answers_def split: sum.split)

lemma string_loop_answers [simp, intro]: "answers (string_loop out bs)"
proof (induction out bs rule: string_loop.induct)
  case (2 decoded b bs)
  then show ?case
    by (auto intro!: answers_case split: list.split prod.split)
qed simp

lemma parse_string_answers [simp, intro]: "answers (parse_string bs)"
  unfolding parse_string_def by auto

lemma u64_decimal_answers [simp, intro]: "answers (parse_u64_decimal v ds)"
  by (induction v ds rule: parse_u64_decimal.induct) auto

lemma require_digits_answers [simp, intro]: "answers (require_digits bs)"
  by (simp add: require_digits_def)

lemma integer_part_answers [simp, intro]: "answers (parse_integer_part bs)"
  by (auto simp: parse_integer_part_def split: list.split)

lemma fraction_answers [simp, intro]: "answers (parse_fraction bs)"
  by (auto simp: parse_fraction_def split: option.split)

lemma exponent_answers [simp, intro]: "answers (parse_exponent bs)"
  by (auto simp: parse_exponent_def split: list.split)

lemma parse_number_answers [simp, intro]: "answers (parse_number bs)"
  unfolding parse_number_def by (auto split: prod.split)

lemma literal_answers [simp, intro]: "answers (require_literal lit bs)"
  by (simp add: require_literal_def)

lemma parse_null_answers [simp, intro]: "answers (parse_null policy bs)"
  unfolding parse_null_def by auto

section \<open>The contract of one element\<close>

definition nulls_ok :: "CanonicalJsonNullPolicyV1 \<Rightarrow> CanonicalJsonValueV1 \<Rightarrow> bool" where
  "nulls_ok policy v \<longleftrightarrow> (policy = Forbid \<longrightarrow> null_free v)"

locale element_parser =
  fixes policy :: CanonicalJsonNullPolicyV1
    and n :: nat
    and element :: "bytes \<Rightarrow> CanonicalJsonValueV1 parsed"
  assumes complete:
      "fits n v \<Longrightarrow> nulls_ok policy v \<Longrightarrow> stops r \<Longrightarrow> element (enc v @ r) = Inr (normalize v, r)"
    and sound: "element bs = Inr (v, r) \<Longrightarrow> fits n v \<and> length r < length bs"
    and no_fuel: "answers (element bs)"
begin

lemma array_loop_complete:
  assumes "ws \<noteq> []" "length ws \<le> fuel" "list_all (fits n) ws" "list_all (nulls_ok policy) ws"
  shows "array_loop element fuel vs (join (map enc ws) @ 93 # r) = Inr (Array (vs @ map normalize ws), r)"
  using assms
proof (induction ws arbitrary: fuel vs)
  case (Cons w ws)
  obtain f where f: "fuel = Suc f" using Cons.prems by (cases fuel) auto
  show ?case
  proof (cases ws)
    case Nil
    then show ?thesis using Cons.prems f complete[of w "93 # r"] by (simp add: stops_def skip_punctuation)
  next
    case (Cons w2 ws2)
    let ?rest = "join (map enc ws) @ 93 # r"
    have "element (enc w @ 44 # ?rest) = Inr (normalize w, 44 # ?rest)"
      using Cons.prems by (intro complete) (auto simp: stops_def)
    moreover have "skip_whitespace ?rest = ?rest"
      using Cons by (intro starts_no_skip starts_append join_starts) (auto simp: enc_starts)
    moreover have "array_loop element f (vs @ [normalize w]) ?rest = Inr (Array ((vs @ [normalize w]) @ map normalize ws), r)"
      by (rule Cons.IH) (use Cons.prems f Cons in auto)
    ultimately show ?thesis using f Cons by (simp add: skip_punctuation require_byte_def)
  qed
qed simp

lemma object_loop_complete:
  assumes "kvs \<noteq> []" "length kvs \<le> fuel" "list_all (\<lambda>(k, v). string_ok k \<and> fits n v) kvs"
    "list_all (\<lambda>(k, v). nulls_ok policy v) kvs" "sorted_wrt bytes_less (map fst (e @ kvs))"
    "length e + length kvs \<le> MAX_OBJECT_KEYS"
  shows "object_loop element fuel e (join (map enc_entry kvs) @ 125 # r) =
    Inr (Object (e @ map (\<lambda>(k, v). (k, normalize v)) kvs), r)"
  using assms
proof (induction kvs arbitrary: fuel e)
  case (Cons x kvs)
  obtain f where f: "fuel = Suc f" using Cons.prems by (cases fuel) auto
  obtain k v where x: "x = (k, v)" by (cases x)
  have below: "bytes_less l k" if "l \<in> set (map fst e)" for l
    using Cons.prems(5) that x by (auto simp: sorted_wrt_append)
  have fresh: "k \<notin> set (map fst e)" using below bytes_less_irrefl by blast
  have ins: "entry_insert k (normalize v) e = e @ [(k, normalize v)]"
    using below by (rule entry_insert_last)
  have skip: "skip_whitespace (enc v @ t) = enc v @ t" for t
    by (intro starts_no_skip starts_append enc_starts)
  have colon: "skip_whitespace (58 # t) = 58 # t" for t by (simp add: skip_whitespace_def)
  have key: "parse_string (enc_string k @ t) = Inr (k, t)" for t
    using Cons.prems(3) x by (intro parse_string_bytes) simp
  have quote: "hd (enc_string k @ t) = 34" "enc_string k @ t \<noteq> []" for t by (simp_all add: enc_string_def)
  have elem: "element (enc v @ t) = Inr (normalize v, t)" if "stops t" for t
    using Cons.prems(3,4) x that by (intro complete) auto
  note steps = fresh ins skip colon key quote elem skip_punctuation require_byte_def
  have room: "length e \<noteq> MAX_OBJECT_KEYS" using Cons.prems(6) by simp
  show ?case
  proof (cases kvs)
    case Nil
    then show ?thesis using f x room fresh by (simp add: enc_entry_def steps stops_def)
  next
    case (Cons y kvs2)
    let ?rest = "join (map enc_entry kvs) @ 125 # r"
    have "skip_whitespace ?rest = ?rest"
      using Cons by (intro starts_no_skip starts_append join_starts) (auto simp: enc_entry_starts)
    moreover have "object_loop element f (e @ [(k, normalize v)]) ?rest =
        Inr (Object ((e @ [(k, normalize v)]) @ map (\<lambda>(k, v). (k, normalize v)) kvs), r)"
      by (rule Cons.IH) (use Cons.prems f Cons x in auto)
    ultimately show ?thesis using f x room fresh Cons by (simp add: enc_entry_def steps stops_def)
  qed
qed simp

lemma array_loop_sound:
  "array_loop element fuel vs bs = Inr (v, r) \<Longrightarrow> list_all (fits n) vs \<Longrightarrow>
   fits (Suc n) v \<and> length r < length bs"
proof (induction fuel arbitrary: vs bs)
  case (Suc fuel)
  obtain w r0 where w: "element bs = Inr (w, r0)" using Suc.prems(1) by (auto simp: and_then_eq_Inr)
  then have "fits n w" and short: "length r0 < length bs" using sound by auto
  then have vs: "list_all (fits n) (vs @ [w])" using Suc.prems(2) by simp
  let ?r1 = "skip_whitespace r0"
  have r1: "length ?r1 < length bs" using short skip_length[of r0] by linarith
  show ?case
  proof (cases "consume 93 ?r1")
    case (Some r2)
    then have "v = Array (vs @ [w])" "r = r2" using Suc.prems(1) w by (auto simp: Let_def)
    then show ?thesis using vs Some r1 by (auto simp: consume_Some)
  next
    case None
    then obtain r2 where r2: "?r1 = 44 # r2" and
      more: "array_loop element fuel (vs @ [w]) (skip_whitespace r2) = Inr (v, r)"
      using Suc.prems(1) w by (auto simp: Let_def and_then_eq_Inr require_byte_result)
    have "length (skip_whitespace r2) < length bs" using r1 r2 skip_length[of r2] by simp
    then show ?thesis using Suc.IH[OF more vs] by auto
  qed
qed simp

lemma array_loop_fuel: "length bs < fuel \<Longrightarrow> answers (array_loop element fuel vs bs)"
proof (induction fuel arbitrary: vs bs)
  case (Suc fuel)
  have "answers (array_loop element fuel (vs @ [w]) (skip_whitespace r2))"
    if "element bs = Inr (w, r)" "skip_whitespace r = 44 # r2" for w r r2
  proof (rule Suc.IH)
    have "length r < length bs" using sound that(1) by blast
    moreover have "length r2 < length r" using that(2) skip_length[of r] by simp
    ultimately show "length (skip_whitespace r2) < fuel" using Suc.prems skip_length[of r2] by linarith
  qed
  then show ?case
    using no_fuel by (auto simp: Let_def require_byte_result split: option.split)
qed simp

lemma object_loop_sound:
  "object_loop element fuel e bs = Inr (v, r) \<Longrightarrow> fits (Suc n) (Object e) \<Longrightarrow>
   fits (Suc n) v \<and> length r < length bs"
proof (induction fuel arbitrary: e bs)
  case (Suc fuel)
  obtain k r0 r1 w r2 where key: "parse_string bs = Inr (k, r0)" and fresh: "k \<notin> set (map fst e)"
    and room: "length e \<noteq> MAX_OBJECT_KEYS" and colon: "skip_whitespace r0 = 58 # r1"
    and w: "element (skip_whitespace r1) = Inr (w, r2)"
    using Suc.prems(1) by (auto simp: and_then_eq_Inr require_byte_result split: if_splits)
  have "string_ok k" "length r0 < length bs" using parse_string_result[OF key] by auto
  moreover have "fits n w" "length r2 < length (skip_whitespace r1)" using sound[OF w] by auto
  ultimately have r2: "length r2 < length bs"
    using skip_length[of r0] skip_length[of r1] colon by simp
  let ?e = "entry_insert k w e"
  have e: "fits (Suc n) (Object ?e)"
    using Suc.prems(2) fresh room \<open>string_ok k\<close> \<open>fits n w\<close> sorted_entry_insert[OF fresh, of w]
      length_entry_insert[OF fresh, of w] set_entry_insert[OF fresh, of w] by (auto simp: list_all_iff)
  let ?r3 = "skip_whitespace r2"
  have r3: "length ?r3 < length bs" using r2 skip_length[of r2] by linarith
  have rest: "object_loop element (Suc fuel) e bs =
      (case consume 125 ?r3 of
         Some r4 \<Rightarrow> Inr (Object ?e, r4)
       | None \<Rightarrow> and_then (require_byte 44 ?r3) (\<lambda>r4. object_loop element fuel ?e (skip_whitespace r4)))"
    using Suc.prems(1) key fresh room colon w
    by (auto simp: Let_def require_byte_def split: if_splits)
  show ?case
  proof (cases "consume 125 ?r3")
    case (Some r4)
    then show ?thesis using Suc.prems(1) e r3 unfolding rest by (auto simp: consume_Some)
  next
    case None
    then obtain r4 where r4: "?r3 = 44 # r4" and
      more: "object_loop element fuel ?e (skip_whitespace r4) = Inr (v, r)"
      using Suc.prems(1) unfolding rest by (auto simp: and_then_eq_Inr require_byte_result)
    have "length (skip_whitespace r4) < length bs" using r3 r4 skip_length[of r4] by simp
    then show ?thesis using Suc.IH[OF more e] by auto
  qed
qed simp

lemma object_loop_fuel: "length bs < fuel \<Longrightarrow> answers (object_loop element fuel e bs)"
proof (induction fuel arbitrary: e bs)
  case (Suc fuel)
  have "answers (object_loop element fuel e2 (skip_whitespace r4))"
    if "parse_string bs = Inr (k, r0)" "skip_whitespace r0 = 58 # r1"
      "element (skip_whitespace r1) = Inr (w, r2)" "skip_whitespace r2 = 44 # r4" for k r0 r1 w r2 r4 e2
  proof (rule Suc.IH)
    have "length r0 < length bs" using parse_string_result that(1) by blast
    moreover have "length r2 < length (skip_whitespace r1)" using sound that(3) by blast
    moreover have "length r4 < length r2" using that(4) skip_length[of r2] by simp
    ultimately show "length (skip_whitespace r4) < fuel"
      using Suc.prems that(2) skip_length[of r0] skip_length[of r1] skip_length[of r4] by simp
  qed
  then show ?case
    using no_fuel by (auto simp: Let_def require_byte_result split: option.split)
qed simp

end

section \<open>\<open>parse_value\<close> keeps the contract at every depth\<close>

lemma literal_bytes: "require_literal lit (lit @ r) = Inr r"
  by (simp add: require_literal_def)

lemma number_bytes_head:
  "\<exists>b t. number_bytes m = b # t \<and> (b = 45 \<or> is_digit b)"
proof -
  have "\<exists>b t. decimal k = b # t \<and> is_digit b" for k
    using decimal_digits[of k] by (cases "decimal k") auto
  then show ?thesis by (fastforce simp: number_bytes_def split: CanonicalJsonNumberV1.split)
qed

lemma parse_head_complete:
  assumes "\<And>vs. v = Array vs \<Longrightarrow> array (enc v @ r) = Inr (normalize v, r)"
    and "\<And>kvs. v = Object kvs \<Longrightarrow> object (enc v @ r) = Inr (normalize v, r)"
    and "fits n v" "nulls_ok policy v" "stops r"
  shows "parse_head policy array object (enc v @ r) = Inr (normalize v, r)"
proof (cases v)
  case Null
  then have "policy \<noteq> Forbid" using assms(4) by (auto simp: nulls_ok_def)
  then show ?thesis
    using Null literal_bytes[of "as_bytes ''null''" r] by (simp add: parse_head_def parse_null_def enc_simps as_bytes_literals)
next
  case (Bool b)
  then show ?thesis
    using literal_bytes[of "as_bytes ''true''" r] literal_bytes[of "as_bytes ''false''" r]
    by (cases b) (simp_all add: parse_head_def enc_simps as_bytes_literals)
next
  case (Number m)
  obtain b t where b: "number_bytes m = b # t" "b = 45 \<or> is_digit b" using number_bytes_head by blast
  then have "b \<notin> {110, 102, 116, 34, 91, 123}" by (auto simp: is_digit_def)
  then have "parse_head policy array object (number_bytes m @ r) = parse_number (number_bytes m @ r)"
    using b by (auto simp: parse_head_def)
  then show ?thesis using Number parse_number_bytes[OF assms(5), of m] by (simp add: enc_simps)
next
  case (Text s)
  then have "string_ok s" using assms(3) by (cases n) simp_all
  from parse_string_bytes[OF this, of r] show ?thesis
    using Text by (simp add: parse_head_def enc_simps enc_string_def)
next
  case (Array vs)
  then show ?thesis using assms(1) by (simp add: parse_head_def enc_simps)
next
  case (Object kvs)
  then show ?thesis using assms(2) by (simp add: parse_head_def enc_simps)
qed

lemma parse_head_sound:
  assumes "parse_head policy array object bs = Inr (v, r)"
    and "\<And>v r. array bs = Inr (v, r) \<Longrightarrow> fits n v \<and> length r < length bs"
    and "\<And>v r. object bs = Inr (v, r) \<Longrightarrow> fits n v \<and> length r < length bs"
  shows "fits n v \<and> length r < length bs"
proof -
  have atoms: "fits n Null" "fits n (Bool b)" "fits n (Text s) = string_ok s" for b s
    by (cases n; simp)+
  obtain b t where bs: "bs = b # t" using assms(1) by (cases bs) (auto simp: parse_head_def)
  have null: "parse_null policy bs = Inr (v, r) \<Longrightarrow> v = Null \<and> length r < length bs"
    using bs by (auto simp: parse_null_def and_then_eq_Inr split: if_splits dest!: literal_shorter)
  show ?thesis
    using assms(1) bs null assms(2,3) parse_number_result[of bs v r n] atoms
    unfolding parse_head_def
    by (auto simp: and_then_eq_Inr split: if_splits dest: literal_shorter parse_string_result)
qed

lemma parse_head_answers:
  "answers (array bs) \<Longrightarrow> answers (object bs) \<Longrightarrow> answers (parse_head policy array object bs)"
  by (auto simp: parse_head_def split: list.split)

lemma length_join: "length (join xs) \<ge> length xs - 1"
  by (induction xs rule: join.induct) simp_all

context element_parser
begin

lemma parse_array_complete:
  assumes "list_all (fits n) vs" "list_all (nulls_ok policy) vs"
  shows "parse_array element (enc (Array vs) @ r) = Inr (normalize (Array vs), r)"
proof (cases "vs = []")
  case True
  then show ?thesis by (simp add: parse_array_def enc_simps skip_punctuation)
next
  case False
  let ?body = "join (map enc vs) @ 93 # r"
  have starts: "starts_value ?body"
    using False by (intro starts_append join_starts) (auto simp: enc_starts hd_map)
  have "length vs \<le> Suc (length ?body)" using length_join[of "map enc vs"] by simp
  then have "array_loop element (Suc (length ?body)) [] ?body = Inr (Array ([] @ map normalize vs), r)"
    using False assms by (intro array_loop_complete) simp_all
  then show ?thesis
    using starts_no_skip[OF starts] starts_no_close[OF starts] by (simp add: parse_array_def enc_simps)
qed

lemma parse_object_complete:
  assumes "fits (Suc n) (Object kvs)" "list_all (\<lambda>(k, v). nulls_ok policy v) kvs"
  shows "parse_object element (enc (Object kvs) @ r) = Inr (normalize (Object kvs), r)"
proof (cases "kvs = []")
  case True
  then show ?thesis by (simp add: parse_object_def enc_simps skip_punctuation)
next
  case False
  let ?body = "join (map enc_entry kvs) @ 125 # r"
  have starts: "starts_value ?body"
    using False by (intro starts_append join_starts) (auto simp: enc_entry_starts hd_map)
  have "length kvs \<le> Suc (length ?body)" using length_join[of "map enc_entry kvs"] by simp
  then have "object_loop element (Suc (length ?body)) [] ?body =
      Inr (Object ([] @ map (\<lambda>(k, v). (k, normalize v)) kvs), r)"
    using False assms by (intro object_loop_complete) simp_all
  then show ?thesis
    using starts_no_skip[OF starts] starts_no_close[OF starts] by (simp add: parse_object_def enc_simps)
qed

lemma parse_array_sound:
  assumes "parse_array element bs = Inr (v, r)" "bs \<noteq> []"
  shows "fits (Suc n) v \<and> length r < length bs"
proof -
  let ?s = "skip_whitespace (tl bs)"
  have s: "length ?s < length bs" using assms(2) skip_length[of "tl bs"] by (cases bs) auto
  show ?thesis
  proof (cases "consume 93 ?s")
    case None
    then have "array_loop element (Suc (length ?s)) [] ?s = Inr (v, r)"
      using assms(1) by (simp only: parse_array_def Let_def option.case)
    from array_loop_sound[OF this] s show ?thesis by simp
  next
    case (Some r1)
    then show ?thesis using assms(1) s by (auto simp: parse_array_def consume_Some)
  qed
qed

lemma parse_object_sound:
  assumes "parse_object element bs = Inr (v, r)" "bs \<noteq> []"
  shows "fits (Suc n) v \<and> length r < length bs"
proof -
  let ?s = "skip_whitespace (tl bs)"
  have s: "length ?s < length bs" using assms(2) skip_length[of "tl bs"] by (cases bs) auto
  show ?thesis
  proof (cases "consume 125 ?s")
    case None
    then have "object_loop element (Suc (length ?s)) [] ?s = Inr (v, r)"
      using assms(1) by (simp only: parse_object_def Let_def option.case)
    from object_loop_sound[OF this] s show ?thesis by simp
  next
    case (Some r1)
    then show ?thesis using assms(1) s by (auto simp: parse_object_def consume_Some)
  qed
qed

lemma containers_answer: "answers (parse_array element bs)" "answers (parse_object element bs)"
  by (auto simp: parse_array_def parse_object_def Let_def simp del: array_loop.simps object_loop.simps
      intro!: array_loop_fuel object_loop_fuel split: option.split)

lemma deeper:
  "element_parser policy (Suc n) (parse_head policy (parse_array element) (parse_object element))"
proof
  fix v r
  assume v: "fits (Suc n) v" "nulls_ok policy v" "stops r"
  show "parse_head policy (parse_array element) (parse_object element) (enc v @ r) = Inr (normalize v, r)"
  proof (rule parse_head_complete[OF _ _ v])
    fix vs assume vs: "v = Array vs"
    then show "parse_array element (enc v @ r) = Inr (normalize v, r)"
      using v parse_array_complete[of vs r] by (auto simp: nulls_ok_def list_all_iff)
  next
    fix kvs assume kvs: "v = Object kvs"
    then have "list_all (\<lambda>(k, w). nulls_ok policy w) kvs"
      using v(2) by (auto simp: nulls_ok_def list_all_iff)
    then show "parse_object element (enc v @ r) = Inr (normalize v, r)"
      using v(1) kvs parse_object_complete[of kvs r] by simp
  qed
next
  fix bs v r
  assume p: "parse_head policy (parse_array element) (parse_object element) bs = Inr (v, r)"
  then have "bs \<noteq> []" by (auto simp: parse_head_def)
  then show "fits (Suc n) v \<and> length r < length bs"
    using parse_array_sound parse_object_sound by (intro parse_head_sound[OF p]) auto
next
  show "answers (parse_head policy (parse_array element) (parse_object element) bs)" for bs
    by (intro parse_head_answers containers_answer)
qed

end

lemma parse_value_contract: "element_parser policy n (parse_value policy n)"
proof (induction n)
  case 0
  show ?case
  proof
    show "parse_value policy 0 (enc v @ r) = Inr (normalize v, r)" if "fits 0 v" "nulls_ok policy v" "stops r" for v r
      unfolding parse_value.simps by (rule parse_head_complete[OF _ _ that]) (use that(1) in auto)
    show "fits 0 v \<and> length r < length bs" if "parse_value policy 0 bs = Inr (v, r)" for bs v r
      using that unfolding parse_value.simps by (rule parse_head_sound) simp_all
    show "answers (parse_value policy 0 bs)" for bs
      unfolding parse_value.simps by (intro parse_head_answers) simp_all
  qed
next
  case (Suc n)
  from element_parser.deeper[OF this] show ?case by simp
qed

interpretation pv: element_parser policy n "parse_value policy n" for policy n
  by (rule parse_value_contract)

end
