(* ===== verification/Json_Canonical.thy ===== *)
theory Json_Canonical
  imports Json_Exact
begin

text \<open>
  The documents of the canonical JSON codec: which bytes \<open>parse_and_require_canonical\<close> accepts,
  where it lets a null stand, and what the counting sink counts.
\<close>

section \<open>Nulls\<close>

text \<open>The paths at which a value holds a null.\<close>

fun below_index :: "nat \<Rightarrow> ActualPathSegmentV1 list list list \<Rightarrow> ActualPathSegmentV1 list list" where
  "below_index i [] = []"
| "below_index i (ps # pss) = map ((#) (AtIndex i)) ps @ below_index (i + 1) pss"

fun null_paths :: "CanonicalJsonValueV1 \<Rightarrow> ActualPathSegmentV1 list list" where
  "null_paths Null = [[]]"
| "null_paths (Array vs) = below_index 0 (map null_paths vs)"
| "null_paths (Object kvs) = concat (map (\<lambda>(k, v). map ((#) (AtKey k)) (null_paths v)) kvs)"
| "null_paths _ = []"

lemma require_paths:
  "require_allowed_null_paths_at allowed path v \<longleftrightarrow>
     (\<forall>p\<in>set (null_paths v). list_ex (null_path_matches (path @ p)) allowed)"
  "require_elements allowed path i vs \<longleftrightarrow>
     (\<forall>p\<in>set (below_index i (map null_paths vs)).
        list_ex (null_path_matches (path @ p)) allowed)"
  "require_entries allowed path kvs \<longleftrightarrow>
     (\<forall>p\<in>set (concat (map (\<lambda>(k, v). map ((#) (AtKey k)) (null_paths v)) kvs)).
        list_ex (null_path_matches (path @ p)) allowed)"
  by (induction allowed path v and allowed path i vs and allowed path kvs
      rule: require_allowed_null_paths_at_require_elements_require_entries.induct)
    (simp_all add: ball_Un)

lemma null_free_paths: "null_free v \<longleftrightarrow> null_paths v = []"
proof (induction v rule: null_free.induct)
  case (2 vs)
  have "below_index i pss = [] \<longleftrightarrow> (\<forall>ps\<in>set pss. ps = [])" for i pss
    by (induction i pss rule: below_index.induct) auto
  then show ?case using 2 by (auto simp: list_all_iff)
next
  case (3 kvs)
  then show ?case by (fastforce simp: list_all_iff split_def)
qed simp_all

lemma require_allowed_nulls_ok: "require_allowed_null_paths v policy = Inr () \<Longrightarrow> nulls_ok policy v"
proof -
  assume "require_allowed_null_paths v policy = Inr ()"
  then have "\<forall>p\<in>set (null_paths v). list_ex (null_path_matches p) (case policy of Forbid \<Rightarrow> [] | AllowOnly ps \<Rightarrow> ps)"
    using require_paths(1)[of _ "[]" v] by (simp add: require_allowed_null_paths_def split: if_splits)
  then show ?thesis
    by (cases policy) (auto simp: nulls_ok_def null_free_paths)
qed

section \<open>Documents\<close>

lemma encode_enc: "encode_value_with_final_lf v = enc v @ [10]"
  by (simp add: encode_value_with_final_lf_def emit_value_with_final_lf_def to_vec_def enc_def)

lemma parse_document_enc:
  assumes "fits MAX_DEPTH v" "nulls_ok policy v"
  shows "parse_document (enc v) policy = Inr (normalize v)"
proof -
  have "parse_value policy MAX_DEPTH (enc v @ []) = Inr (normalize v, [])"
    by (rule pv.complete) (use assms in \<open>simp_all add: stops_def\<close>)
  then show ?thesis using starts_no_skip[OF enc_starts, of v] by (simp add: parse_document_def skip_whitespace_def)
qed

lemma parse_document_fits: "parse_document bs policy = Inr v \<Longrightarrow> fits MAX_DEPTH v"
  by (auto simp: parse_document_def and_then_eq_Inr split: if_splits dest: pv.sound)

lemma parse_document_answers: "answers (parse_document bs policy)"
  unfolding parse_document_def by (auto intro: pv.no_fuel)

lemma canonical_answers: "answers (parse_and_require_canonical bs policy)"
proof -
  have "answers (map_err Kind r)" for r :: "(unit, CanonicalJsonErrorKindV1) result"
    by (auto simp: answers_def map_err_eq_Inl)
  then show ?thesis
    unfolding parse_and_require_canonical_def by (auto intro: parse_document_answers)
qed

lemma canonical_iff:
  "parse_and_require_canonical bs policy = Inr v \<longleftrightarrow>
     fits MAX_DEPTH v \<and> normalize v = v \<and> require_allowed_null_paths v policy = Inr () \<and>
     bs = encode_value_with_final_lf v"
proof
  assume p: "parse_and_require_canonical bs policy = Inr v"
  then have d: "parse_document (butlast bs) policy = Inr v" and nulls: "require_allowed_null_paths v policy = Inr ()"
    and bs: "bs = encode_value_with_final_lf v"
    by (auto simp: parse_and_require_canonical_def and_then_eq_Inr split: if_splits)
  have "butlast bs = enc v" using bs by (simp add: encode_enc)
  then have "normalize v = v"
    using d parse_document_enc[OF parse_document_fits[OF d] require_allowed_nulls_ok[OF nulls]] by simp
  then show "fits MAX_DEPTH v \<and> normalize v = v \<and> require_allowed_null_paths v policy = Inr () \<and>
      bs = encode_value_with_final_lf v"
    using parse_document_fits[OF d] nulls bs by simp
next
  assume v: "fits MAX_DEPTH v \<and> normalize v = v \<and> require_allowed_null_paths v policy = Inr () \<and>
      bs = encode_value_with_final_lf v"
  then have "parse_document (butlast bs) policy = Inr v"
    using parse_document_enc[of v policy] require_allowed_nulls_ok[of v policy] by (simp add: encode_enc)
  then show "parse_and_require_canonical bs policy = Inr v"
    using v by (simp add: parse_and_require_canonical_def encode_enc)
qed

text \<open>C8. The parser of the store accepts a byte string exactly when it is the encoding of a value that
  keeps the store's bounds (at most 32 nested containers, printable strings of at most 4096 bytes,
  at most 256 keys in strictly ascending order), holds its non-negative integers as unsigned, and has
  a null only where the policy allows one; it then returns that value. Nothing else is accepted - no
  white space, escape, key order, duplicate key, sign, leading zero or missing line feed gives a
  second spelling of a document - and the loops of the model never run out of fuel.\<close>

theorem canonical_bytes_exact:
  "(parse_and_require_canonical bs policy = Inr v \<longleftrightarrow>
      fits MAX_DEPTH v \<and> normalize v = v \<and> require_allowed_null_paths v policy = Inr () \<and>
      bs = encode_value_with_final_lf v) \<and>
   parse_and_require_canonical bs policy \<noteq> Inl OutOfFuel"
  using canonical_iff canonical_answers by (simp add: answers_def)

section \<open>Counting\<close>

lemma count_chunks_length:
  "unat n + length (concat cs) < 2 ^ 64 \<Longrightarrow> count_chunks n cs = Inr (n + word_of_nat (length (concat cs)))"
proof (induction n cs rule: count_chunks.induct)
  case (2 n c cs)
  have c: "length c < 2 ^ 64" using 2(2) by simp
  have "unat (word_of_nat (length c) :: u64) = length c" using c by (simp add: unat_of_nat)
  then have add: "checked_add n (word_of_nat (length c)) = Some (n + word_of_nat (length c))"
    and sum: "unat (n + word_of_nat (length c)) = unat n + length c"
    using 2(2) by (simp_all add: checked_add_def unat_word_ariths)
  show ?case using 2(1)[OF c, of "n + word_of_nat (length c)"] 2(2) add sum c by (simp add: add.assoc)
qed simp

lemma count_chunks_overflow:
  "2 ^ 64 \<le> unat n + length (concat cs) \<Longrightarrow> count_chunks n cs = Inl EncodedLengthOverflow"
proof (induction n cs rule: count_chunks.induct)
  case (1 n)
  then show ?case using unat_bound_u64[of n] by simp
next
  case (2 n c cs)
  show ?case
  proof (cases "length c < 2 ^ 64 \<and> checked_add n (word_of_nat (length c)) \<noteq> None")
    case False
    then show ?thesis by auto
  next
    case True
    then obtain m where m: "checked_add n (word_of_nat (length c)) = Some m" by auto
    then have "unat m = unat n + length c"
      using checked_add_Some[OF m] True by (simp add: unat_of_nat)
    then show ?thesis using 2 m True by simp
  qed
qed

end
