(* ===== verification/Json_Serialize.thy ===== *)
theory Json_Serialize
  imports Json_Canonical
begin

text \<open>
  The serde serializer of \<^verbatim>\<open>mtg-kernel/src/canonical_json_v1.rs\<close>. A Rust value is modelled by the
  calls its \<^verbatim>\<open>Serialize\<close> implementation makes (\<open>serde\<close>), with every call of a compound made even after
  one has failed: an implementation may drop the errors it gets. The builders keep the first error.
\<close>

section \<open>The calls\<close>

datatype serde =
    Serialize_bool bool
  | Serialize_i8 "8 word" | Serialize_i16 "16 word" | Serialize_i32 "32 word" | Serialize_i64 "64 word"
  | Serialize_i128 "128 word"
  | Serialize_u8 u8 | Serialize_u16 u16 | Serialize_u32 u32 | Serialize_u64 u64 | Serialize_u128 "128 word"
  | Serialize_f32 | Serialize_f64
  | Serialize_char bytes \<comment> \<open>the bytes of \<^verbatim>\<open>encode_utf8\<close>\<close>
  | Serialize_str bytes
  | Serialize_bytes bytes
  | Serialize_none | Serialize_unit | Serialize_unit_struct
  | Serialize_some serde
  | Serialize_unit_variant bytes
  | Serialize_newtype_struct serde
  | Serialize_newtype_variant bytes serde
  | Serialize_seq "serde list" \<comment> \<open>also tuples and tuple structs\<close>
  | Serialize_tuple_variant bytes "serde list"
  | Serialize_map "map_call list"
  | Serialize_struct "(bytes \<times> serde) list"
  | Serialize_struct_variant bytes "(bytes \<times> serde) list"
and map_call = Serialize_key serde | Serialize_value serde | Serialize_entry serde serde

section \<open>Checks\<close>

definition validate_printable_ascii :: "bytes \<Rightarrow> (unit, CanonicalJsonErrorKindV1) result" where
  "validate_printable_ascii s =
     (if length s > MAX_STRING_BYTES then Inl StringTooLong
      else if \<not> list_all is_printable s then Inl NonPrintableAscii
      else Inr ())"

definition checked_container_depth :: "nat \<Rightarrow> (nat, CanonicalJsonErrorKindV1) result" where
  "checked_container_depth d = (if d = MAX_DEPTH then Inl DepthTooDeep else Inr (d + 1))"

definition i64_try_from :: "128 word \<Rightarrow> (64 word, CanonicalJsonErrorKindV1) result" where
  "i64_try_from w =
     (if - (2 ^ 63) \<le> sint w \<and> sint w < 2 ^ 63 then Inr (ucast w) else Inl IntegerOutOfRange)"

definition u64_try_from :: "128 word \<Rightarrow> (u64, CanonicalJsonErrorKindV1) result" where
  "u64_try_from w = (if unat w < 2 ^ 64 then Inr (ucast w) else Inl IntegerOutOfRange)"

definition singleton_object :: "bytes \<Rightarrow> CanonicalJsonValueV1 \<Rightarrow> CanonicalJsonValueV1" where
  "singleton_object k v = Object [(k, v)]"

section \<open>The builders of compounds\<close>

record CompoundSerializerStateV1 =
  first_error :: "CanonicalJsonErrorKindV1 option"

definition fresh_state :: CompoundSerializerStateV1 where
  "fresh_state = \<lparr>first_error = None\<rparr>"

definition require_usable :: "CompoundSerializerStateV1 \<Rightarrow> (unit, CanonicalJsonErrorKindV1) result" where
  "require_usable s = (case first_error s of Some e \<Rightarrow> Inl e | None \<Rightarrow> Inr ())"

definition record_result ::
  "('a, CanonicalJsonErrorKindV1) result \<Rightarrow> CompoundSerializerStateV1
    \<Rightarrow> ('a, CanonicalJsonErrorKindV1) result \<times> CompoundSerializerStateV1" where
  "record_result r s =
     (case first_error s of
        Some e \<Rightarrow> (Inl e, s)
      | None \<Rightarrow> (case r of Inr a \<Rightarrow> (Inr a, s) | Inl e \<Rightarrow> (Inl e, s\<lparr>first_error := Some e\<rparr>)))"

record SequenceSerializerV1 =
  seq_values :: "CanonicalJsonValueV1 list"
  seq_depth :: nat
  seq_state :: CompoundSerializerStateV1

definition new_sequence :: "nat \<Rightarrow> SequenceSerializerV1" where
  "new_sequence d = \<lparr>seq_values = [], seq_depth = d, seq_state = fresh_state\<rparr>"

text \<open>The second argument is the serialized element.\<close>

definition push ::
  "SequenceSerializerV1 \<Rightarrow> (CanonicalJsonValueV1, CanonicalJsonErrorKindV1) result
    \<Rightarrow> (unit, CanonicalJsonErrorKindV1) result \<times> SequenceSerializerV1" where
  "push b r =
     (case require_usable (seq_state b) of
        Inl e \<Rightarrow> (Inl e, b)
      | Inr _ \<Rightarrow>
          (case record_result r (seq_state b) of
             (Inl e, s) \<Rightarrow> (Inl e, b\<lparr>seq_state := s\<rparr>)
           | (Inr v, s) \<Rightarrow> (Inr (), b\<lparr>seq_state := s, seq_values := seq_values b @ [v]\<rparr>)))"

definition finish_sequence :: "SequenceSerializerV1 \<Rightarrow> (CanonicalJsonValueV1, CanonicalJsonErrorKindV1) result" where
  "finish_sequence b = and_then (require_usable (seq_state b)) (\<lambda>_. Inr (Array (seq_values b)))"

record ObjectSerializerV1 =
  obj_values :: "(bytes \<times> CanonicalJsonValueV1) list"
  pending_key :: "bytes option"
  obj_depth :: nat
  obj_state :: CompoundSerializerStateV1

definition new_object :: "nat \<Rightarrow> ObjectSerializerV1" where
  "new_object d = \<lparr>obj_values = [], pending_key = None, obj_depth = d, obj_state = fresh_state\<rparr>"

definition accept_key :: "ObjectSerializerV1 \<Rightarrow> bytes \<Rightarrow> (unit, CanonicalJsonErrorKindV1) result" where
  "accept_key b k =
     (if k \<in> set (map fst (obj_values b)) \<or> pending_key b = Some k then Inl DuplicateObjectKey
      else if length (obj_values b) = MAX_OBJECT_KEYS then Inl ObjectTooLarge
      else Inr ())"

text \<open>One operation of a builder: its steps run in order on the recorded state, the first error ends it.\<close>

definition obj_record ::
  "('a, CanonicalJsonErrorKindV1) result \<Rightarrow> ObjectSerializerV1
    \<Rightarrow> ('a, CanonicalJsonErrorKindV1) result \<times> ObjectSerializerV1" where
  "obj_record r b = (let (r1, s) = record_result r (obj_state b) in (r1, b\<lparr>obj_state := s\<rparr>))"

definition fail_object :: "CanonicalJsonErrorKindV1 \<Rightarrow> ObjectSerializerV1
    \<Rightarrow> (unit, CanonicalJsonErrorKindV1) result \<times> ObjectSerializerV1" where
  "fail_object kind b = obj_record (Inl kind) b"

definition store_entry ::
  "bytes \<Rightarrow> (CanonicalJsonValueV1, CanonicalJsonErrorKindV1) result \<Rightarrow> ObjectSerializerV1
    \<Rightarrow> (unit, CanonicalJsonErrorKindV1) result \<times> ObjectSerializerV1" where
  "store_entry k r b =
     (case obj_record r b of
        (Inl e, b1) \<Rightarrow> (Inl e, b1)
      | (Inr v, b1) \<Rightarrow> (Inr (), b1\<lparr>obj_values := entry_insert k v (obj_values b1)\<rparr>))"

definition insert_entry ::
  "bytes \<Rightarrow> (CanonicalJsonValueV1, CanonicalJsonErrorKindV1) result \<Rightarrow> ObjectSerializerV1
    \<Rightarrow> (unit, CanonicalJsonErrorKindV1) result \<times> ObjectSerializerV1" where
  "insert_entry k r b =
     (case require_usable (obj_state b) of
        Inl e \<Rightarrow> (Inl e, b)
      | Inr _ \<Rightarrow>
          if pending_key b \<noteq> None then fail_object Serialization b
          else
            (case obj_record (accept_key b k) b of
               (Inl e, b1) \<Rightarrow> (Inl e, b1)
             | (Inr _, b1) \<Rightarrow> store_entry k r b1))"

definition finish_object :: "ObjectSerializerV1 \<Rightarrow> (CanonicalJsonValueV1, CanonicalJsonErrorKindV1) result" where
  "finish_object b =
     and_then (require_usable (obj_state b)) (\<lambda>_.
       if pending_key b \<noteq> None then Inl Serialization else Inr (Object (obj_values b)))"

definition put_key ::
  "(bytes, CanonicalJsonErrorKindV1) result \<Rightarrow> ObjectSerializerV1
    \<Rightarrow> (unit, CanonicalJsonErrorKindV1) result \<times> ObjectSerializerV1" where
  "put_key key b =
     (case require_usable (obj_state b) of
        Inl e \<Rightarrow> (Inl e, b)
      | Inr _ \<Rightarrow>
          if pending_key b \<noteq> None then fail_object Serialization b
          else
            (case obj_record key b of
               (Inl e, b1) \<Rightarrow> (Inl e, b1)
             | (Inr k, b1) \<Rightarrow>
                 (case obj_record (accept_key b1 k) b1 of
                    (Inl e, b2) \<Rightarrow> (Inl e, b2)
                  | (Inr _, b2) \<Rightarrow> (Inr (), b2\<lparr>pending_key := Some k\<rparr>))))"

definition put_value ::
  "(CanonicalJsonValueV1, CanonicalJsonErrorKindV1) result \<Rightarrow> ObjectSerializerV1
    \<Rightarrow> (unit, CanonicalJsonErrorKindV1) result \<times> ObjectSerializerV1" where
  "put_value r b =
     (case require_usable (obj_state b) of
        Inl e \<Rightarrow> (Inl e, b)
      | Inr _ \<Rightarrow>
          (case pending_key b of
             None \<Rightarrow> fail_object Serialization b
           | Some k \<Rightarrow> store_entry k r (b\<lparr>pending_key := None\<rparr>)))"

definition put_entry ::
  "(bytes, CanonicalJsonErrorKindV1) result \<Rightarrow> (CanonicalJsonValueV1, CanonicalJsonErrorKindV1) result
    \<Rightarrow> ObjectSerializerV1 \<Rightarrow> (unit, CanonicalJsonErrorKindV1) result \<times> ObjectSerializerV1" where
  "put_entry key r b =
     (case require_usable (obj_state b) of
        Inl e \<Rightarrow> (Inl e, b)
      | Inr _ \<Rightarrow>
          (case obj_record key b of
             (Inl e, b1) \<Rightarrow> (Inl e, b1)
           | (Inr k, b1) \<Rightarrow> insert_entry k r b1))"

definition put_field ::
  "bytes \<Rightarrow> (CanonicalJsonValueV1, CanonicalJsonErrorKindV1) result
    \<Rightarrow> ObjectSerializerV1 \<Rightarrow> (unit, CanonicalJsonErrorKindV1) result \<times> ObjectSerializerV1" where
  "put_field k r b =
     (case require_usable (obj_state b) of
        Inl e \<Rightarrow> (Inl e, b)
      | Inr _ \<Rightarrow>
          (case obj_record (validate_printable_ascii k) b of
             (Inl e, b1) \<Rightarrow> (Inl e, b1)
           | (Inr _, b1) \<Rightarrow> insert_entry k r b1))"

section \<open>The serializers\<close>

definition checked_key :: "bytes \<Rightarrow> (bytes, CanonicalJsonErrorKindV1) result" where
  "checked_key k = and_then (validate_printable_ascii k) (\<lambda>_. Inr k)"

definition key_i64 :: "64 word \<Rightarrow> (bytes, CanonicalJsonErrorKindV1) result" where
  "key_i64 w = checked_key (number_bytes (Signed w))"

definition key_u64 :: "u64 \<Rightarrow> (bytes, CanonicalJsonErrorKindV1) result" where
  "key_u64 w = checked_key (number_bytes (Unsigned w))"

fun serialize_map_key :: "serde \<Rightarrow> (bytes, CanonicalJsonErrorKindV1) result" where
  "serialize_map_key (Serialize_bool b) = checked_key (if b then as_bytes ''true'' else as_bytes ''false'')"
| "serialize_map_key (Serialize_i8 w) = key_i64 (scast w)"
| "serialize_map_key (Serialize_i16 w) = key_i64 (scast w)"
| "serialize_map_key (Serialize_i32 w) = key_i64 (scast w)"
| "serialize_map_key (Serialize_i64 w) = key_i64 w"
| "serialize_map_key (Serialize_i128 w) = and_then (i64_try_from w) key_i64"
| "serialize_map_key (Serialize_u8 w) = key_u64 (ucast w)"
| "serialize_map_key (Serialize_u16 w) = key_u64 (ucast w)"
| "serialize_map_key (Serialize_u32 w) = key_u64 (ucast w)"
| "serialize_map_key (Serialize_u64 w) = key_u64 w"
| "serialize_map_key (Serialize_u128 w) = and_then (u64_try_from w) key_u64"
| "serialize_map_key Serialize_f32 = Inl FloatingPointForbidden"
| "serialize_map_key Serialize_f64 = Inl FloatingPointForbidden"
| "serialize_map_key (Serialize_char s) = checked_key s"
| "serialize_map_key (Serialize_str s) = checked_key s"
| "serialize_map_key (Serialize_some x) = serialize_map_key x"
| "serialize_map_key (Serialize_unit_variant s) = checked_key s"
| "serialize_map_key (Serialize_newtype_struct x) = serialize_map_key x"
| "serialize_map_key _ = Inl Serialization"

definition serialize_string :: "bytes \<Rightarrow> (CanonicalJsonValueV1, CanonicalJsonErrorKindV1) result" where
  "serialize_string s = and_then (validate_printable_ascii s) (\<lambda>_. Inr (Text s))"

text \<open>\<open>serialize d\<close> is \<^verbatim>\<open>ValueSerializerV1\<close> at containing depth \<open>d\<close>; the other three functions run the
  calls on a builder.\<close>

fun serialize :: "nat \<Rightarrow> serde \<Rightarrow> (CanonicalJsonValueV1, CanonicalJsonErrorKindV1) result"
  and serialize_elements :: "SequenceSerializerV1 \<Rightarrow> serde list \<Rightarrow> SequenceSerializerV1"
  and serialize_calls :: "ObjectSerializerV1 \<Rightarrow> map_call list \<Rightarrow> ObjectSerializerV1"
  and serialize_fields :: "ObjectSerializerV1 \<Rightarrow> (bytes \<times> serde) list \<Rightarrow> ObjectSerializerV1"
  where
  "serialize d (Serialize_bool b) = Inr (Bool b)"
| "serialize d (Serialize_i8 w) = Inr (Number (Signed (scast w)))"
| "serialize d (Serialize_i16 w) = Inr (Number (Signed (scast w)))"
| "serialize d (Serialize_i32 w) = Inr (Number (Signed (scast w)))"
| "serialize d (Serialize_i64 w) = Inr (Number (Signed w))"
| "serialize d (Serialize_i128 w) = and_then (i64_try_from w) (\<lambda>v. Inr (Number (Signed v)))"
| "serialize d (Serialize_u8 w) = Inr (Number (Unsigned (ucast w)))"
| "serialize d (Serialize_u16 w) = Inr (Number (Unsigned (ucast w)))"
| "serialize d (Serialize_u32 w) = Inr (Number (Unsigned (ucast w)))"
| "serialize d (Serialize_u64 w) = Inr (Number (Unsigned w))"
| "serialize d (Serialize_u128 w) = and_then (u64_try_from w) (\<lambda>v. Inr (Number (Unsigned v)))"
| "serialize d Serialize_f32 = Inl FloatingPointForbidden"
| "serialize d Serialize_f64 = Inl FloatingPointForbidden"
| "serialize d (Serialize_char s) = serialize_string s"
| "serialize d (Serialize_str s) = serialize_string s"
| "serialize d (Serialize_bytes bs) =
     and_then (checked_container_depth d) (\<lambda>_. Inr (Array (map (\<lambda>b. Number (Unsigned (ucast b))) bs)))"
| "serialize d Serialize_none = Inr Null"
| "serialize d Serialize_unit = Inr Null"
| "serialize d Serialize_unit_struct = Inr Null"
| "serialize d (Serialize_some x) = serialize d x"
| "serialize d (Serialize_unit_variant s) = serialize_string s"
| "serialize d (Serialize_newtype_struct x) = serialize d x"
| "serialize d (Serialize_newtype_variant s x) =
     and_then (validate_printable_ascii s) (\<lambda>_.
     and_then (checked_container_depth d) (\<lambda>object_depth.
     and_then (serialize object_depth x) (\<lambda>v. Inr (singleton_object s v))))"
| "serialize d (Serialize_seq xs) =
     and_then (checked_container_depth d) (\<lambda>e. finish_sequence (serialize_elements (new_sequence e) xs))"
| "serialize d (Serialize_tuple_variant s xs) =
     and_then (validate_printable_ascii s) (\<lambda>_.
     and_then (checked_container_depth d) (\<lambda>object_depth.
     and_then (checked_container_depth object_depth) (\<lambda>array_depth.
     and_then (finish_sequence (serialize_elements (new_sequence array_depth) xs)) (\<lambda>v. Inr (singleton_object s v)))))"
| "serialize d (Serialize_map calls) =
     and_then (checked_container_depth d) (\<lambda>e. finish_object (serialize_calls (new_object e) calls))"
| "serialize d (Serialize_struct fs) =
     and_then (checked_container_depth d) (\<lambda>e. finish_object (serialize_fields (new_object e) fs))"
| "serialize d (Serialize_struct_variant s fs) =
     and_then (validate_printable_ascii s) (\<lambda>_.
     and_then (checked_container_depth d) (\<lambda>object_depth.
     and_then (checked_container_depth object_depth) (\<lambda>fields_depth.
     and_then (finish_object (serialize_fields (new_object fields_depth) fs)) (\<lambda>v. Inr (singleton_object s v)))))"
| "serialize_elements b [] = b"
| "serialize_elements b (x # xs) = serialize_elements (snd (push b (serialize (seq_depth b) x))) xs"
| "serialize_calls b [] = b"
| "serialize_calls b (Serialize_key k # cs) = serialize_calls (snd (put_key (serialize_map_key k) b)) cs"
| "serialize_calls b (Serialize_value x # cs) =
     serialize_calls (snd (put_value (serialize (obj_depth b) x) b)) cs"
| "serialize_calls b (Serialize_entry k x # cs) =
     serialize_calls (snd (put_entry (serialize_map_key k) (serialize (obj_depth b) x) b)) cs"
| "serialize_fields b [] = b"
| "serialize_fields b ((k, x) # fs) =
     serialize_fields (snd (put_field k (serialize (obj_depth b) x) b)) fs"

definition serialize_checked_value_v1 ::
  "serde \<Rightarrow> CanonicalJsonNullPolicyV1 \<Rightarrow> (CanonicalJsonValueV1, CanonicalJsonErrorKindV1) result" where
  "serialize_checked_value_v1 x policy =
     and_then (serialize 0 x) (\<lambda>v. and_then (require_allowed_null_paths v policy) (\<lambda>_. Inr v))"

definition to_canonical_json_bytes_v1 ::
  "serde \<Rightarrow> CanonicalJsonNullPolicyV1 \<Rightarrow> (bytes, CanonicalJsonErrorKindV1) result" where
  "to_canonical_json_bytes_v1 x policy =
     and_then (serialize_checked_value_v1 x policy) (\<lambda>v. Inr (encode_value_with_final_lf v))"

definition count_canonical_json_bytes_v1 ::
  "serde \<Rightarrow> CanonicalJsonNullPolicyV1 \<Rightarrow> (u64, CanonicalJsonErrorKindV1) result" where
  "count_canonical_json_bytes_v1 x policy =
     and_then (serialize_checked_value_v1 x policy) (\<lambda>v. count_chunks 0 (emit_value_with_final_lf v))"

section \<open>Errors stick\<close>

text \<open>The operations on a builder in order, once with the errors dropped and once stopping at the first.\<close>

primrec drop_errors :: "('b \<Rightarrow> (unit, 'e) result \<times> 'b) list \<Rightarrow> 'b \<Rightarrow> 'b" where
  "drop_errors [] b = b"
| "drop_errors (f # fs) b = drop_errors fs (snd (f b))"

primrec stop_at_error :: "('b \<Rightarrow> (unit, 'e) result \<times> 'b) list \<Rightarrow> 'b \<Rightarrow> ('b, 'e) result" where
  "stop_at_error [] b = Inr b"
| "stop_at_error (f # fs) b = (case f b of (Inl e, _) \<Rightarrow> Inl e | (Inr _, b1) \<Rightarrow> stop_at_error fs b1)"

locale sticky_builder =
  fixes failed :: "'b \<Rightarrow> 'e option"
    and operation :: "('b \<Rightarrow> (unit, 'e) result \<times> 'b) \<Rightarrow> bool"
    and finish :: "'b \<Rightarrow> ('v, 'e) result"
  assumes stays: "operation f \<Longrightarrow> failed b = Some e \<Longrightarrow> f b = (Inl e, b)"
    and fails: "operation f \<Longrightarrow> failed b = None \<Longrightarrow> f b = (Inl e, b1) \<Longrightarrow> failed b1 = Some e"
    and succeeds: "operation f \<Longrightarrow> f b = (Inr u, b1) \<Longrightarrow> failed b1 = None"
    and finish_failed: "failed b = Some e \<Longrightarrow> finish b = Inl e"
begin

lemma failed_run: "list_all operation fs \<Longrightarrow> failed b = Some e \<Longrightarrow> drop_errors fs b = b"
  by (induction fs) (auto simp: stays)

lemma dropped_errors:
  "list_all operation fs \<Longrightarrow> failed b = None \<Longrightarrow>
   finish (drop_errors fs b) = and_then (stop_at_error fs b) finish"
proof (induction fs arbitrary: b)
  case (Cons f fs)
  obtain r b1 where f: "f b = (r, b1)" by (cases "f b")
  have op: "operation f" "list_all operation fs" using Cons.prems by auto
  show ?case
  proof (cases r)
    case (Inl e)
    then have "failed b1 = Some e" using fails[OF op(1) Cons.prems(2)] f by simp
    then show ?thesis using f Inl failed_run[OF op(2)] finish_failed by simp
  next
    case (Inr u)
    then have "failed b1 = None" using succeeds[OF op(1)] f by simp
    then show ?thesis using f Inr Cons.IH[OF op(2)] by simp
  qed
qed simp

end

definition seq_failed :: "SequenceSerializerV1 \<Rightarrow> CanonicalJsonErrorKindV1 option" where
  "seq_failed b = first_error (seq_state b)"

definition obj_failed :: "ObjectSerializerV1 \<Rightarrow> CanonicalJsonErrorKindV1 option" where
  "obj_failed b = first_error (obj_state b)"

definition push_element :: "serde \<Rightarrow> SequenceSerializerV1 \<Rightarrow> (unit, CanonicalJsonErrorKindV1) result \<times> SequenceSerializerV1" where
  "push_element x b = push b (serialize (seq_depth b) x)"

fun map_operation :: "map_call \<Rightarrow> ObjectSerializerV1 \<Rightarrow> (unit, CanonicalJsonErrorKindV1) result \<times> ObjectSerializerV1" where
  "map_operation (Serialize_key k) b = put_key (serialize_map_key k) b"
| "map_operation (Serialize_value x) b = put_value (serialize (obj_depth b) x) b"
| "map_operation (Serialize_entry k x) b = put_entry (serialize_map_key k) (serialize (obj_depth b) x) b"

definition field_operation ::
  "bytes \<times> serde \<Rightarrow> ObjectSerializerV1 \<Rightarrow> (unit, CanonicalJsonErrorKindV1) result \<times> ObjectSerializerV1" where
  "field_operation = (\<lambda>(k, x) b. put_field k (serialize (obj_depth b) x) b)"

lemma serialize_runs:
  "serialize_elements b xs = drop_errors (map push_element xs) b"
  "serialize_calls c cs = drop_errors (map map_operation cs) c"
  "serialize_fields c fs = drop_errors (map field_operation fs) c"
proof -
  show "serialize_elements b xs = drop_errors (map push_element xs) b"
    by (induction xs arbitrary: b) (simp_all add: push_element_def)
  show "serialize_calls c cs = drop_errors (map map_operation cs) c"
  proof (induction cs arbitrary: c)
    case (Cons x cs)
    then show ?case by (cases x) simp_all
  qed simp
  show "serialize_fields c fs = drop_errors (map field_operation fs) c"
    by (induction fs arbitrary: c) (auto simp: field_operation_def)
qed

lemma finish_failed_object: "obj_failed b = Some e \<Longrightarrow> finish_object b = Inl e"
  by (simp add: obj_failed_def finish_object_def require_usable_def)

text \<open>What an operation does to the recorded error.\<close>

definition keeps_first_error :: "(ObjectSerializerV1 \<Rightarrow> ('a, CanonicalJsonErrorKindV1) result \<times> ObjectSerializerV1) \<Rightarrow> bool" where
  "keeps_first_error f \<longleftrightarrow>
     (\<forall>b. case f b of
            (Inl e, b1) \<Rightarrow> obj_failed b1 = Some e \<and> (obj_failed b = None \<or> b1 = b)
          | (Inr _, b1) \<Rightarrow> obj_failed b = None \<and> obj_failed b1 = None)"

lemmas object_operations = keeps_first_error_def obj_failed_def require_usable_def obj_record_def record_result_def
  fail_object_def

lemma obj_record_keeps: "keeps_first_error (obj_record r)"
  by (auto simp: object_operations split: option.split sum.split)

lemma store_entry_keeps: "keeps_first_error (store_entry k r)"
  by (auto simp: object_operations store_entry_def split: option.split sum.split)

lemma insert_entry_keeps: "keeps_first_error (insert_entry k r)"
  by (auto simp: object_operations store_entry_def insert_entry_def split: option.split sum.split)

lemma put_key_keeps: "keeps_first_error (put_key r)"
  by (auto simp: object_operations put_key_def split: option.split sum.split)

lemma put_value_keeps: "keeps_first_error (put_value r)"
  by (auto simp: object_operations store_entry_def put_value_def split: option.split sum.split)

lemma put_entry_keeps: "keeps_first_error (put_entry q r)"
  by (auto simp: object_operations store_entry_def insert_entry_def put_entry_def split: option.split sum.split)

lemma put_field_keeps: "keeps_first_error (put_field k r)"
  by (auto simp: object_operations store_entry_def insert_entry_def put_field_def split: option.split sum.split)

lemma map_operation_keeps: "keeps_first_error (map_operation c)"
proof (cases c)
  case (Serialize_key k)
  then show ?thesis using put_key_keeps by (simp add: keeps_first_error_def)
next
  case (Serialize_value x)
  then show ?thesis using put_value_keeps by (simp add: keeps_first_error_def)
next
  case (Serialize_entry k x)
  then show ?thesis using put_entry_keeps by (simp add: keeps_first_error_def)
qed

lemma field_operation_keeps: "keeps_first_error (field_operation p)"
  using put_field_keeps by (cases p) (simp add: keeps_first_error_def field_operation_def)

definition object_operation where
  "object_operation f \<longleftrightarrow> f \<in> range map_operation \<union> range field_operation"

lemma object_operation_keeps: "object_operation f \<Longrightarrow> keeps_first_error f"
  using map_operation_keeps field_operation_keeps by (auto simp: object_operation_def)

interpretation objects: sticky_builder obj_failed object_operation finish_object
proof
  fix f b e
  assume "object_operation f" "obj_failed b = Some e"
  then show "f b = (Inl e, b)"
    using object_operation_keeps[of f] unfolding keeps_first_error_def
    by (cases "f b"; cases "fst (f b)") (auto dest!: spec[of _ b])
next
  fix f b e b1
  assume "object_operation f" "f b = (Inl e, b1)"
  then show "obj_failed b1 = Some e"
    using object_operation_keeps[of f] by (fastforce simp: keeps_first_error_def dest: spec[of _ b])
next
  fix f b u b1
  assume "object_operation f" "f b = (Inr u, b1)"
  then show "obj_failed b1 = None"
    using object_operation_keeps[of f] by (fastforce simp: keeps_first_error_def dest: spec[of _ b])
qed (rule finish_failed_object)

interpretation sequences: sticky_builder seq_failed "\<lambda>f. f \<in> range push_element" finish_sequence
  by unfold_locales
    (auto simp: seq_failed_def push_element_def push_def require_usable_def record_result_def finish_sequence_def
      split: option.splits sum.splits)

text \<open>C13. A \<^verbatim>\<open>Serialize\<close> implementation cannot get a partial value published by dropping errors: for
  sequences, maps and structs, making every call whatever the earlier ones returned and then calling
  \<^verbatim>\<open>end\<close> has the outcome of stopping at the first error and reporting it, and a failed key, value,
  duplicate or key without a value is such an error.\<close>

theorem dropped_errors_stick:
  "finish_sequence (serialize_elements (new_sequence d) xs) =
     and_then (stop_at_error (map push_element xs) (new_sequence d)) finish_sequence \<and>
   finish_object (serialize_calls (new_object d) cs) =
     and_then (stop_at_error (map map_operation cs) (new_object d)) finish_object \<and>
   finish_object (serialize_fields (new_object d) fs) =
     and_then (stop_at_error (map field_operation fs) (new_object d)) finish_object"
proof (intro conjI)
  have fresh: "seq_failed (new_sequence d) = None" "obj_failed (new_object d) = None"
    by (simp_all add: seq_failed_def obj_failed_def new_sequence_def new_object_def fresh_state_def)
  show "finish_sequence (serialize_elements (new_sequence d) xs) =
     and_then (stop_at_error (map push_element xs) (new_sequence d)) finish_sequence"
    unfolding serialize_runs by (rule sequences.dropped_errors) (simp_all add: fresh list_all_iff)
  show "finish_object (serialize_calls (new_object d) cs) =
     and_then (stop_at_error (map map_operation cs) (new_object d)) finish_object"
    unfolding serialize_runs by (rule objects.dropped_errors) (auto simp: fresh list_all_iff object_operation_def)
  show "finish_object (serialize_fields (new_object d) fs) =
     and_then (stop_at_error (map field_operation fs) (new_object d)) finish_object"
    unfolding serialize_runs by (rule objects.dropped_errors) (auto simp: fresh list_all_iff object_operation_def)
qed

section \<open>What is serialized keeps the bounds of the store\<close>

lemma validate_string_ok: "validate_printable_ascii s = Inr u \<longleftrightarrow> string_ok s"
  by (auto simp: validate_printable_ascii_def string_ok_def)

definition room :: "nat \<Rightarrow> nat" where
  "room d = MAX_DEPTH - d"

lemma checked_container_depth_room:
  "checked_container_depth d = Inr e \<Longrightarrow> d \<le> MAX_DEPTH \<Longrightarrow> e = Suc d \<and> e \<le> MAX_DEPTH \<and> room d = Suc (room e)"
  by (auto simp: checked_container_depth_def room_def split: if_splits)

definition seq_inv :: "nat \<Rightarrow> SequenceSerializerV1 \<Rightarrow> bool" where
  "seq_inv d b \<longleftrightarrow> seq_depth b = d \<and> list_all (fits (room d)) (seq_values b)"

definition obj_inv :: "nat \<Rightarrow> ObjectSerializerV1 \<Rightarrow> bool" where
  "obj_inv d b \<longleftrightarrow>
     obj_depth b = d \<and> fits (Suc (room d)) (Object (obj_values b)) \<and>
     (case pending_key b of
        None \<Rightarrow> True
      | Some k \<Rightarrow> string_ok k \<and> k \<notin> set (map fst (obj_values b)) \<and> length (obj_values b) < MAX_OBJECT_KEYS)"

definition good_value :: "nat \<Rightarrow> (CanonicalJsonValueV1, 'e) result \<Rightarrow> bool" where
  "good_value d r \<longleftrightarrow> (\<forall>v. r = Inr v \<longrightarrow> fits (room d) v)"

definition good_key :: "(bytes, 'e) result \<Rightarrow> bool" where
  "good_key r \<longleftrightarrow> (\<forall>k. r = Inr k \<longrightarrow> string_ok k)"

lemma push_inv: "seq_inv d b \<Longrightarrow> good_value d r \<Longrightarrow> seq_inv d (snd (push b r))"
  by (auto simp: seq_inv_def push_def good_value_def require_usable_def record_result_def
      split: option.splits sum.splits)

lemma obj_record_result:
  "obj_record r b = (r1, b1) \<Longrightarrow>
     obj_values b1 = obj_values b \<and> pending_key b1 = pending_key b \<and> obj_depth b1 = obj_depth b \<and>
     (\<forall>a. r1 = Inr a \<longrightarrow> r = Inr a)"
  by (auto simp: obj_record_def record_result_def split: option.splits sum.splits)

lemma obj_inv_cong:
  "obj_values b1 = obj_values b \<Longrightarrow> pending_key b1 = pending_key b \<Longrightarrow> obj_depth b1 = obj_depth b \<Longrightarrow>
   obj_inv d b1 = obj_inv d b"
  by (cases "pending_key b") (simp_all add: obj_inv_def)

lemma fail_object_inv: "obj_inv d b \<Longrightarrow> obj_inv d (snd (fail_object kind b))"
  using obj_record_result[of "Inl kind" b] obj_inv_cong[of _ b]
  by (metis fail_object_def prod.collapse)

lemma entry_insert_fits:
  assumes "fits (Suc n) (Object e)" "k \<notin> set (map fst e)" "length e < MAX_OBJECT_KEYS" "string_ok k" "fits n v"
  shows "fits (Suc n) (Object (entry_insert k v e))"
  using assms sorted_entry_insert[OF assms(2)] length_entry_insert[OF assms(2), of v] set_entry_insert[OF assms(2), of v]
  by (auto simp: list_all_iff)

lemma store_entry_inv:
  assumes "obj_inv d b" "pending_key b = None" "k \<notin> set (map fst (obj_values b))"
    "length (obj_values b) < MAX_OBJECT_KEYS" "string_ok k" "good_value d r"
  shows "obj_inv d (snd (store_entry k r b))"
proof -
  obtain r1 b1 where r: "obj_record r b = (r1, b1)" by (cases "obj_record r b")
  note b1 = obj_record_result[OF r]
  then have "obj_inv d b1" using obj_inv_cong[of b1 b d] assms(1) by blast
  moreover have "fits (Suc (room d)) (Object (entry_insert k v (obj_values b1)))" if "r1 = Inr v" for v
    using assms b1 that by (intro entry_insert_fits) (auto simp: obj_inv_def good_value_def)
  ultimately show ?thesis
    using r b1 assms(1,2) by (cases r1) (auto simp: store_entry_def obj_inv_def)
qed

lemma accept_key_result:
  "accept_key b k = Inr u \<Longrightarrow> obj_inv d b \<Longrightarrow>
   k \<notin> set (map fst (obj_values b)) \<and> pending_key b \<noteq> Some k \<and> length (obj_values b) < MAX_OBJECT_KEYS"
  by (auto simp: accept_key_def obj_inv_def split: if_splits)

lemma insert_entry_inv:
  assumes "obj_inv d b" "string_ok k" "good_value d r"
  shows "obj_inv d (snd (insert_entry k r b))"
proof -
  obtain r1 b1 where r: "obj_record (accept_key b k) b = (r1, b1)" by (cases "obj_record (accept_key b k) b")
  note b1 = obj_record_result[OF r]
  then have inv: "obj_inv d b1" using obj_inv_cong[of b1 b d] assms(1) by blast
  have "obj_inv d (snd (store_entry k r b1))" if "r1 = Inr ()" "pending_key b = None"
    using accept_key_result[of b k "()" d] assms b1 inv that by (intro store_entry_inv) auto
  then show ?thesis
    using r inv assms(1) fail_object_inv[OF assms(1)]
    by (auto simp: insert_entry_def split: sum.split)
qed

lemma put_key_inv:
  assumes "obj_inv d b" "good_key q"
  shows "obj_inv d (snd (put_key q b))"
proof -
  obtain r1 b1 where r: "obj_record q b = (r1, b1)" by (cases "obj_record q b")
  note b1 = obj_record_result[OF r]
  have inv1: "obj_inv d b1" using obj_inv_cong[of b1 b d] assms(1) b1 by blast
  have second: "obj_inv d b2 \<and> (r2 = Inr () \<longrightarrow> obj_inv d (b2\<lparr>pending_key := Some k\<rparr>))"
    if "r1 = Inr k" "obj_record (accept_key b1 k) b1 = (r2, b2)" for k r2 b2
  proof -
    note b2 = obj_record_result[OF that(2)]
    have inv2: "obj_inv d b2" using obj_inv_cong[of b2 b1 d] inv1 b2 by blast
    moreover have "obj_inv d (b2\<lparr>pending_key := Some k\<rparr>)" if "r2 = Inr ()"
      using accept_key_result[of b1 k "()" d] inv1 inv2 b1 b2 \<open>r1 = Inr k\<close> that assms(2)
      by (auto simp: obj_inv_def good_key_def)
    ultimately show ?thesis by blast
  qed
  show ?thesis
    using r inv1 assms(1) fail_object_inv[OF assms(1)] second
    by (auto simp: put_key_def split: sum.split prod.split)
qed

lemma put_value_inv:
  assumes "obj_inv d b" "good_value d r"
  shows "obj_inv d (snd (put_value r b))"
proof (cases "pending_key b")
  case None
  then show ?thesis using assms(1) fail_object_inv[OF assms(1)] by (auto simp: put_value_def split: sum.split)
next
  case (Some k)
  let ?b = "b\<lparr>pending_key := None\<rparr>"
  have "obj_inv d ?b" using assms(1) by (simp add: obj_inv_def)
  moreover have "k \<notin> set (map fst (obj_values b))" "length (obj_values b) < MAX_OBJECT_KEYS" "string_ok k"
    using assms(1) Some by (auto simp: obj_inv_def)
  ultimately have "obj_inv d (snd (store_entry k r ?b))"
    using assms(2) by (intro store_entry_inv) simp_all
  then show ?thesis using Some assms(1) by (auto simp: put_value_def split: sum.split)
qed

lemma put_entry_inv:
  assumes "obj_inv d b" "good_key q" "good_value d r"
  shows "obj_inv d (snd (put_entry q r b))"
proof -
  obtain r1 b1 where r: "obj_record q b = (r1, b1)" by (cases "obj_record q b")
  note b1 = obj_record_result[OF r]
  have "obj_inv d b1" using obj_inv_cong[of b1 b d] assms(1) b1 by blast
  then show ?thesis
    using r assms b1 insert_entry_inv[of d b1 _ r]
    by (auto simp: put_entry_def good_key_def split: sum.split)
qed

lemma put_field_inv:
  assumes "obj_inv d b" "good_value d r"
  shows "obj_inv d (snd (put_field k r b))"
proof -
  obtain r1 b1 where r: "obj_record (validate_printable_ascii k) b = (r1, b1)"
    by (cases "obj_record (validate_printable_ascii k) b")
  note b1 = obj_record_result[OF r]
  have "obj_inv d b1" using obj_inv_cong[of b1 b d] assms(1) b1 by blast
  then show ?thesis
    using r assms b1 insert_entry_inv[of d b1 k r] validate_string_ok
    by (auto simp: put_field_def split: sum.split)
qed

lemma checked_key_good: "good_key (checked_key k)"
  by (auto simp: good_key_def checked_key_def and_then_eq_Inr validate_string_ok)

lemma map_key_good: "good_key (serialize_map_key x)"
proof (induction x rule: serialize_map_key.induct)
  case (6 w)
  show ?case using checked_key_good by (auto simp: good_key_def and_then_eq_Inr key_i64_def)
next
  case (11 w)
  show ?case using checked_key_good by (auto simp: good_key_def and_then_eq_Inr key_u64_def)
qed (auto simp: checked_key_good key_i64_def key_u64_def good_key_def[of "Inl _"])

lemma finish_sequence_fits:
  "seq_inv d b \<Longrightarrow> finish_sequence b = Inr v \<Longrightarrow> fits (Suc (room d)) v"
  by (auto simp: finish_sequence_def and_then_eq_Inr seq_inv_def)

lemma finish_object_fits:
  "obj_inv d b \<Longrightarrow> finish_object b = Inr v \<Longrightarrow> fits (Suc (room d)) v"
  by (auto simp: finish_object_def and_then_eq_Inr obj_inv_def split: if_splits)

lemma singleton_fits: "string_ok k \<Longrightarrow> fits n v \<Longrightarrow> fits (Suc n) (singleton_object k v)"
  by (simp add: singleton_object_def MAX_OBJECT_KEYS_def)

lemma new_builder_inv: "seq_inv d (new_sequence d)" "obj_inv d (new_object d)"
  by (simp_all add: seq_inv_def obj_inv_def new_sequence_def new_object_def)

lemma serialize_keeps_bounds:
  "d \<le> MAX_DEPTH \<Longrightarrow> good_value d (serialize d x)"
  "seq_inv e b \<Longrightarrow> e \<le> MAX_DEPTH \<Longrightarrow> seq_inv e (serialize_elements b xs)"
  "obj_inv e c \<Longrightarrow> e \<le> MAX_DEPTH \<Longrightarrow> obj_inv e (serialize_calls c cs)"
  "obj_inv e f \<Longrightarrow> e \<le> MAX_DEPTH \<Longrightarrow> obj_inv e (serialize_fields f fs)"
proof (induction d x and b xs and c cs and f fs arbitrary: and e and e and e
    rule: serialize_serialize_elements_serialize_calls_serialize_fields.induct)
  case (16 d bs)
  then show ?case
    by (auto simp: good_value_def and_then_eq_Inr list_all_iff dest!: checked_container_depth_room)
next
  case (23 d s x)
  have "fits (room d) (singleton_object s v)" if "string_ok s" "checked_container_depth d = Inr e"
    "serialize e x = Inr v" for e v
    using checked_container_depth_room[OF that(2) 23(2)] 23(1)[OF _ that(2)] that singleton_fits validate_string_ok
    by (auto simp: good_value_def)
  then show ?case by (auto simp: good_value_def and_then_eq_Inr validate_string_ok)
next
  case (24 d xs)
  have "fits (room d) v" if "checked_container_depth d = Inr e"
    "finish_sequence (serialize_elements (new_sequence e) xs) = Inr v" for e v
    using checked_container_depth_room[OF that(1) 24(2)] 24(1)[OF that(1) new_builder_inv(1)] finish_sequence_fits that(2)
    by auto
  then show ?case by (auto simp: good_value_def and_then_eq_Inr)
next
  case (25 d s xs)
  have "fits (room d) (singleton_object s v)" if "string_ok s" "checked_container_depth d = Inr m"
    "checked_container_depth m = Inr e" "finish_sequence (serialize_elements (new_sequence e) xs) = Inr v" for m e v
    using checked_container_depth_room[OF that(2) 25(2)] checked_container_depth_room[OF that(3)]
      25(1)[OF _ that(2,3) new_builder_inv(1)] finish_sequence_fits that(1,4) singleton_fits validate_string_ok by auto
  then show ?case by (auto simp: good_value_def and_then_eq_Inr validate_string_ok)
next
  case (26 d cs)
  have "fits (room d) v" if "checked_container_depth d = Inr e"
    "finish_object (serialize_calls (new_object e) cs) = Inr v" for e v
    using checked_container_depth_room[OF that(1) 26(2)] 26(1)[OF that(1) new_builder_inv(2)] finish_object_fits that(2)
    by auto
  then show ?case by (auto simp: good_value_def and_then_eq_Inr)
next
  case (27 d fs)
  have "fits (room d) v" if "checked_container_depth d = Inr e"
    "finish_object (serialize_fields (new_object e) fs) = Inr v" for e v
    using checked_container_depth_room[OF that(1) 27(2)] 27(1)[OF that(1) new_builder_inv(2)] finish_object_fits that(2)
    by auto
  then show ?case by (auto simp: good_value_def and_then_eq_Inr)
next
  case (28 d s fs)
  have "fits (room d) (singleton_object s v)" if "string_ok s" "checked_container_depth d = Inr m"
    "checked_container_depth m = Inr e" "finish_object (serialize_fields (new_object e) fs) = Inr v" for m e v
    using checked_container_depth_room[OF that(2) 28(2)] checked_container_depth_room[OF that(3)]
      28(1)[OF _ that(2,3) new_builder_inv(2)] finish_object_fits that(1,4) singleton_fits validate_string_ok by auto
  then show ?case by (auto simp: good_value_def and_then_eq_Inr validate_string_ok)
next
  case (30 b x xs)
  then have "good_value e (serialize (seq_depth b) x)" by (auto simp: seq_inv_def)
  from push_inv[OF 30(3) this] show ?case using 30 by simp
next
  case (32 c k cs)
  from put_key_inv[OF 32(2) map_key_good] show ?case using 32 by simp
next
  case (33 c x cs)
  then have "good_value e (serialize (obj_depth c) x)" by (auto simp: obj_inv_def)
  from put_value_inv[OF 33(3) this] show ?case using 33 by simp
next
  case (34 c k x cs)
  then have "good_value e (serialize (obj_depth c) x)" by (auto simp: obj_inv_def)
  from put_entry_inv[OF 34(3) map_key_good this] show ?case using 34 by simp
next
  case (36 f k x fs)
  then have "good_value e (serialize (obj_depth f) x)" by (auto simp: obj_inv_def)
  from put_field_inv[OF 36(3) this] show ?case using 36 by simp
qed (auto simp: good_value_def serialize_string_def and_then_eq_Inr validate_string_ok)

section \<open>Published bytes\<close>

lemma normalize_enc: "enc (normalize v) = enc v"
proof (induction v rule: normalize.induct)
  case (1 w)
  then show ?case using sint_nonneg[of w] by (auto simp: enc_simps number_bytes_def)
next
  case (2 vs)
  then have "map enc (map normalize vs) = map enc vs" by simp
  then show ?case by (simp only: normalize.simps enc_simps)
next
  case (3 kvs)
  then have "map enc_entry (map (\<lambda>(k, v). (k, normalize v)) kvs) = map enc_entry kvs"
    by (auto simp: enc_entry_def split_def)
  then show ?case by (simp only: normalize.simps enc_simps)
qed simp_all

lemma normalize_idem: "normalize (normalize v) = normalize v"
  by (induction v rule: normalize.induct) auto

lemma normalize_number [simp]: "fits n (normalize (Number k))"
  by (cases k) simp_all

lemma normalize_fits: "fits n v \<Longrightarrow> fits n (normalize v)"
  by (induction n v rule: fits.induct) (auto simp: list_all_iff split_def comp_def)

lemma normalize_null_paths: "null_paths (normalize v) = null_paths v"
proof (induction v rule: normalize.induct)
  case (2 vs)
  then have "map null_paths (map normalize vs) = map null_paths vs" by simp
  then show ?case by (simp only: normalize.simps null_paths.simps)
next
  case (3 kvs)
  then show ?case by (auto simp: split_def comp_def intro!: arg_cong[where f = concat])
qed simp_all

lemma require_allowed_normalize: "require_allowed_null_paths (normalize v) policy = require_allowed_null_paths v policy"
  by (simp add: require_allowed_null_paths_def require_paths(1) normalize_null_paths)

lemma serialized_document:
  assumes "serialize_checked_value_v1 x policy = Inr v"
  shows "parse_and_require_canonical (encode_value_with_final_lf v) policy = Inr (normalize v)"
proof -
  have "serialize 0 x = Inr v" and nulls: "require_allowed_null_paths v policy = Inr ()"
    using assms by (auto simp: serialize_checked_value_v1_def and_then_eq_Inr)
  then have "fits MAX_DEPTH v"
    using serialize_keeps_bounds(1)[of 0 x] by (simp add: good_value_def room_def)
  then show ?thesis
    unfolding canonical_iff
    using nulls by (simp add: normalize_fits normalize_idem require_allowed_normalize encode_enc normalize_enc)
qed

text \<open>C12. Whatever calls a \<^verbatim>\<open>Serialize\<close> implementation makes, when the encoder returns bytes the store's
  parser accepts them under the same null policy and reads back the serialized tree, up to the
  signed spelling of non-negative integers.\<close>

theorem encoded_values_parse_back:
  assumes "to_canonical_json_bytes_v1 x policy = Inr bs"
  shows "\<exists>v. serialize_checked_value_v1 x policy = Inr v \<and> bs = encode_value_with_final_lf v \<and>
    parse_and_require_canonical bs policy = Inr (normalize v)"
  using assms serialized_document by (auto simp: to_canonical_json_bytes_v1_def and_then_eq_Inr)

definition sample_calls :: serde where
  "sample_calls =
     Serialize_struct [(as_bytes ''b'', Serialize_seq [Serialize_i64 7, Serialize_bool False]),
                       (as_bytes ''a'', Serialize_str (as_bytes ''x''))]"

theorem encoded_values_parse_back_witness:
  "\<exists>v. serialize_checked_value_v1 sample_calls Forbid = Inr v \<and>
     parse_and_require_canonical (as_bytes ''{\"a\":\"x\",\"b\":[7,false]}\<newline>'') Forbid = Inr (normalize v)"
proof -
  have "to_canonical_json_bytes_v1 sample_calls Forbid = Inr (as_bytes ''{\"a\":\"x\",\"b\":[7,false]}\<newline>'')"
    by code_simp
  from encoded_values_parse_back[OF this] show ?thesis by auto
qed

text \<open>The allocation-free count of the encoder agrees with the encoder: it returns the same error
  when the encoder fails, otherwise the length of the bytes the encoder returns, or reports overflow
  when that length does not fit 64 bits.\<close>

theorem count_is_encoded_length:
  "count_canonical_json_bytes_v1 x policy =
     and_then (to_canonical_json_bytes_v1 x policy) (\<lambda>bs.
       if length bs < 2 ^ 64 then Inr (word_of_nat (length bs)) else Inl EncodedLengthOverflow)"
proof (cases "serialize_checked_value_v1 x policy")
  case (Inr v)
  let ?cs = "emit_value_with_final_lf v"
  have "count_chunks 0 ?cs =
      (if length (concat ?cs) < 2 ^ 64 then Inr (word_of_nat (length (concat ?cs))) else Inl EncodedLengthOverflow)"
    using count_chunks_length[of 0 ?cs] count_chunks_overflow[of 0 ?cs] by simp
  then show ?thesis
    using Inr by (simp add: count_canonical_json_bytes_v1_def to_canonical_json_bytes_v1_def
        encode_value_with_final_lf_def to_vec_def)
qed (simp add: count_canonical_json_bytes_v1_def to_canonical_json_bytes_v1_def)

end
