(* ===== verification/Json_Max.thy ===== *)
theory Json_Max
  imports Json_Canonical
begin

text \<open>
  \<open>CanonicalJsonClosedMaxV1\<close> of \<^verbatim>\<open>mtg-kernel/src/canonical_json_v1.rs\<close>: the bound on the encoded
  length of every document of a closed grammar, computed without building one. The grammar the
  constructors describe is the datatype \<open>grammar\<close>; the bound is shown to hold for the encoder.
\<close>

section \<open>The constructors\<close>

record CanonicalJsonClosedMaxV1 =
  token_bytes :: u64
  max_depth :: nat
  max_object_keys :: nat
  max_string_bytes :: nat

datatype CanonicalJsonClosedMaxErrorV1 =
  Arithmetic | InvalidLiteral | UnsortedOrDuplicateKey | Depth | ObjectKeys | StringBytes

type_synonym closed_max = "(CanonicalJsonClosedMaxV1, CanonicalJsonClosedMaxErrorV1) result"

definition scalar_v1 :: "u64 \<Rightarrow> CanonicalJsonClosedMaxV1" where
  "scalar_v1 n = \<lparr>token_bytes = n, max_depth = 0, max_object_keys = 0, max_string_bytes = 0\<rparr>"

definition null_v1 :: CanonicalJsonClosedMaxV1 where
  "null_v1 = scalar_v1 4"

definition bool_v1 :: "bool \<Rightarrow> CanonicalJsonClosedMaxV1" where
  "bool_v1 b = scalar_v1 (if b then 4 else 5)"

definition max_u63_v1 :: CanonicalJsonClosedMaxV1 where
  "max_u63_v1 = scalar_v1 19"

definition max_u32_v1 :: CanonicalJsonClosedMaxV1 where
  "max_u32_v1 = scalar_v1 10"

definition terminal_return_i8_v1 :: CanonicalJsonClosedMaxV1 where
  "terminal_return_i8_v1 = scalar_v1 2"

definition exact_unsigned_decimal_digits_v1 :: "u8 \<Rightarrow> closed_max" where
  "exact_unsigned_decimal_digits_v1 digits =
     (if \<not> (1 \<le> digits \<and> digits \<le> 19) then Inl InvalidLiteral else Inr (scalar_v1 (ucast digits)))"

function decimal_digits_loop :: "u64 \<Rightarrow> u64 \<Rightarrow> u64" where
  "decimal_digits_loop v digits = (if v \<ge> 10 then decimal_digits_loop (v div 10) (digits + 1) else digits)"
  by pat_completeness auto
termination
  by (relation "measure (unat \<circ> fst)") (auto simp: unat_div word_le_nat_alt)

declare decimal_digits_loop.simps [simp del]

definition exact_u64_v1 :: "u64 \<Rightarrow> CanonicalJsonClosedMaxV1" where
  "exact_u64_v1 v = scalar_v1 (decimal_digits_loop v 1)"

fun escaped_bytes :: "u64 \<Rightarrow> bytes \<Rightarrow> (u64, CanonicalJsonClosedMaxErrorV1) result" where
  "escaped_bytes n [] = Inr n"
| "escaped_bytes n (b # bs) =
     (if \<not> is_printable b then Inl InvalidLiteral
      else and_then (ok_or (checked_add n (if b = 34 \<or> b = 92 then 2 else 1)) Arithmetic) (\<lambda>m. escaped_bytes m bs))"

definition fixed_ascii_string_v1 :: "bytes \<Rightarrow> closed_max" where
  "fixed_ascii_string_v1 lit =
     (if length lit > MAX_STRING_BYTES then Inl StringBytes
      else
        and_then (escaped_bytes 0 lit) (\<lambda>n.
        and_then (ok_or (checked_add n 2) Arithmetic) (\<lambda>t.
          Inr \<lparr>token_bytes = t, max_depth = 0, max_object_keys = 0, max_string_bytes = length lit\<rparr>)))"

definition fixed_ascii_string_bytes_v1 :: "u64 \<Rightarrow> closed_max" where
  "fixed_ascii_string_bytes_v1 n =
     (if unat n > MAX_STRING_BYTES then Inl StringBytes
      else
        and_then (ok_or (checked_add n 2) Arithmetic) (\<lambda>t.
          Inr \<lparr>token_bytes = t, max_depth = 0, max_object_keys = 0, max_string_bytes = unat n\<rparr>))"

definition validate_composed_v1 :: "CanonicalJsonClosedMaxV1 \<Rightarrow> closed_max" where
  "validate_composed_v1 m =
     (if max_depth m > MAX_DEPTH then Inl Depth
      else if max_object_keys m > MAX_OBJECT_KEYS then Inl ObjectKeys
      else if max_string_bytes m > MAX_STRING_BYTES then Inl StringBytes
      else Inr m)"

definition choice_v1 :: "CanonicalJsonClosedMaxV1 \<Rightarrow> CanonicalJsonClosedMaxV1 \<Rightarrow> closed_max" where
  "choice_v1 l r =
     validate_composed_v1
       \<lparr>token_bytes = max (token_bytes l) (token_bytes r),
        max_depth = max (max_depth l) (max_depth r),
        max_object_keys = max (max_object_keys l) (max_object_keys r),
        max_string_bytes = max (max_string_bytes l) (max_string_bytes r)\<rparr>"

text \<open>\<open>depth + 1\<close> is checked in the code at the width of \<^verbatim>\<open>usize\<close>.\<close>

definition deeper_by_one :: "nat \<Rightarrow> (nat, CanonicalJsonClosedMaxErrorV1) result" where
  "deeper_by_one d = (if d + 1 < 2 ^ 64 then Inr (d + 1) else Inl Arithmetic)"

definition array_v1 :: "u64 \<Rightarrow> CanonicalJsonClosedMaxV1 \<Rightarrow> closed_max" where
  "array_v1 n child =
     and_then
       (if n = 0 then Inr 0
        else ok_or (Option.bind (checked_mul n (token_bytes child)) (\<lambda>v. checked_add v (n - 1))) Arithmetic)
       (\<lambda>contents.
     and_then (if n = 0 then Inr 1 else deeper_by_one (max_depth child)) (\<lambda>depth.
     and_then (ok_or (checked_add contents 2) Arithmetic) (\<lambda>t.
       validate_composed_v1
         \<lparr>token_bytes = t, max_depth = depth, max_object_keys = max_object_keys child,
          max_string_bytes = max_string_bytes child\<rparr>)))"

text \<open>The loop over the positions of a fixed array; \<open>m\<close> holds the running length and maxima.\<close>

fun fixed_array_loop :: "nat \<Rightarrow> CanonicalJsonClosedMaxV1 \<Rightarrow> CanonicalJsonClosedMaxV1 list \<Rightarrow> closed_max" where
  "fixed_array_loop index m [] = Inr m"
| "fixed_array_loop index m (child # cs) =
     and_then (if index \<noteq> 0 then ok_or (checked_add (token_bytes m) 1) Arithmetic else Inr (token_bytes m)) (\<lambda>t.
     and_then (ok_or (checked_add t (token_bytes child)) Arithmetic) (\<lambda>t1.
       fixed_array_loop (index + 1)
         \<lparr>token_bytes = t1, max_depth = max (max_depth m) (max_depth child),
          max_object_keys = max (max_object_keys m) (max_object_keys child),
          max_string_bytes = max (max_string_bytes m) (max_string_bytes child)\<rparr> cs))"

definition close_container :: "bool \<Rightarrow> CanonicalJsonClosedMaxV1 \<Rightarrow> closed_max" where
  "close_container is_empty m =
     and_then (if is_empty then Inr 1 else deeper_by_one (max_depth m)) (\<lambda>d. validate_composed_v1 (m\<lparr>max_depth := d\<rparr>))"

definition fixed_array_v1 :: "CanonicalJsonClosedMaxV1 list \<Rightarrow> closed_max" where
  "fixed_array_v1 children =
     and_then
       (fixed_array_loop 0 \<lparr>token_bytes = 2, max_depth = 0, max_object_keys = 0, max_string_bytes = 0\<rparr> children)
       (close_container (children = []))"

fun object_max_loop ::
  "bytes option \<Rightarrow> nat \<Rightarrow> CanonicalJsonClosedMaxV1 \<Rightarrow> (bytes \<times> CanonicalJsonClosedMaxV1) list \<Rightarrow> closed_max" where
  "object_max_loop previous index m [] = Inr m"
| "object_max_loop previous index m ((key, child) # fs) =
     (if (case previous of Some p \<Rightarrow> \<not> bytes_less p key | None \<Rightarrow> False) then Inl UnsortedOrDuplicateKey
      else
        and_then (fixed_ascii_string_v1 key) (\<lambda>key_shape.
        and_then (if index \<noteq> 0 then ok_or (checked_add (token_bytes m) 1) Arithmetic else Inr (token_bytes m)) (\<lambda>t.
        and_then
          (ok_or
            (Option.bind (checked_add t (token_bytes key_shape)) (\<lambda>a.
             Option.bind (checked_add a 1) (\<lambda>b. checked_add b (token_bytes child)))) Arithmetic) (\<lambda>t1.
          object_max_loop (Some key) (index + 1)
            \<lparr>token_bytes = t1, max_depth = max (max_depth m) (max_depth child),
             max_object_keys = max (max_object_keys m) (max_object_keys child),
             max_string_bytes = max (max (max_string_bytes m) (max_string_bytes key_shape)) (max_string_bytes child)\<rparr>
            fs))))"

definition object_v1 :: "(bytes \<times> CanonicalJsonClosedMaxV1) list \<Rightarrow> closed_max" where
  "object_v1 fs =
     (if length fs > MAX_OBJECT_KEYS then Inl ObjectKeys
      else
        and_then
          (object_max_loop None 0
             \<lparr>token_bytes = 2, max_depth = 0, max_object_keys = length fs, max_string_bytes = 0\<rparr> fs)
          (close_container (fs = [])))"

definition canonical_document_bytes_v1 :: "CanonicalJsonClosedMaxV1 \<Rightarrow> (u64, CanonicalJsonClosedMaxErrorV1) result" where
  "canonical_document_bytes_v1 m =
     and_then (validate_composed_v1 m) (\<lambda>v. ok_or (checked_add (token_bytes v) 1) Arithmetic)"

section \<open>What the bound promises\<close>

text \<open>A value within a bound: its encoding is no longer and it nests no deeper.\<close>

definition within :: "CanonicalJsonClosedMaxV1 \<Rightarrow> CanonicalJsonValueV1 \<Rightarrow> bool" where
  "within m v \<longleftrightarrow> length (enc v) \<le> unat (token_bytes m) \<and> fits (max_depth m) v \<and> max_depth m \<le> MAX_DEPTH"

lemma fits_mono: "fits n v \<Longrightarrow> n \<le> m \<Longrightarrow> fits m v"
proof (induction n v arbitrary: m rule: fits.induct)
  case (2 n vs)
  then obtain k where k: "m = Suc k" "n \<le> k" by (cases m) auto
  have "fits k x" if "x \<in> set vs" for x
    using 2(2) that by (intro 2(1)[OF that _ k(2)]) (simp add: list_all_iff)
  then show ?case using k(1) by (simp add: list_all_iff)
next
  case (3 n kvs)
  then obtain k where k: "m = Suc k" "n \<le> k" by (cases m) auto
  have "fits k x" if "(l, x) \<in> set kvs" for l x
    using 3(2) that by (intro 3(1)[OF that refl _ k(2)]) (auto simp: list_all_iff)
  then show ?case using 3(2) k(1) by (auto simp: list_all_iff)
qed simp_all

section \<open>Lengths\<close>

lemma length_join_sum: "xs \<noteq> [] \<Longrightarrow> length (join xs) + 1 = sum_list (map length xs) + length xs"
  by (induction xs rule: join.induct) simp_all

lemma decimal_length: "n < 10 ^ Suc k \<Longrightarrow> length (decimal n) \<le> Suc k"
proof (induction k arbitrary: n)
  case 0
  then show ?case by (subst decimal_rec) simp
next
  case (Suc k)
  then have "n div 10 < 10 ^ Suc k" by (simp add: div_less_iff_less_mult mult.commute)
  from Suc.IH[OF this] show ?case by (subst decimal_rec) simp
qed

lemma digits_loop_length:
  "unat d + length (decimal (unat v)) \<le> 2 ^ 63 \<Longrightarrow>
   unat (decimal_digits_loop v d) + 1 = unat d + length (decimal (unat v))"
proof (induction v d rule: decimal_digits_loop.induct)
  case (1 v d)
  show ?case
  proof (cases "10 \<le> v")
    case True
    then have ten: "10 \<le> unat v" by (simp add: word_le_nat_alt)
    then have len: "length (decimal (unat v)) = Suc (length (decimal (unat v div 10)))"
      by (subst decimal_rec) simp
    have q: "unat (v div 10) = unat v div 10" by (simp add: unat_div)
    have d: "unat (d + 1) = unat d + 1" using 1(2) len unat_add_no_overflow[of d 1] by simp
    show ?thesis using 1(1)[OF True] 1(2) q d len True by (subst decimal_digits_loop.simps) simp
  next
    case False
    then have "length (decimal (unat v)) = 1" by (subst decimal_rec) (simp add: word_le_nat_alt)
    then show ?thesis using False by (subst decimal_digits_loop.simps) simp
  qed
qed

lemma escape_length: "length (escape s) \<le> 2 * length s"
  by (induction s) (auto simp: escape_simps)

lemma escaped_bytes_length:
  "escaped_bytes n s = Inr m \<Longrightarrow> unat m = unat n + length (escape s) \<and> list_all is_printable s"
proof (induction n s rule: escaped_bytes.induct)
  case (2 n b bs)
  then obtain k where "is_printable b" "checked_add n (if b = 34 \<or> b = 92 then 2 else 1) = Some k"
    "escaped_bytes k bs = Inr m" by (auto simp: and_then_eq_Inr split: if_splits)
  then show ?case using 2(1) checked_add_Some[of n _ k] by (auto simp: escape_simps split: if_splits)
qed (simp add: escape_simps)

lemma fixed_string_bound:
  "fixed_ascii_string_v1 s = Inr m \<Longrightarrow> unat (token_bytes m) = length (enc_string s) \<and> string_ok s \<and> max_depth m = 0"
  by (auto simp: fixed_ascii_string_v1_def and_then_eq_Inr string_ok_def enc_string_def
      dest!: escaped_bytes_length checked_add_Some split: if_splits)

section \<open>Containers\<close>

lemma length_enc_array: "vs \<noteq> [] \<Longrightarrow> length (enc (Array vs)) = sum_list (map (\<lambda>v. length (enc v)) vs) + length vs + 1"
  using length_join_sum[of "map enc vs"] by (simp add: enc_simps comp_def)

lemma length_enc_object:
  "kvs \<noteq> [] \<Longrightarrow>
   length (enc (Object kvs)) = sum_list (map (\<lambda>(k, v). length (enc_string k) + length (enc v) + 1) kvs) + length kvs + 1"
  using length_join_sum[of "map enc_entry kvs"] by (simp add: enc_simps enc_entry_def comp_def split_def)

lemma validate_composed_result:
  "validate_composed_v1 m = Inr m1 \<Longrightarrow> m1 = m \<and> max_depth m \<le> MAX_DEPTH \<and> max_object_keys m \<le> MAX_OBJECT_KEYS"
  by (auto simp: validate_composed_v1_def split: if_splits)

lemma close_container_result:
  "close_container e m = Inr m1 \<Longrightarrow>
   token_bytes m1 = token_bytes m \<and> max_depth m1 = (if e then 1 else Suc (max_depth m)) \<and> max_depth m1 \<le> MAX_DEPTH"
  by (auto simp: close_container_def and_then_eq_Inr deeper_by_one_def split: if_splits dest!: validate_composed_result)

lemma checked_mul_Some: "checked_mul a b = Some c \<Longrightarrow> unat c = unat a * unat b"
  by (auto simp: checked_mul_def unat_word_ariths split: if_splits)

lemma array_bound:
  assumes "array_v1 n child = Inr m" "length vs \<le> unat n" "list_all (within child) vs"
  shows "within m (Array vs)"
proof (cases "n = 0")
  case True
  then have "unat (token_bytes m) = 2 \<and> max_depth m = 1"
    using assms(1) by (auto simp: array_v1_def and_then_eq_Inr dest!: checked_add_Some validate_composed_result)
  then show ?thesis using True assms(2) by (simp add: within_def enc_simps MAX_DEPTH_def)
next
  case False
  then obtain a c t d where parts: "checked_mul n (token_bytes child) = Some a" "checked_add a (n - 1) = Some c"
    "checked_add c 2 = Some t" "deeper_by_one (max_depth child) = Inr d"
    and m: "validate_composed_v1 \<lparr>token_bytes = t, max_depth = d, max_object_keys = max_object_keys child,
          max_string_bytes = max_string_bytes child\<rparr> = Inr m"
    using assms(1) by (auto simp: array_v1_def and_then_eq_Inr bind_eq_Some_conv)
  have d: "d = Suc (max_depth child)" using parts(4) by (auto simp: deeper_by_one_def split: if_splits)
  have pos: "0 < unat n" using False by (simp add: unat_gt_0)
  then have "unat (n - 1) = unat n - 1" by (simp add: unat_sub word_le_nat_alt)
  then have t: "unat t = unat n * unat (token_bytes child) + unat n + 1"
    using parts pos by (auto dest!: checked_mul_Some checked_add_Some)
  have m1: "token_bytes m = t" "max_depth m = Suc (max_depth child)" "max_depth m \<le> MAX_DEPTH"
    using validate_composed_result[OF m] d by auto
  have "length (enc (Array vs)) \<le> unat t"
  proof (cases "vs = []")
    case True
    then show ?thesis using t pos by (simp add: enc_simps)
  next
    case False
    have "sum_list (map (\<lambda>v. length (enc v)) vs) \<le> sum_list (map (\<lambda>_. unat (token_bytes child)) vs)"
      using assms(3) by (intro sum_list_mono) (auto simp: list_all_iff within_def)
    also have "\<dots> \<le> unat n * unat (token_bytes child)" using assms(2) by (simp add: sum_list_triv)
    finally show ?thesis using length_enc_array[OF False] t assms(2) by simp
  qed
  then show ?thesis using m1 assms(3) by (simp add: within_def list_all_iff)
qed

lemma choice_bound:
  assumes "choice_v1 l r = Inr m" "within l v \<or> within r v"
  shows "within m v"
proof -
  have m: "m = \<lparr>token_bytes = max (token_bytes l) (token_bytes r), max_depth = max (max_depth l) (max_depth r),
        max_object_keys = max (max_object_keys l) (max_object_keys r),
        max_string_bytes = max (max_string_bytes l) (max_string_bytes r)\<rparr>" "max_depth m \<le> MAX_DEPTH"
    using validate_composed_result[of _ m] assms(1) by (auto simp: choice_v1_def)
  have "unat (max (token_bytes l) (token_bytes r)) = max (unat (token_bytes l)) (unat (token_bytes r))"
    by (simp add: max_def word_le_nat_alt)
  then show ?thesis
    using assms(2) m fits_mono[of "max_depth l" v "max_depth m"] fits_mono[of "max_depth r" v "max_depth m"]
    by (auto simp: within_def)
qed

lemma fixed_array_loop_result:
  "fixed_array_loop i m cs = Inr m1 \<Longrightarrow>
   unat (token_bytes m1) + (if i = 0 \<and> cs \<noteq> [] then 1 else 0) =
     unat (token_bytes m) + sum_list (map (\<lambda>c. unat (token_bytes c)) cs) + length cs \<and>
   max_depth m \<le> max_depth m1 \<and> (\<forall>c\<in>set cs. max_depth c \<le> max_depth m1)"
proof (induction i m cs rule: fixed_array_loop.induct)
  case (2 i m c cs)
  obtain t t1 where t: "(if i \<noteq> 0 then ok_or (checked_add (token_bytes m) 1) Arithmetic else Inr (token_bytes m)) = Inr t"
    and t1: "checked_add t (token_bytes c) = Some t1"
    and more: "fixed_array_loop (i + 1) \<lparr>token_bytes = t1, max_depth = max (max_depth m) (max_depth c),
        max_object_keys = max (max_object_keys m) (max_object_keys c),
        max_string_bytes = max (max_string_bytes m) (max_string_bytes c)\<rparr> cs = Inr m1"
    using 2(2) by (auto simp: and_then_eq_Inr)
  have ut: "unat t = unat (token_bytes m) + (if i = 0 then 0 else 1)"
    using t by (auto dest!: checked_add_Some split: if_splits)
  have IH: "unat (token_bytes m1) = unat t1 + sum_list (map (\<lambda>c. unat (token_bytes c)) cs) + length cs \<and>
      max (max_depth m) (max_depth c) \<le> max_depth m1 \<and> (\<forall>c\<in>set cs. max_depth c \<le> max_depth m1)"
    using 2(1)[OF t _ more] t1 by simp
  then show ?case using ut checked_add_Some[OF t1] by auto
qed simp

lemma fixed_array_bound:
  assumes "fixed_array_v1 cs = Inr m" "list_all2 within cs vs"
  shows "within m (Array vs)"
proof -
  obtain m0 where loop: "fixed_array_loop 0 \<lparr>token_bytes = 2, max_depth = 0, max_object_keys = 0, max_string_bytes = 0\<rparr> cs = Inr m0"
    and close: "close_container (cs = []) m0 = Inr m"
    using assms(1) by (auto simp: fixed_array_v1_def and_then_eq_Inr)
  note l = fixed_array_loop_result[OF loop]
  note c = close_container_result[OF close]
  have len: "length cs = length vs" using assms(2) by (rule list_all2_lengthD)
  show ?thesis
  proof (cases "cs = []")
    case True
    then show ?thesis using l c len by (simp add: within_def enc_simps)
  next
    case False
    have "sum_list (map (\<lambda>v. length (enc v)) vs) \<le> sum_list (map (\<lambda>c. unat (token_bytes c)) cs)"
      using assms(2) by (induction rule: list_all2_induct) (auto simp: within_def)
    moreover have "fits (max_depth m0) v" if "v \<in> set vs" for v
    proof -
      obtain i where i: "i < length vs" "v = vs ! i" using \<open>v \<in> set vs\<close> by (auto simp: in_set_conv_nth)
      then have "within (cs ! i) v" "cs ! i \<in> set cs" using assms(2) len by (auto simp: list_all2_conv_all_nth)
      then show ?thesis using l fits_mono[of "max_depth (cs ! i)" v "max_depth m0"] by (auto simp: within_def)
    qed
    ultimately show ?thesis
      using False l c len length_enc_array[of vs] by (cases "vs = []") (auto simp: within_def list_all_iff)
  qed
qed

lemma object_max_loop_result:
  "object_max_loop previous i m fs = Inr m1 \<Longrightarrow>
   unat (token_bytes m1) + (if i = 0 \<and> fs \<noteq> [] then 1 else 0) =
     unat (token_bytes m) + sum_list (map (\<lambda>(k, c). length (enc_string k) + unat (token_bytes c) + 1) fs) + length fs \<and>
   max_depth m \<le> max_depth m1 \<and> (\<forall>(k, c)\<in>set fs. string_ok k \<and> max_depth c \<le> max_depth m1) \<and>
   sorted_wrt bytes_less ((case previous of None \<Rightarrow> [] | Some p \<Rightarrow> [p]) @ map fst fs)"
proof (induction previous i m fs rule: object_max_loop.induct)
  case (2 previous i m k c fs)
  obtain s t t1 where order: "\<not> (case previous of Some p \<Rightarrow> \<not> bytes_less p k | None \<Rightarrow> False)"
    and s: "fixed_ascii_string_v1 k = Inr s"
    and t: "(if i \<noteq> 0 then ok_or (checked_add (token_bytes m) 1) Arithmetic else Inr (token_bytes m)) = Inr t"
    and t1: "Option.bind (checked_add t (token_bytes s)) (\<lambda>a.
             Option.bind (checked_add a 1) (\<lambda>b. checked_add b (token_bytes c))) = Some t1"
    and more: "object_max_loop (Some k) (i + 1) \<lparr>token_bytes = t1, max_depth = max (max_depth m) (max_depth c),
             max_object_keys = max (max_object_keys m) (max_object_keys c),
             max_string_bytes = max (max (max_string_bytes m) (max_string_bytes s)) (max_string_bytes c)\<rparr> fs = Inr m1"
    using 2(2) by (auto simp: and_then_eq_Inr simp del: ok_or_eq_Inr split: if_splits) auto
  have ut: "unat t = unat (token_bytes m) + (if i = 0 then 0 else 1)"
    using t by (auto dest!: checked_add_Some split: if_splits)
  have ut1: "unat t1 = unat t + length (enc_string k) + 1 + unat (token_bytes c)"
    using t1 fixed_string_bound[OF s] by (auto simp: bind_eq_Some_conv dest!: checked_add_Some)
  have IH: "unat (token_bytes m1) =
       unat t1 + sum_list (map (\<lambda>(k, c). length (enc_string k) + unat (token_bytes c) + 1) fs) + length fs \<and>
     max (max_depth m) (max_depth c) \<le> max_depth m1 \<and>
     (\<forall>(k, c)\<in>set fs. string_ok k \<and> max_depth c \<le> max_depth m1) \<and> sorted_wrt bytes_less (k # map fst fs)"
    using 2(1)[OF order s t _ more] t1 by simp
  have sorted: "sorted_wrt bytes_less ((case previous of None \<Rightarrow> [] | Some p \<Rightarrow> [p]) @ k # map fst fs)"
  proof (cases previous)
    case (Some p)
    then have "bytes_less p k" using order by simp
    then show ?thesis using IH Some bytes_less_trans by auto
  qed (use IH in simp)
  show ?case using IH ut ut1 sorted fixed_string_bound[OF s] by auto
qed (auto split: option.split)

lemma object_bound:
  assumes "object_v1 fs = Inr m" "list_all2 (\<lambda>(k, c) (l, v). k = l \<and> within c v) fs kvs"
  shows "within m (Object kvs)"
proof -
  obtain m0 where few: "length fs \<le> MAX_OBJECT_KEYS"
    and loop: "object_max_loop None 0
        \<lparr>token_bytes = 2, max_depth = 0, max_object_keys = length fs, max_string_bytes = 0\<rparr> fs = Inr m0"
    and close: "close_container (fs = []) m0 = Inr m"
    using assms(1) by (auto simp: object_v1_def and_then_eq_Inr not_less split: if_splits)
  note l = object_max_loop_result[OF loop]
  note c = close_container_result[OF close]
  have len: "length fs = length kvs" using assms(2) by (rule list_all2_lengthD)
  have keys: "map fst fs = map fst kvs" using assms(2) by (induction rule: list_all2_induct) auto
  show ?thesis
  proof (cases "fs = []")
    case True
    then show ?thesis using l c len by (simp add: within_def enc_simps MAX_OBJECT_KEYS_def)
  next
    case False
    have "sum_list (map (\<lambda>(k, v). length (enc_string k) + length (enc v) + 1) kvs) \<le>
        sum_list (map (\<lambda>(k, c). length (enc_string k) + unat (token_bytes c) + 1) fs)"
      using assms(2) by (induction rule: list_all2_induct) (auto simp: within_def)
    then have bytes: "length (enc (Object kvs)) \<le> unat (token_bytes m)"
      using False l c len length_enc_object[of kvs] by (cases "kvs = []") auto
    have "string_ok k \<and> fits (max_depth m0) v" if "(k, v) \<in> set kvs" for k v
    proof -
      obtain i where i: "i < length kvs" "(k, v) = kvs ! i" using \<open>(k, v) \<in> set kvs\<close> by (auto simp: in_set_conv_nth)
      obtain k1 ch where f: "fs ! i = (k1, ch)" by (cases "fs ! i")
      have "within ch v" "k1 = k" using list_all2_nthD2[OF assms(2) i(1)] f i(2)[symmetric] by simp_all
      moreover have "(k1, ch) \<in> set fs" using f i(1) len by (metis nth_mem)
      ultimately show ?thesis using l fits_mono[of "max_depth ch" v "max_depth m0"] by (auto simp: within_def)
    qed
    moreover have "sorted_wrt bytes_less (map fst kvs)" using l keys by simp
    ultimately show ?thesis
      using False bytes few len c by (auto simp: within_def list_all_iff)
  qed
qed

section \<open>Closed grammars\<close>

datatype grammar =
    GNull | GBool bool | GU63 | GU32 | GReturn | GDigits u8 | GU64 u64
  | GLiteral bytes | GStringBytes u64
  | GChoice grammar grammar
  | GArray u64 grammar
  | GFixedArray "grammar list"
  | GObject "(bytes \<times> grammar) list"

fun all_results :: "('e + 'a) list \<Rightarrow> 'e + 'a list" where
  "all_results [] = Inr []"
| "all_results (r # rs) = and_then r (\<lambda>x. and_then (all_results rs) (\<lambda>xs. Inr (x # xs)))"

text \<open>The composition of the constructors that a closed grammar writes down.\<close>

fun closed_max_of :: "grammar \<Rightarrow> closed_max" where
  "closed_max_of GNull = Inr null_v1"
| "closed_max_of (GBool b) = Inr (bool_v1 b)"
| "closed_max_of GU63 = Inr max_u63_v1"
| "closed_max_of GU32 = Inr max_u32_v1"
| "closed_max_of GReturn = Inr terminal_return_i8_v1"
| "closed_max_of (GDigits n) = exact_unsigned_decimal_digits_v1 n"
| "closed_max_of (GU64 w) = Inr (exact_u64_v1 w)"
| "closed_max_of (GLiteral s) = fixed_ascii_string_v1 s"
| "closed_max_of (GStringBytes n) = fixed_ascii_string_bytes_v1 n"
| "closed_max_of (GChoice g h) = and_then (closed_max_of g) (\<lambda>l. and_then (closed_max_of h) (\<lambda>r. choice_v1 l r))"
| "closed_max_of (GArray n g) = and_then (closed_max_of g) (array_v1 n)"
| "closed_max_of (GFixedArray gs) = and_then (all_results (map closed_max_of gs)) fixed_array_v1"
| "closed_max_of (GObject fs) =
     and_then (all_results (map (\<lambda>(k, g). and_then (closed_max_of g) (\<lambda>m. Inr (k, m))) fs)) object_v1"

text \<open>The values of a grammar. A terminal return is -1, 0 or 1; a string given by its length alone has
  no byte that needs an escape.\<close>

inductive generates :: "grammar \<Rightarrow> CanonicalJsonValueV1 \<Rightarrow> bool" where
  "generates GNull Null"
| "generates (GBool b) (Bool b)"
| "unat w < 2 ^ 63 \<Longrightarrow> generates GU63 (Number (Unsigned w))"
| "unat w < 2 ^ 32 \<Longrightarrow> generates GU32 (Number (Unsigned w))"
| "sint w \<in> {-1, 0, 1} \<Longrightarrow> generates GReturn (Number (Signed w))"
| "unat w < 10 ^ unat n \<Longrightarrow> generates (GDigits n) (Number (Unsigned w))"
| "generates (GU64 w) (Number (Unsigned w))"
| "generates (GLiteral s) (Text s)"
| "length s = unat n \<Longrightarrow> list_all is_printable s \<Longrightarrow> 34 \<notin> set s \<Longrightarrow> 92 \<notin> set s \<Longrightarrow>
   generates (GStringBytes n) (Text s)"
| "generates g v \<Longrightarrow> generates (GChoice g h) v"
| "generates h v \<Longrightarrow> generates (GChoice g h) v"
| "length vs \<le> unat n \<Longrightarrow> \<forall>v\<in>set vs. generates g v \<Longrightarrow> generates (GArray n g) (Array vs)"
| "list_all2 generates gs vs \<Longrightarrow> generates (GFixedArray gs) (Array vs)"
| "map fst fs = map fst kvs \<Longrightarrow> list_all2 generates (map snd fs) (map snd kvs) \<Longrightarrow>
   generates (GObject fs) (Object kvs)"

lemma all_results_Inr: "all_results rs = Inr xs \<Longrightarrow> rs = map Inr xs"
  by (induction rs arbitrary: xs) (auto simp: and_then_eq_Inr)

lemma object_results:
  "map (\<lambda>(k, g). and_then (closed_max_of g) (\<lambda>m. Inr (k, m))) fs = map Inr ms \<Longrightarrow>
   map fst ms = map fst fs \<and> map (\<lambda>p. Inr (snd p)) ms = map (\<lambda>p. closed_max_of (snd p)) fs"
proof (induction fs arbitrary: ms)
  case (Cons f fs)
  then show ?case by (cases f; cases ms) (auto simp: and_then_eq_Inr)
qed simp

lemma number_within:
  "length (number_bytes k) \<le> n \<Longrightarrow> n < 2 ^ 64 \<Longrightarrow> within (scalar_v1 (word_of_nat n)) (Number k)"
  by (simp add: within_def scalar_v1_def enc_simps unat_small)

lemma unsigned_within: "unat w < 10 ^ Suc k \<Longrightarrow> Suc k < 2 ^ 64 \<Longrightarrow> within (scalar_v1 (word_of_nat (Suc k))) (Number (Unsigned w))"
  using decimal_length[of "unat w" k] by (intro number_within) (simp_all add: number_bytes_def)

lemma escape_plain: "34 \<notin> set s \<Longrightarrow> 92 \<notin> set s \<Longrightarrow> escape s = s"
  by (induction s) (auto simp: escape_simps)

lemma return_within: "sint w \<in> {-1, 0, 1} \<Longrightarrow> within terminal_return_i8_v1 (Number (Signed w))"
proof -
  assume w: "sint w \<in> {-1, 0, 1}"
  have "decimal 0 = [48]" "decimal 1 = [49]" by code_simp+
  then have "length (number_bytes (Signed w)) \<le> 2" using w by (auto simp: number_bytes_def)
  then show ?thesis using number_within[of "Signed w" 2] by (simp add: terminal_return_i8_v1_def)
qed

lemma digits_within:
  assumes "exact_unsigned_decimal_digits_v1 n = Inr m" "unat w < 10 ^ unat n"
  shows "within m (Number (Unsigned w))"
proof -
  have n: "1 \<le> unat n" "unat n \<le> 19" and m: "m = scalar_v1 (ucast n)"
    using assms(1) by (auto simp: exact_unsigned_decimal_digits_v1_def word_le_nat_alt split: if_splits)
  then obtain k where k: "unat n = Suc k" by (cases "unat n") auto
  have "(ucast n :: u64) = word_of_nat (Suc k)" using k by (metis of_nat_unat)
  then show ?thesis using unsigned_within[of w k] assms(2) m n k by simp
qed

lemma exact_u64_within: "within (exact_u64_v1 w) (Number (Unsigned w))"
proof -
  have "unat w < 10 ^ Suc 19" using unat_bound_u64[of w] by simp
  then have "length (decimal (unat w)) \<le> 20" using decimal_length[of "unat w" 19] by simp
  then have "unat (decimal_digits_loop w 1) = length (decimal (unat w))"
    using digits_loop_length[of 1 w] by simp
  then show ?thesis by (simp add: within_def exact_u64_v1_def scalar_v1_def enc_simps number_bytes_def)
qed

lemma string_bytes_within:
  assumes "fixed_ascii_string_bytes_v1 n = Inr m" "length s = unat n" "list_all is_printable s" "34 \<notin> set s" "92 \<notin> set s"
  shows "within m (Text s)"
  using assms escape_plain[of s]
  by (auto simp: fixed_ascii_string_bytes_v1_def and_then_eq_Inr within_def enc_simps enc_string_def string_ok_def
      dest!: checked_add_Some split: if_splits)

lemma closed_max_within: "generates g v \<Longrightarrow> closed_max_of g = Inr m \<Longrightarrow> within m v"
proof (induction arbitrary: m rule: generates.induct)
  case 1
  then show ?case by (auto simp: within_def null_v1_def scalar_v1_def enc_simps as_bytes_literals)
next
  case (2 b)
  then show ?case by (cases b) (auto simp: within_def bool_v1_def scalar_v1_def enc_simps as_bytes_literals)
next
  case (3 w)
  then show ?case using unsigned_within[of w 18] by (auto simp: max_u63_v1_def)
next
  case (4 w)
  then show ?case using unsigned_within[of w 9] by (auto simp: max_u32_v1_def)
next
  case (5 w)
  then show ?case using return_within[of w] by simp
next
  case (6 w n)
  then show ?case using digits_within[of n m w] by simp
next
  case (7 w)
  then show ?case using exact_u64_within[of w] by auto
next
  case (8 s)
  then show ?case using fixed_string_bound[of s m] by (auto simp: within_def enc_simps)
next
  case (9 s n)
  then show ?case using string_bytes_within[of n m s] by simp
next
  case (10 g v h)
  then show ?case by (auto simp: and_then_eq_Inr intro: choice_bound)
next
  case (11 h v g)
  then show ?case by (auto simp: and_then_eq_Inr intro: choice_bound)
next
  case (12 vs n g)
  then show ?case by (auto simp: and_then_eq_Inr list_all_iff intro: array_bound)
next
  case (13 gs vs)
  then obtain cs where cs: "map closed_max_of gs = map Inr cs" "fixed_array_v1 cs = Inr m"
    by (auto simp: and_then_eq_Inr dest: all_results_Inr)
  have "list_all2 within cs vs"
    using 13(1) cs(1) by (auto simp: list_all2_conv_all_nth list_eq_iff_nth_eq)
  then show ?case using fixed_array_bound[OF cs(2)] by simp
next
  case (14 fs kvs)
  then obtain ms where ms: "map (\<lambda>(k, g). and_then (closed_max_of g) (\<lambda>m. Inr (k, m))) fs = map Inr ms" "object_v1 ms = Inr m"
    by (auto simp: and_then_eq_Inr dest: all_results_Inr)
  note parts = object_results[OF ms(1)]
  have "list_all2 (\<lambda>(k, c) (l, v). k = l \<and> within c v) ms kvs"
    using 14(1,2) parts by (auto simp: list_all2_conv_all_nth list_eq_iff_nth_eq split_def)
  then show ?case using object_bound[OF ms(2)] by simp
qed

text \<open>C11. The allocation-free maximum is sound: for every closed grammar whose maximum the constructors
  accept, each document of the grammar keeps the bounds of the store and its canonical encoding,
  the final line feed included, is no longer than the computed number of bytes, with no addition or
  multiplication of the computation wrapping around.\<close>

theorem closed_max_sound:
  assumes "closed_max_of g = Inr m" "canonical_document_bytes_v1 m = Inr n" "generates g v"
  shows "length (encode_value_with_final_lf v) \<le> unat n \<and> fits MAX_DEPTH v"
proof -
  have w: "within m v" using closed_max_within[OF assms(3,1)] .
  then have "unat n = unat (token_bytes m) + 1"
    using assms(2) by (auto simp: canonical_document_bytes_v1_def and_then_eq_Inr dest!: validate_composed_result checked_add_Some)
  moreover have "fits MAX_DEPTH v" using w fits_mono by (auto simp: within_def)
  ultimately show ?thesis using w by (simp add: within_def encode_enc)
qed

theorem closed_max_sound_witness:
  "length (encode_value_with_final_lf (Object [(as_bytes ''a'', Array [Number (Unsigned 7), Number (Unsigned 12)])])) \<le> 48"
proof -
  let ?g = "GObject [(as_bytes ''a'', GArray 2 GU63)]"
  have m: "closed_max_of ?g = Inr \<lparr>token_bytes = 47, max_depth = 2, max_object_keys = 1, max_string_bytes = 1\<rparr>"
    by (simp add: max_u63_v1_def scalar_v1_def array_v1_def checked_mul_def checked_add_def deeper_by_one_def
        validate_composed_v1_def object_v1_def fixed_ascii_string_v1_def close_container_def as_bytes_def of_char_of
        is_printable_def MAX_DEPTH_def MAX_OBJECT_KEYS_def MAX_STRING_BYTES_def)
  have n: "canonical_document_bytes_v1 \<lparr>token_bytes = 47, max_depth = 2, max_object_keys = 1, max_string_bytes = 1\<rparr> = Inr 48"
    by (simp add: canonical_document_bytes_v1_def validate_composed_v1_def checked_add_def
        MAX_DEPTH_def MAX_OBJECT_KEYS_def MAX_STRING_BYTES_def)
  have "generates ?g (Object [(as_bytes ''a'', Array [Number (Unsigned 7), Number (Unsigned 12)])])"
    by (auto intro!: generates.intros)
  from closed_max_sound[OF m n this] show ?thesis by simp
qed

end
