(* ===== verification/Staleness.thy ===== *)
theory Staleness
  imports Prelude
begin

text \<open>
  \<^verbatim>\<open>mtg-kernel/src/bounded_staleness_async_v1.rs\<close> and the loop that drives it in
  \<^verbatim>\<open>bounded_staleness_async_harness_v1.rs\<close>: a producer thread scores batches of episodes against
  published weights while the trainer consumes them. The model interleaves the two threads at
  their critical sections: the producer's gate under the state lock, the production outside it, the
  push under the queue lock; the trainer's pop and ledger record, the publication under the state
  lock and, as a step of its own, the notification after the lock is released. A waiting producer
  (\<open>Parked\<close>) is woken by a notification or spuriously. What a batch holds and which episodes it
  scored is arbitrary.
\<close>

section \<open>Execution modes\<close>

datatype TrainingExecutionModeV1 =
    SynchronousV1
  | BoundedStalenessAsyncV1 (max_staleness_updates: u32)

datatype TrainingExecutionModeValidationErrorV1 = ZeroStalenessBound

definition validate_mode_v1 :: "TrainingExecutionModeV1 \<Rightarrow> (unit, TrainingExecutionModeValidationErrorV1) result" where
  "validate_mode_v1 mode =
     (case mode of
        SynchronousV1 \<Rightarrow> Inr ()
      | BoundedStalenessAsyncV1 k \<Rightarrow> if k = 0 then Inl ZeroStalenessBound else Inr ())"

definition is_synchronous_v1 :: "TrainingExecutionModeV1 \<Rightarrow> bool" where
  "is_synchronous_v1 mode = (case mode of SynchronousV1 \<Rightarrow> True | BoundedStalenessAsyncV1 _ \<Rightarrow> False)"

definition max_staleness_updates_v1 :: "TrainingExecutionModeV1 \<Rightarrow> u32 option" where
  "max_staleness_updates_v1 mode = (case mode of SynchronousV1 \<Rightarrow> None | BoundedStalenessAsyncV1 k \<Rightarrow> Some k)"

section \<open>The ledger\<close>

record StalenessLedgerEntryV1 =
  episode_id :: u64
  scoring_weight_version :: u64
  consuming_update_version :: u64

definition staleness_v1 :: "StalenessLedgerEntryV1 \<Rightarrow> u64" where
  "staleness_v1 e = saturating_sub (consuming_update_version e) (scoring_weight_version e)"

record StalenessBoundViolationV1 =
  violating_entry :: StalenessLedgerEntryV1
  violated_bound :: u32

definition check_staleness_bound_v1 :: "StalenessLedgerEntryV1 \<Rightarrow> u32 \<Rightarrow> (unit, StalenessBoundViolationV1) result" where
  "check_staleness_bound_v1 e k =
     (let violates_causality = scoring_weight_version e > consuming_update_version e;
          violates_bound = staleness_v1 e > ucast k in
      if violates_causality \<or> violates_bound then Inl \<lparr>violating_entry = e, violated_bound = k\<rparr> else Inr ())"

definition record_v1 ::
  "StalenessLedgerEntryV1 \<Rightarrow> u32 \<Rightarrow> StalenessLedgerEntryV1 list
    \<Rightarrow> (unit, StalenessBoundViolationV1) result \<times> StalenessLedgerEntryV1 list" where
  "record_v1 e k entries = (check_staleness_bound_v1 e k, entries @ [e])"

definition max_observed_staleness_v1 :: "StalenessLedgerEntryV1 list \<Rightarrow> u64 option" where
  "max_observed_staleness_v1 entries = (if entries = [] then None else Some (Max (set (map staleness_v1 entries))))"

fun enforce_all_v1 :: "u32 \<Rightarrow> StalenessLedgerEntryV1 list \<Rightarrow> (unit, StalenessBoundViolationV1) result" where
  "enforce_all_v1 k [] = Inr ()"
| "enforce_all_v1 k (e # es) = and_then (check_staleness_bound_v1 e k) (\<lambda>_. enforce_all_v1 k es)"

section \<open>The scheduler\<close>

datatype BoundedStalenessConsumeErrorV1 = Timeout | BoundViolation StalenessBoundViolationV1 | ProducerEnded

record 'w SchedulerStateV1 =
  published_version :: u64
  published_weights :: 'w
  next_dispatch_update :: u64
  stopped :: bool

record 'b ReadyBatchV1 =
  ready_consuming_version :: u64
  ready_scoring_version :: u64
  ready_batch :: 'b
  episode_ids :: "u64 list"

record 'b BoundedStalenessConsumedBatchV1 =
  batch :: 'b
  consumed_update_version :: u64
  consumed_scoring_version :: u64

text \<open>One pass of the gate's loop with the lock held.\<close>

datatype 'w gate = Leave | Wait | Dispatch u64 u64 'w "'w SchedulerStateV1"

definition dispatch_gate :: "u32 \<Rightarrow> 'w SchedulerStateV1 \<Rightarrow> 'w gate" where
  "dispatch_gate k s =
     (if stopped s then Leave
      else
        (let target = next_dispatch_update s in
         if saturating_sub target (published_version s) \<le> ucast k
         then Dispatch target (published_version s) (published_weights s) (s\<lparr>next_dispatch_update := target + 1\<rparr>)
         else Wait))"

definition publish_state :: "u64 \<Rightarrow> 'w \<Rightarrow> 'w SchedulerStateV1 \<Rightarrow> 'w SchedulerStateV1" where
  "publish_state updates_completed weights s =
     s\<lparr>published_version := updates_completed, published_weights := weights\<rparr>"

text \<open>The producer: how many iterations are left, and where in one it is.\<close>

datatype ('w, 'b) worker =
    AtGate nat
  | Parked nat
  | Producing nat u64 u64 'w
  | Pushing nat "'b ReadyBatchV1"
  | Ended

fun record_episodes ::
  "u32 \<Rightarrow> u64 \<Rightarrow> u64 \<Rightarrow> u64 list \<Rightarrow> StalenessBoundViolationV1 option \<times> StalenessLedgerEntryV1 list
    \<Rightarrow> StalenessBoundViolationV1 option \<times> StalenessLedgerEntryV1 list" where
  "record_episodes k scoring consuming [] (first, entries) = (first, entries)"
| "record_episodes k scoring consuming (i # is) (first, entries) =
     (case record_v1 \<lparr>episode_id = i, scoring_weight_version = scoring, consuming_update_version = consuming\<rparr> k entries of
        (outcome, entries1) \<Rightarrow>
          record_episodes k scoring consuming is
            (case (first, outcome) of (None, Inl v) \<Rightarrow> Some v | _ \<Rightarrow> first, entries1))"

text \<open>The consumer, once the wait for a batch is over: with the queue and the ledger it leaves.\<close>

definition next_batch_v1 ::
  "u32 \<Rightarrow> bool \<Rightarrow> 'b ReadyBatchV1 list \<Rightarrow> StalenessLedgerEntryV1 list
    \<Rightarrow> ('b BoundedStalenessConsumedBatchV1, BoundedStalenessConsumeErrorV1) result \<times>
       'b ReadyBatchV1 list \<times> StalenessLedgerEntryV1 list" where
  "next_batch_v1 k worker_finished ready entries =
     (case ready of
        [] \<Rightarrow> (Inl (if worker_finished then ProducerEnded else Timeout), [], entries)
      | b # bs \<Rightarrow>
          (case record_episodes k (ready_scoring_version b) (ready_consuming_version b) (episode_ids b) (None, entries) of
             (Some v, entries1) \<Rightarrow> (Inl (BoundViolation v), bs, entries1)
           | (None, entries1) \<Rightarrow>
               (Inr \<lparr>batch = ready_batch b, consumed_update_version = ready_consuming_version b,
                     consumed_scoring_version = ready_scoring_version b\<rparr>, bs, entries1)))"

section \<open>The two threads\<close>

text \<open>The trainer's loop over the updates, and the drop of the scheduler after it or after an error:
  set the flag, notify, join.\<close>

datatype trainer =
    Consuming u64
  | Training u64
  | Notifying u64
  | Closing "BoundedStalenessConsumeErrorV1 option"
  | ClosingNotify "BoundedStalenessConsumeErrorV1 option"
  | Joining "BoundedStalenessConsumeErrorV1 option"
  | Finished "BoundedStalenessConsumeErrorV1 option"

record ('w, 'b) system =
  sched :: "'w SchedulerStateV1"
  worker :: "('w, 'b) worker"
  ready :: "'b ReadyBatchV1 list"
  ledger :: "StalenessLedgerEntryV1 list"
  trainer :: trainer
  collected :: "'b BoundedStalenessConsumedBatchV1 list"

text \<open>\<^verbatim>\<open>spawn_v1\<close>: a bound of 0 panics.\<close>

definition spawn_v1 :: "'w \<Rightarrow> u32 \<Rightarrow> u64 \<Rightarrow> ('w, 'b) system option" where
  "spawn_v1 weights k updates =
     (if \<not> k \<ge> 1 then None
      else Some
        \<lparr>sched = \<lparr>published_version = 0, published_weights = weights, next_dispatch_update = 1, stopped = False\<rparr>,
         worker = AtGate (unat updates), ready = [], ledger = [],
         trainer = (if 1 \<le> updates then Consuming 1 else Closing None), collected = []\<rparr>)"

definition after_update :: "u64 \<Rightarrow> u64 \<Rightarrow> trainer" where
  "after_update updates u = (if u < updates then Consuming (u + 1) else Closing None)"

definition wake :: "('w, 'b) worker \<Rightarrow> ('w, 'b) worker" where
  "wake w = (case w of Parked n \<Rightarrow> AtGate n | _ \<Rightarrow> w)"

text \<open>Steps that bring the run forward.\<close>

inductive progress :: "u32 \<Rightarrow> u64 \<Rightarrow> ('w, 'b) system \<Rightarrow> ('w, 'b) system \<Rightarrow> bool" for k updates where
  exhausted: "worker s = AtGate 0 \<Longrightarrow> progress k updates s (s\<lparr>worker := Ended\<rparr>)"
| leave: "worker s = AtGate (Suc n) \<Longrightarrow> dispatch_gate k (sched s) = Leave \<Longrightarrow>
    progress k updates s (s\<lparr>worker := Ended\<rparr>)"
| park: "worker s = AtGate (Suc n) \<Longrightarrow> dispatch_gate k (sched s) = Wait \<Longrightarrow>
    progress k updates s (s\<lparr>worker := Parked (Suc n)\<rparr>)"
| dispatch: "worker s = AtGate (Suc n) \<Longrightarrow> dispatch_gate k (sched s) = Dispatch target scoring weights sched' \<Longrightarrow>
    progress k updates s (s\<lparr>sched := sched', worker := Producing n target scoring weights\<rparr>)"
| produce: "worker s = Producing n target scoring weights \<Longrightarrow>
    progress k updates s (s\<lparr>worker := Pushing n \<lparr>ready_consuming_version = target, ready_scoring_version = scoring,
      ready_batch = b, episode_ids = ids\<rparr>\<rparr>)"
| push: "worker s = Pushing n b \<Longrightarrow>
    progress k updates s (s\<lparr>worker := AtGate n, ready := ready s @ [b]\<rparr>)"
| consume: "trainer s = Consuming u \<Longrightarrow> ready s \<noteq> [] \<Longrightarrow>
    next_batch_v1 k False (ready s) (ledger s) = (Inr b, rest, entries) \<Longrightarrow>
    progress k updates s (s\<lparr>ready := rest, ledger := entries, collected := collected s @ [b], trainer := Training u\<rparr>)"
| violation: "trainer s = Consuming u \<Longrightarrow> ready s \<noteq> [] \<Longrightarrow>
    next_batch_v1 k False (ready s) (ledger s) = (Inl e, rest, entries) \<Longrightarrow>
    progress k updates s (s\<lparr>ready := rest, ledger := entries, trainer := Closing (Some e)\<rparr>)"
| publish: "trainer s = Training u \<Longrightarrow>
    progress k updates s (s\<lparr>sched := publish_state u weights (sched s), trainer := Notifying u\<rparr>)"
| notify: "trainer s = Notifying u \<Longrightarrow>
    progress k updates s (s\<lparr>worker := wake (worker s), trainer := after_update updates u\<rparr>)"
| close: "trainer s = Closing r \<Longrightarrow>
    progress k updates s (s\<lparr>sched := (sched s)\<lparr>stopped := True\<rparr>, trainer := ClosingNotify r\<rparr>)"
| close_notify: "trainer s = ClosingNotify r \<Longrightarrow>
    progress k updates s (s\<lparr>worker := wake (worker s), trainer := Joining r\<rparr>)"
| join: "trainer s = Joining r \<Longrightarrow> worker s = Ended \<Longrightarrow> progress k updates s (s\<lparr>trainer := Finished r\<rparr>)"

text \<open>The environment's steps: a wait for a batch times out, or a wait of the producer ends spuriously.\<close>

inductive environment :: "u32 \<Rightarrow> ('w, 'b) system \<Rightarrow> ('w, 'b) system \<Rightarrow> bool" for k where
  timed_out: "trainer s = Consuming u \<Longrightarrow> ready s = [] \<Longrightarrow>
    next_batch_v1 k (worker s = Ended) (ready s) (ledger s) = (Inl e, rest, entries) \<Longrightarrow>
    environment k s (s\<lparr>trainer := Closing (Some e)\<rparr>)"
| spurious: "environment k s (s\<lparr>worker := wake (worker s)\<rparr>)"

inductive reachable :: "u32 \<Rightarrow> u64 \<Rightarrow> 'w \<Rightarrow> ('w, 'b) system \<Rightarrow> bool" for k updates weights where
  spawned: "spawn_v1 weights k updates = Some s \<Longrightarrow> reachable k updates weights s"
| stepped: "reachable k updates weights s \<Longrightarrow> progress k updates s t \<Longrightarrow> reachable k updates weights t"
| disturbed: "reachable k updates weights s \<Longrightarrow> environment k s t \<Longrightarrow> reachable k updates weights t"

section \<open>The invariant\<close>

text \<open>\<open>d\<close> batches have been dispatched, \<open>p\<close> pushed and \<open>c\<close> consumed.\<close>

definition in_bound :: "u32 \<Rightarrow> u64 \<Rightarrow> u64 \<Rightarrow> bool" where
  "in_bound k consuming scoring \<longleftrightarrow> scoring \<le> consuming \<and> unat consuming \<le> unat scoring + unat k"

definition good_batch :: "u32 \<Rightarrow> 'b ReadyBatchV1 \<Rightarrow> bool" where
  "good_batch k b \<longleftrightarrow> in_bound k (ready_consuming_version b) (ready_scoring_version b)"

definition worker_inv :: "u32 \<Rightarrow> u64 \<Rightarrow> nat \<Rightarrow> nat \<Rightarrow> ('w, 'b) system \<Rightarrow> bool" where
  "worker_inv k updates d p s \<longleftrightarrow>
     (case worker s of
        AtGate n \<Rightarrow> n + d = unat updates \<and> p = d
      | Parked n \<Rightarrow> 0 < n \<and> n + d = unat updates \<and> p = d
      | Producing n t sc w \<Rightarrow> n + d = unat updates \<and> Suc p = d \<and> unat t = d \<and> in_bound k t sc
      | Pushing n b \<Rightarrow> n + d = unat updates \<and> Suc p = d \<and> unat (ready_consuming_version b) = d \<and> good_batch k b
      | Ended \<Rightarrow> p = d \<and> d \<le> unat updates \<and> (\<not> stopped (sched s) \<longrightarrow> d = unat updates))"

definition outcome_inv :: "u64 \<Rightarrow> nat \<Rightarrow> ('w, 'b) system \<Rightarrow> BoundedStalenessConsumeErrorV1 option \<Rightarrow> bool" where
  "outcome_inv updates c s r \<longleftrightarrow>
     unat (published_version (sched s)) \<le> c \<and> c \<le> unat updates \<and>
     (case r of None \<Rightarrow> c = unat updates | Some e \<Rightarrow> e = Timeout)"

definition trainer_inv :: "u64 \<Rightarrow> nat \<Rightarrow> ('w, 'b) system \<Rightarrow> bool" where
  "trainer_inv updates c s \<longleftrightarrow>
     (case trainer s of
        Consuming u \<Rightarrow> unat u = Suc c \<and> Suc c \<le> unat updates \<and> unat (published_version (sched s)) = c \<and> \<not> stopped (sched s)
      | Training u \<Rightarrow> unat u = c \<and> c \<le> unat updates \<and> Suc (unat (published_version (sched s))) = c \<and> \<not> stopped (sched s)
      | Notifying u \<Rightarrow> unat u = c \<and> c \<le> unat updates \<and> unat (published_version (sched s)) = c \<and> \<not> stopped (sched s)
      | Closing r \<Rightarrow> outcome_inv updates c s r \<and> \<not> stopped (sched s)
      | ClosingNotify r \<Rightarrow> outcome_inv updates c s r \<and> stopped (sched s)
      | Joining r \<Rightarrow> outcome_inv updates c s r \<and> stopped (sched s)
      | Finished r \<Rightarrow> outcome_inv updates c s r \<and> stopped (sched s) \<and> worker s = Ended)"

definition notifying :: "('w, 'b) system \<Rightarrow> bool" where
  "notifying s \<longleftrightarrow> (case trainer s of Notifying _ \<Rightarrow> True | ClosingNotify _ \<Rightarrow> True | _ \<Rightarrow> False)"

definition no_lost_wakeup :: "u32 \<Rightarrow> nat \<Rightarrow> ('w, 'b) system \<Rightarrow> bool" where
  "no_lost_wakeup k d s \<longleftrightarrow>
     (case worker s of
        Parked n \<Rightarrow> notifying s \<or> \<not> stopped (sched s) \<and> unat (published_version (sched s)) + unat k < Suc d
      | _ \<Rightarrow> True)"

definition stores_inv :: "u32 \<Rightarrow> nat \<Rightarrow> nat \<Rightarrow> ('w, 'b) system \<Rightarrow> bool" where
  "stores_inv k p c s \<longleftrightarrow>
     map (\<lambda>b. unat (ready_consuming_version b)) (ready s) = [Suc c..<Suc p] \<and> list_all (good_batch k) (ready s) \<and>
     map (\<lambda>b. unat (consumed_update_version b)) (collected s) = [1..<Suc c] \<and>
     list_all (\<lambda>e. check_staleness_bound_v1 e k = Inr ()) (ledger s) \<and>
     list_all (\<lambda>b. in_bound k (consumed_update_version b) (consumed_scoring_version b)) (collected s)"

definition run_inv :: "u32 \<Rightarrow> u64 \<Rightarrow> nat \<Rightarrow> nat \<Rightarrow> nat \<Rightarrow> ('w, 'b) system \<Rightarrow> bool" where
  "run_inv k updates d p c s \<longleftrightarrow>
     1 \<le> k \<and> next_dispatch_update (sched s) = word_of_nat (Suc d) \<and>
     d \<le> unat (published_version (sched s)) + unat k \<and> unat (published_version (sched s)) \<le> c \<and> c \<le> p \<and> d \<le> unat updates \<and>
     worker_inv k updates d p s \<and> trainer_inv updates c s \<and> no_lost_wakeup k d s \<and> stores_inv k p c s"

lemma unat_ucast_u32: "unat (ucast (k :: u32) :: u64) = unat k"
  using unat_bound_u32[of k] by (simp add: unsigned_ucast_eq take_bit_nat_eq_self)

lemma check_bound_in: "check_staleness_bound_v1 e k = Inr () \<longleftrightarrow> in_bound k (consuming_update_version e) (scoring_weight_version e)"
  by (auto simp: check_staleness_bound_v1_def Let_def staleness_v1_def in_bound_def word_less_nat_alt word_le_nat_alt
      unat_saturating_sub unat_ucast_u32)

lemma record_episodes_good:
  "in_bound k consuming scoring \<Longrightarrow> list_all (\<lambda>e. check_staleness_bound_v1 e k = Inr ()) entries \<Longrightarrow>
   \<exists>entries1. record_episodes k scoring consuming ids (None, entries) = (None, entries1) \<and>
     list_all (\<lambda>e. check_staleness_bound_v1 e k = Inr ()) entries1"
proof (induction ids arbitrary: entries)
  case (Cons i ids)
  have "check_staleness_bound_v1 \<lparr>episode_id = i, scoring_weight_version = scoring, consuming_update_version = consuming\<rparr> k = Inr ()"
    using Cons.prems(1) by (simp add: check_bound_in)
  then show ?case using Cons by (simp add: record_v1_def)
qed simp

lemma next_batch_good:
  assumes "good_batch k b" "list_all (\<lambda>e. check_staleness_bound_v1 e k = Inr ()) entries"
  shows "\<exists>entries1. next_batch_v1 k fin (b # bs) entries =
      (Inr \<lparr>batch = ready_batch b, consumed_update_version = ready_consuming_version b,
            consumed_scoring_version = ready_scoring_version b\<rparr>, bs, entries1) \<and>
     list_all (\<lambda>e. check_staleness_bound_v1 e k = Inr ()) entries1"
  using record_episodes_good[OF assms(1)[unfolded good_batch_def] assms(2), of "episode_ids b"]
  by (auto simp: next_batch_v1_def)

lemma gate_target:
  assumes "run_inv k updates d p c s" "worker s = AtGate (Suc n)"
  shows "unat (next_dispatch_update (sched s)) = Suc d"
proof -
  have "Suc d < 2 ^ 64" using assms unat_bound_u64[of updates] by (auto simp: run_inv_def worker_inv_def)
  then show ?thesis using assms(1) by (simp add: run_inv_def unat_of_nat del: of_nat_Suc)
qed

lemmas run_inv_defs = run_inv_def worker_inv_def trainer_inv_def outcome_inv_def no_lost_wakeup_def stores_inv_def
  notifying_def

lemma spawn_valid: "spawn_v1 weights k updates = None \<longleftrightarrow> validate_mode_v1 (BoundedStalenessAsyncV1 k) \<noteq> Inr ()"
  by (auto simp: spawn_v1_def validate_mode_v1_def word_le_nat_alt Suc_le_eq unat_gt_0)

lemma spawn_inv: "spawn_v1 weights k updates = Some s \<Longrightarrow> run_inv k updates 0 0 0 s"
  by (cases "updates = 0") (auto simp: spawn_v1_def run_inv_defs word_le_nat_alt unat_gt_0 Suc_le_eq split: if_splits)

lemma dispatch_inv:
  assumes I: "run_inv k updates d p c s" and w: "worker s = AtGate (Suc n)"
    and g: "dispatch_gate k (sched s) = Dispatch target scoring weights sched'"
  shows "run_inv k updates (Suc d) p c (s\<lparr>sched := sched', worker := Producing n target scoring weights\<rparr>)"
proof -
  note t = gate_target[OF I w]
  let ?pv = "published_version (sched s)"
  have g1: "target = next_dispatch_update (sched s)" "scoring = ?pv" "sched' = (sched s)\<lparr>next_dispatch_update := target + 1\<rparr>"
    "saturating_sub target ?pv \<le> ucast k" "\<not> stopped (sched s)"
    using g by (auto simp: dispatch_gate_def Let_def split: if_splits)
  have stale: "Suc d \<le> unat ?pv + unat k"
    using g1(1,4) t by (simp add: word_le_nat_alt unat_saturating_sub unat_ucast_u32)
  have pv: "unat ?pv \<le> d" using I by (auto simp: run_inv_def worker_inv_def w)
  then have "in_bound k target scoring" using g1(1,2) t stale by (simp add: in_bound_def word_le_nat_alt)
  moreover have "next_dispatch_update sched' = word_of_nat (Suc (Suc d))"
    using I g1(1,3) by (simp add: run_inv_def)
  moreover have "published_version sched' = ?pv" "stopped sched' = stopped (sched s)" using g1(3) by simp_all
  ultimately show ?thesis
    using I w stale t g1(1) by (auto simp: run_inv_defs split: trainer.splits option.splits)
qed

lemma park_inv:
  assumes I: "run_inv k updates d p c s" and w: "worker s = AtGate (Suc n)" and g: "dispatch_gate k (sched s) = Wait"
  shows "run_inv k updates d p c (s\<lparr>worker := Parked (Suc n)\<rparr>)"
proof -
  note t = gate_target[OF I w]
  let ?pv = "published_version (sched s)"
  have "\<not> saturating_sub (next_dispatch_update (sched s)) ?pv \<le> ucast k" "\<not> stopped (sched s)"
    using g by (auto simp: dispatch_gate_def Let_def split: if_splits)
  then have "unat ?pv + unat k < Suc d" using t by (auto simp: word_le_nat_alt unat_saturating_sub unat_ucast_u32)
  then show ?thesis
    using I w \<open>\<not> stopped (sched s)\<close> by (auto simp: run_inv_defs split: trainer.splits option.splits)
qed

lemma consume_inv:
  assumes I: "run_inv k updates d p c s" and tr: "trainer s = Consuming u" and q: "ready s \<noteq> []"
    and nb: "next_batch_v1 k False (ready s) (ledger s) = (r, rest, entries)"
  shows "\<exists>b. r = Inr b \<and>
     run_inv k updates d p (Suc c)
       (s\<lparr>ready := rest, ledger := entries, collected := collected s @ [b], trainer := Training u\<rparr>)"
proof -
  obtain b bs where b: "ready s = b # bs" using q by (cases "ready s") auto
  have S: "stores_inv k p c s" using I by (simp add: run_inv_def)
  then have good: "good_batch k b"
    and E: "[Suc c..<Suc p] = unat (ready_consuming_version b) # map (\<lambda>b. unat (ready_consuming_version b)) bs"
    using b by (auto simp: stores_inv_def simp del: upt_Suc)
  have C: "Suc c < Suc p" "Suc c = unat (ready_consuming_version b)"
    "[Suc (Suc c)..<Suc p] = map (\<lambda>b. unat (ready_consuming_version b)) bs"
    using iffD1[OF upt_eq_Cons_conv E] unfolding Suc_eq_plus1[symmetric] by blast+
  note versions = C(1) C(2,3)[symmetric]
  obtain entries1 where n: "next_batch_v1 k False (b # bs) (ledger s) =
      (Inr \<lparr>batch = ready_batch b, consumed_update_version = ready_consuming_version b,
            consumed_scoring_version = ready_scoring_version b\<rparr>, bs, entries1)"
    "list_all (\<lambda>e. check_staleness_bound_v1 e k = Inr ()) entries1"
    using next_batch_good[OF good, of "ledger s" False bs] S by (auto simp: stores_inv_def)
  show ?thesis
    using nb n b versions good I tr
    by (auto simp: run_inv_defs good_batch_def simp del: upt_Suc split: worker.splits) (simp_all)
qed

lemma push_version: "map f xs = [Suc c..<Suc p] \<Longrightarrow> f x = Suc p \<Longrightarrow> c \<le> p \<Longrightarrow> map f (xs @ [x]) = [Suc c..<Suc (Suc p)]"
  by simp

lemma enqueue_inv:
  assumes I: "run_inv k updates d p c s" and w: "worker s = Pushing n b"
  shows "run_inv k updates d (Suc p) c (s\<lparr>worker := AtGate n, ready := ready s @ [b]\<rparr>)"
proof -
  have "map (\<lambda>b. unat (ready_consuming_version b)) (ready s @ [b]) = [Suc c..<Suc (Suc p)]"
    using I w by (intro push_version) (auto simp: run_inv_defs)
  then show ?thesis using I w by (auto simp: run_inv_defs simp del: upt_Suc split: trainer.splits option.splits)
qed

lemma update_successor: "u < updates \<Longrightarrow> unat (u + 1) = Suc (unat (u :: u64))"
  using unat_bound_u64[of updates] unat_add_no_overflow[of u 1] by (simp add: word_less_nat_alt)

lemma notify_inv:
  assumes I: "run_inv k updates d p c s" and tr: "trainer s = Notifying u"
  shows "run_inv k updates d p c (s\<lparr>worker := wake (worker s), trainer := after_update updates u\<rparr>)"
  using I tr update_successor[of u updates]
  by (auto simp: run_inv_defs wake_def after_update_def word_less_nat_alt not_less simp del: upt_Suc split: worker.splits)

lemma progress_inv:
  assumes I: "run_inv k updates d p c s" and step: "progress k updates s t"
  shows "\<exists>d p c. run_inv k updates d p c t"
  using step
proof cases
  case exhausted
  then have "run_inv k updates d p c t" using I by (auto simp: run_inv_defs simp del: upt_Suc split: trainer.splits option.splits)
  then show ?thesis by blast
next
  case (leave n)
  then have "stopped (sched s)" by (auto simp: dispatch_gate_def Let_def split: if_splits)
  then have "run_inv k updates d p c t" using I leave by (auto simp: run_inv_defs simp del: upt_Suc split: trainer.splits option.splits)
  then show ?thesis by blast
next
  case (park n)
  then show ?thesis using park_inv[OF I park(2,3)] by blast
next
  case (dispatch n target scoring weights sched')
  then show ?thesis using dispatch_inv[OF I dispatch(2,3)] by blast
next
  case (produce n target scoring weights b ids)
  then have "run_inv k updates d p c t"
    using I by (auto simp: run_inv_defs good_batch_def simp del: upt_Suc split: trainer.splits option.splits)
  then show ?thesis by blast
next
  case (push n b)
  then show ?thesis using enqueue_inv[OF I push(2)] by blast
next
  case (consume u b rest entries)
  then show ?thesis using consume_inv[OF I consume(2,3,4)] by auto
next
  case (violation u e rest entries)
  then show ?thesis using consume_inv[OF I violation(2,3,4)] by auto
next
  case (publish u weights)
  then have "run_inv k updates d p c t"
    using I by (auto simp: run_inv_defs publish_state_def simp del: upt_Suc split: worker.splits)
  then show ?thesis by blast
next
  case (notify u)
  then show ?thesis using notify_inv[OF I notify(2)] by blast
next
  case (close r)
  then have "run_inv k updates d p c t"
    using I by (auto simp: run_inv_defs simp del: upt_Suc split: worker.splits option.splits)
  then show ?thesis by blast
next
  case (close_notify r)
  then have "run_inv k updates d p c t"
    using I by (auto simp: run_inv_defs wake_def simp del: upt_Suc split: worker.splits option.splits)
  then show ?thesis by blast
next
  case (join r)
  then have "run_inv k updates d p c t"
    using I by (auto simp: run_inv_defs simp del: upt_Suc split: option.splits)
  then show ?thesis by blast
qed

lemma queue_length: "run_inv k updates d p c s \<Longrightarrow> length (ready s) = p - c"
proof -
  assume "run_inv k updates d p c s"
  then have "map (\<lambda>b. unat (ready_consuming_version b)) (ready s) = [Suc c..<Suc p]"
    by (simp add: run_inv_def stores_inv_def)
  from arg_cong[OF this, of length] show ?thesis by (simp del: upt_Suc)
qed

lemma consuming_worker_runs:
  assumes I: "run_inv k updates d p c s" and tr: "trainer s = Consuming u" and q: "ready s = []"
  shows "\<exists>n t sc w b. worker s = AtGate n \<or> worker s = Producing n t sc w \<or> worker s = Pushing n b"
proof -
  have "p \<le> c" using queue_length[OF I] q by simp
  then show ?thesis using I tr by (cases "worker s") (auto simp: run_inv_defs Suc_le_eq word_le_nat_alt)
qed

lemma environment_inv:
  assumes I: "run_inv k updates d p c s" and step: "environment k s t"
  shows "\<exists>d p c. run_inv k updates d p c t"
  using step
proof cases
  case (timed_out u e rest entries)
  have "worker s \<noteq> Ended" using consuming_worker_runs[OF I timed_out(2,3)] by auto
  then have "e = Timeout" using timed_out by (simp add: next_batch_v1_def)
  then have "run_inv k updates d p c t"
    using I timed_out by (auto simp: run_inv_defs simp del: upt_Suc split: worker.splits)
  then show ?thesis by blast
next
  case spurious
  then have "run_inv k updates d p c t"
    using I by (auto simp: run_inv_defs wake_def simp del: upt_Suc split: worker.splits trainer.splits option.splits)
  then show ?thesis by blast
qed

lemma reachable_inv: "reachable k updates weights s \<Longrightarrow> \<exists>d p c. run_inv k updates d p c s"
  by (induction rule: reachable.induct) (blast intro: spawn_inv progress_inv environment_inv)+

section \<open>Staleness and completion\<close>

lemma enforce_all: "list_all (\<lambda>e. check_staleness_bound_v1 e k = Inr ()) es \<Longrightarrow> enforce_all_v1 k es = Inr ()"
  by (induction es) simp_all

lemma bounds_of_inv:
  assumes I: "run_inv k updates d p c s"
  shows "enforce_all_v1 k (ledger s) = Inr ()" "length (ready s) \<le> unat k"
    "map (\<lambda>b. unat (consumed_update_version b)) (collected s) = [1..<Suc c]" "c \<le> unat updates"
    "trainer s = Finished r \<Longrightarrow> r = None \<and> c = unat updates \<or> r = Some Timeout"
proof -
  have "p \<le> d" "d \<le> c + unat k" "c \<le> p" "d \<le> unat updates"
    using I by (auto simp: run_inv_def worker_inv_def split: worker.splits)
  then show "length (ready s) \<le> unat k" "c \<le> unat updates" using queue_length[OF I] by auto
  show "enforce_all_v1 k (ledger s) = Inr ()" "map (\<lambda>b. unat (consumed_update_version b)) (collected s) = [1..<Suc c]"
    using I by (auto simp: run_inv_def stores_inv_def intro: enforce_all simp del: upt_Suc)
  show "r = None \<and> c = unat updates \<or> r = Some Timeout" if "trainer s = Finished r"
    using I that by (auto simp: run_inv_def trainer_inv_def outcome_inv_def split: option.splits)
qed


text \<open>The weight of a state: an upper bound on the steps left.\<close>

definition worker_weight :: "('w, 'b) worker \<Rightarrow> nat" where
  "worker_weight w =
     (case w of AtGate n \<Rightarrow> 5 * n + 2 | Parked n \<Rightarrow> 5 * n + 1 | Producing n _ _ _ \<Rightarrow> 5 * n + 4
      | Pushing n _ \<Rightarrow> 5 * n + 3 | Ended \<Rightarrow> 0)"

definition trainer_weight :: "u64 \<Rightarrow> trainer \<Rightarrow> nat" where
  "trainer_weight updates tr =
     (case tr of
        Consuming u \<Rightarrow> 6 * (unat updates - unat u) + 14
      | Training u \<Rightarrow> 6 * (unat updates - unat u) + 12
      | Notifying u \<Rightarrow> 6 * (unat updates - unat u) + 11
      | Closing _ \<Rightarrow> 8 | ClosingNotify _ \<Rightarrow> 6 | Joining _ \<Rightarrow> 4 | Finished _ \<Rightarrow> 0)"

definition steps_left :: "u64 \<Rightarrow> ('w, 'b) system \<Rightarrow> nat" where
  "steps_left updates s = worker_weight (worker s) + trainer_weight updates (trainer s)"

lemma wake_weight: "worker_weight (wake w) \<le> Suc (worker_weight w)"
  by (cases w) (simp_all add: wake_def worker_weight_def)

lemma after_update_weight: "trainer_weight updates (after_update updates u) + 2 \<le> trainer_weight updates (Notifying u)"
  using update_successor[of u updates]
  by (auto simp: after_update_def trainer_weight_def word_less_nat_alt)

lemma progress_weight: "progress k updates s t \<Longrightarrow> steps_left updates t < steps_left updates s"
proof (induction rule: progress.induct)
  case (notify s u)
  then show ?case using wake_weight[of "worker s"] after_update_weight[of updates u] by (simp add: steps_left_def)
next
  case (close_notify s r)
  then show ?case using wake_weight[of "worker s"] by (simp add: steps_left_def trainer_weight_def)
qed (simp_all add: steps_left_def worker_weight_def trainer_weight_def)

lemma progress_steps_weight: "(progress k updates ^^ n) s t \<Longrightarrow> steps_left updates t + n \<le> steps_left updates s"
proof (induction n arbitrary: t)
  case (Suc n)
  then obtain m where "(progress k updates ^^ n) s m" "progress k updates m t" by auto
  then show ?case using Suc.IH[of m] progress_weight[of k updates m t] by simp
qed simp

lemma gate_progress: "worker s = AtGate n \<Longrightarrow> \<exists>t. progress k updates s t"
proof -
  assume w: "worker s = AtGate n"
  show ?thesis
  proof (cases n)
    case 0
    then show ?thesis using w progress.exhausted by blast
  next
    case (Suc m)
    then show ?thesis
      using w progress.leave[of s m k updates] progress.park[of s m k updates] progress.dispatch[of s m k]
      by (cases "dispatch_gate k (sched s)") blast+
  qed
qed

lemma worker_progress: "worker s \<noteq> Ended \<Longrightarrow> \<nexists>n. worker s = Parked n \<Longrightarrow> \<exists>t. progress k updates s t"
proof (cases "worker s")
  case (AtGate n)
  then show ?thesis by (rule gate_progress)
next
  case (Producing n t sc w)
  show ?thesis using progress.produce[OF Producing] by blast
next
  case (Pushing n b)
  show ?thesis using progress.push[OF Pushing] by blast
qed simp_all

lemma progress_possible:
  assumes I: "run_inv k updates d p c s" and unfinished: "\<nexists>r. trainer s = Finished r"
  shows "\<exists>t. progress k updates s t"
proof (cases "trainer s")
  case (Consuming u)
  show ?thesis
  proof (cases "ready s = []")
    case True
    then show ?thesis using consuming_worker_runs[OF I Consuming] by (intro worker_progress) auto
  next
    case False
    obtain r rest entries where nb: "next_batch_v1 k False (ready s) (ledger s) = (r, rest, entries)"
      by (cases "next_batch_v1 k False (ready s) (ledger s)")
    then obtain b where "r = Inr b" using consume_inv[OF I Consuming False] by blast
    then show ?thesis using progress.consume[OF Consuming False] nb by blast
  qed
next
  case (Joining r)
  then have "stopped (sched s)" "\<not> notifying s" using I by (auto simp: run_inv_def trainer_inv_def notifying_def)
  then have "\<nexists>n. worker s = Parked n" using I by (auto simp: run_inv_def no_lost_wakeup_def)
  then show ?thesis using worker_progress progress.join[OF Joining] by blast
next
  case (Training u)
  show ?thesis using progress.publish[OF Training] by blast
next
  case (Notifying u)
  show ?thesis using progress.notify[OF Notifying] by blast
next
  case (Closing r)
  show ?thesis using progress.close[OF Closing] by blast
next
  case (ClosingNotify r)
  show ?thesis using progress.close_notify[OF ClosingNotify] by blast
next
  case (Finished r)
  then show ?thesis using unfinished by blast
qed

definition untroubled :: "trainer \<Rightarrow> bool" where
  "untroubled tr \<longleftrightarrow> (\<forall>e. tr \<noteq> Closing (Some e) \<and> tr \<noteq> ClosingNotify (Some e) \<and> tr \<noteq> Joining (Some e) \<and> tr \<noteq> Finished (Some e))"

lemma untroubled_step:
  "run_inv k updates d p c s \<Longrightarrow> progress k updates s t \<Longrightarrow> untroubled (trainer s) \<Longrightarrow> untroubled (trainer t)"
  by (erule progress.cases)
    (use consume_inv in \<open>fastforce simp: untroubled_def after_update_def\<close>)+

lemma untroubled_steps:
  assumes "spawn_v1 weights k updates = Some s"
  shows "(progress k updates)\<^sup>*\<^sup>* s t \<Longrightarrow> untroubled (trainer t) \<and> reachable k updates weights t"
proof (induction rule: rtranclp_induct)
  case base
  have "untroubled (trainer s)" using assms by (auto simp: spawn_v1_def untroubled_def split: if_splits)
  then show ?case using assms by (simp add: reachable.spawned)
next
  case (step t u)
  then show ?case using reachable_inv untroubled_step reachable.stepped by metis
qed

text \<open>C10. Producer and trainer never deadlock, and no wake-up is lost: started with a positive bound and left to
  run without timeouts, the two threads take at most eleven steps per update and ten more, in
  whatever order they are scheduled; as long as a step is missing one is possible, and when none is
  the run has returned with every update's batch consumed in order.\<close>

theorem async_run_completes:
  assumes "spawn_v1 weights k updates = Some s" "(progress k updates ^^ n) s t"
  shows "n \<le> 11 * unat updates + 10 \<and>
    ((\<exists>u. progress k updates t u) \<or>
     trainer t = Finished None \<and> map (\<lambda>b. unat (consumed_update_version b)) (collected t) = [1..<Suc (unat updates)])"
proof -
  have "steps_left updates s \<le> 11 * unat updates + 10"
    using assms(1) by (auto simp: spawn_v1_def steps_left_def worker_weight_def trainer_weight_def word_le_nat_alt split: if_splits)
  then have n: "n \<le> 11 * unat updates + 10" using progress_steps_weight[OF assms(2)] by simp
  have T: "untroubled (trainer t)" "reachable k updates weights t"
    using untroubled_steps[OF assms(1)] relpowp_imp_rtranclp[OF assms(2)] by blast+
  obtain d p c where I: "run_inv k updates d p c t" using reachable_inv[OF T(2)] by blast
  show ?thesis
  proof (cases "\<exists>r. trainer t = Finished r")
    case True
    then have "trainer t = Finished None" using T(1) by (cases "trainer t") (auto simp: untroubled_def)
    then show ?thesis using n bounds_of_inv[OF I] by auto
  next
    case False
    then show ?thesis using n progress_possible[OF I] by blast
  qed
qed

definition one_update :: "(nat, nat) system" where
  "one_update = the (spawn_v1 7 1 1)"

lemma spawn_one_update: "spawn_v1 7 1 1 = Some one_update"
  by (simp add: one_update_def spawn_v1_def)

definition one_dispatched :: "(nat, nat) system" where
  "one_dispatched = one_update\<lparr>sched := (sched one_update)\<lparr>next_dispatch_update := 2\<rparr>, worker := Producing 0 1 0 7\<rparr>"

lemma one_dispatch: "progress 1 1 one_update one_dispatched"
proof -
  have "worker one_update = AtGate (Suc 0)" by (simp add: one_update_def spawn_v1_def)
  moreover have "dispatch_gate 1 (sched one_update) = Dispatch 1 0 7 ((sched one_update)\<lparr>next_dispatch_update := 2\<rparr>)"
    by (simp add: one_update_def spawn_v1_def dispatch_gate_def saturating_sub_def)
  ultimately show ?thesis unfolding one_dispatched_def by (rule progress.dispatch)
qed


theorem async_run_completes_witness:
  "(\<exists>u. progress 1 1 one_dispatched u) \<or> trainer one_dispatched = Finished None"
proof -
  have "(progress 1 1 ^^ 1) one_update one_dispatched" using one_dispatch by (simp add: eq_OO)
  from async_run_completes[OF spawn_one_update this] show ?thesis by blast
qed

end
