(* ===== verification/Legend_Rule.thy ===== *)
theory Legend_Rule
  imports Library "HOL-Library.List_Lexorder" "HOL-Library.Char_ord"
begin

text \<open>
  \<^verbatim>\<open>mtg-kernel/src/legend_rule_v1.rs\<close>: the choices of the legend rule within one simultaneous
  pass of state-based actions (default build: no cargo feature of \<^verbatim>\<open>Cargo.toml\<close> is on). When a
  player controls several legendary permanents of one name, the pass is prepared and kept, each
  group's controller names the permanent to keep, and then everything of the pass happens at once.

  \<open>Board\<close> holds what state-based actions read or write of \<^verbatim>\<open>GameState\<close>: objects, players, zone
  lists, the halt marker and the triggers waiting to be placed; \<open>other\<close> is the rest. The pending
  choice is a field beside it, because none of the functions below that inspect the game reads it.
  \<open>Rules\<close> holds these functions: effective characteristics, the card table, the commit of events
  and the trigger machinery of other files. An effect of the card table is a value of type \<open>'e\<close>,
  an attachment descriptor one of type \<open>'a\<close>, a pending trigger one of type \<open>'t\<close>. Names are
  compared as the strings of \<^verbatim>\<open>BTreeMap<&str, _>\<close>.
\<close>

section \<open>Data\<close>

record GameObject =
  obj_card_def :: nat
  obj_owner :: PlayerId
  obj_controller :: PlayerId
  obj_zone :: Zone
  obj_generation :: u32
  obj_damage :: u32
  obj_lore :: int
  obj_attachments :: "ObjectId list"
  face_index :: u8
  deathtouch_damage :: bool
  attached_to :: "ObjectLinkV4 option"
  v4_is_token :: bool
  layer_timestamp :: "u64 option"
  effective_subtype_ids :: "u16 list"

record ('a, 'e) CardDefinition =
  def_is_token :: bool
  def_attachment :: "'a option"
  def_is_aura :: bool
  def_equipment :: bool
  def_bestow :: bool
  def_subtypes :: "u16 list"
  def_is_role :: bool
  def_saga :: "'e list option"

record PlayerStatus =
  life :: int
  drew_from_empty :: bool
  poison_counters :: u16
  has_lost :: bool

record StackItem =
  item_is_spell :: bool
  item_source :: ObjectId
  item_generation :: "u32 option"

record ('t, 'r) Board =
  board_objects :: "GameObject Arena"
  active_player :: PlayerId
  status :: "PlayerId \<Rightarrow> PlayerStatus"
  libraries :: "PlayerId \<Rightarrow> ObjectId list"
  hands :: "PlayerId \<Rightarrow> ObjectId list"
  battlefields :: "PlayerId \<Rightarrow> ObjectId list"
  graveyards :: "PlayerId \<Rightarrow> ObjectId list"
  exile :: "ObjectId list"
  command :: "ObjectId list"
  stack :: "StackItem list"
  halted :: "ObjectId option"
  pending_triggers :: "'t list"
  other :: 'r

record LegendGroupV1 =
  group_controller :: PlayerId
  group_name :: string
  group_objects :: "ObjectLinkV4 list"

record PreparedPassV1 =
  groups_of :: "LegendGroupV1 list"
  graveyard_of :: "ObjectLinkV4 list"
  losses :: "PlayerId list"
  ceasing :: "ObjectLinkV4 list"

record 't PendingLegendRuleV1 =
  pass :: PreparedPassV1
  kept :: "ObjectLinkV4 list"
  waiting_triggers :: "'t list"

record ('t, 'r) Game =
  board :: "('t, 'r) Board"
  pending_legend_rule_v1 :: "'t PendingLegendRuleV1 option"

record ('t, 'a, 'e, 'r) Rules =
  card_defs :: "nat \<Rightarrow> ('a, 'e) CardDefinition"
  has_legendary_definitions :: bool
  is_legendary :: "('t, 'r) Board \<Rightarrow> ObjectId \<Rightarrow> bool"
  effective_name :: "('t, 'r) Board \<Rightarrow> ObjectId \<Rightarrow> string"
  is_creature :: "('t, 'r) Board \<Rightarrow> ObjectId \<Rightarrow> bool"
  is_planeswalker :: "('t, 'r) Board \<Rightarrow> ObjectId \<Rightarrow> bool"
  loyalty :: "('t, 'r) Board \<Rightarrow> ObjectId \<Rightarrow> u32 option"
  effective_toughness :: "('t, 'r) Board \<Rightarrow> ObjectId \<Rightarrow> int"
  indestructible :: "('t, 'r) Board \<Rightarrow> ObjectId \<Rightarrow> bool"
  host_matches :: "'a \<Rightarrow> ('t, 'r) Board \<Rightarrow> ObjectId \<Rightarrow> bool"
  final_chapter_is_pending :: "('t, 'r) Board \<Rightarrow> ObjectId \<Rightarrow> u32 \<Rightarrow> 'e \<Rightarrow> 't list \<Rightarrow> bool"
  cannot_lose :: "('t, 'r) Board \<Rightarrow> PlayerId \<Rightarrow> bool"
  pt_representable :: "('t, 'r) Board \<Rightarrow> ObjectId \<Rightarrow> bool"
  grants_enabled :: bool
  attachment_forbidden :: "('t, 'r) Board \<Rightarrow> ObjectId \<Rightarrow> ObjectId \<Rightarrow> bool"
  protects_from_colors_of :: "('t, 'r) Board \<Rightarrow> ObjectId \<Rightarrow> ObjectId \<Rightarrow> bool"
  aura_host_legal :: "('a, 'e) CardDefinition \<Rightarrow> PlayerId \<Rightarrow> ObjectId \<Rightarrow> ('t, 'r) Board \<Rightarrow> bool option"
  before_protected_departures :: "ObjectId list \<Rightarrow> 't list \<Rightarrow> ('t, 'r) Board \<Rightarrow> ('t, 'r) Board"
  propose_and_commit_batch :: "ObjectId list \<Rightarrow> ('t, 'r) Board \<Rightarrow> ('t, 'r) Board"
  commit_sba_death_batch_v1 :: "ObjectId list \<Rightarrow> ('t, 'r) Board \<Rightarrow> ('t, 'r) Board"
  commit_to_graveyard :: "ObjectId \<Rightarrow> ('t, 'r) Board \<Rightarrow> ('t, 'r) Board"
  note_removal :: "PlayerId \<Rightarrow> nat \<Rightarrow> ('t, 'r) Board \<Rightarrow> ('t, 'r) Board"
  forget_ceased :: "ObjectId \<Rightarrow> ('t, 'r) Board \<Rightarrow> ('t, 'r) Board \<Rightarrow> ('t, 'r) Board"
  capture_triggers :: "('t, 'r) Board \<Rightarrow> 't list \<times> ('t, 'r) Board"
  late_captures :: "('t, 'r) Board \<Rightarrow> 't list \<times> ('t, 'r) Board"
  targets_can_complete :: "'t \<Rightarrow> ('t, 'r) Board \<Rightarrow> bool"
  discard_trigger :: "'t \<Rightarrow> ('t, 'r) Board \<Rightarrow> ('t, 'r) Board"
  trigger_controller :: "'t \<Rightarrow> PlayerId"

datatype LegendError =
    PassChanged
  | NoLegendChoice
  | AllLegendChoicesAnswered
  | NotInLegendGroup

datatype Decision =
  ChooseLegendPermanent PlayerId "ObjectId list"

section \<open>Reading the board\<close>

definition object_at :: "('t, 'r) Board \<Rightarrow> ObjectId \<Rightarrow> GameObject" where
  "object_at b i = items (board_objects b) ! unat (object_raw i)"

definition live_at :: "('t, 'r) Board \<Rightarrow> ObjectId \<Rightarrow> GameObject option" where
  "live_at b i = arena_try_get (board_objects b) i"

definition rows :: "('t, 'r) Board \<Rightarrow> (ObjectId \<times> GameObject) list" where
  "rows b = arena_iter (board_objects b)"

definition def_of :: "('t, 'a, 'e, 'r) Rules \<Rightarrow> GameObject \<Rightarrow> ('a, 'e) CardDefinition" where
  "def_of R ob = card_defs R (obj_card_def ob)"

definition link_of :: "('t, 'r) Board \<Rightarrow> ObjectId \<Rightarrow> ObjectLinkV4" where
  "link_of b i = \<lparr>link_object = i, link_generation = obj_generation (object_at b i)\<rparr>"

text \<open>\<^verbatim>\<open>planeswalker_v1::zero_loyalty\<close>, \<^verbatim>\<open>trigger::creature_dies_to_state_based_actions\<close>\<close>

definition zero_loyalty :: "('t, 'a, 'e, 'r) Rules \<Rightarrow> ('t, 'r) Board \<Rightarrow> ObjectId \<Rightarrow> bool" where
  "zero_loyalty R b i \<longleftrightarrow>
     is_planeswalker R b i \<and> (case loyalty R b i of None \<Rightarrow> True | Some n \<Rightarrow> n = 0)"

definition creature_dies_to_state_based_actions :: "int \<Rightarrow> int \<Rightarrow> bool \<Rightarrow> bool \<Rightarrow> bool" where
  "creature_dies_to_state_based_actions toughness marked deathtouch indestr \<longleftrightarrow>
     toughness \<le> 0 \<or> ((marked \<ge> toughness \<or> (marked > 0 \<and> deathtouch)) \<and> \<not> indestr)"

definition lethal :: "('t, 'a, 'e, 'r) Rules \<Rightarrow> ('t, 'r) Board \<Rightarrow> ObjectId \<Rightarrow> GameObject \<Rightarrow> bool" where
  "lethal R b i ob \<longleftrightarrow>
     is_creature R b i \<and>
     creature_dies_to_state_based_actions (effective_toughness R b i) (uint (obj_damage ob))
       (deathtouch_damage ob) (indestructible R b i)"

text \<open>The relation both ends of an attachment must agree on; \<^verbatim>\<open>objects.try_get(host)\<close>.\<close>

definition attached_both_ways ::
  "('t, 'r) Board \<Rightarrow> ObjectId \<Rightarrow> GameObject \<Rightarrow> (ObjectId \<Rightarrow> GameObject \<Rightarrow> bool) \<Rightarrow> bool" where
  "attached_both_ways b i ob ok =
     (case attached_to ob of None \<Rightarrow> False
      | Some l \<Rightarrow>
          (case live_at b (link_object l) of None \<Rightarrow> False
           | Some host \<Rightarrow>
               ok (link_object l) host \<and> obj_generation host = link_generation l \<and>
               i \<in> set (obj_attachments host)))"

definition attachment_valid ::
  "('t, 'a, 'e, 'r) Rules \<Rightarrow> ('t, 'r) Board \<Rightarrow> ObjectId \<Rightarrow> GameObject \<Rightarrow> 'a \<Rightarrow> bool" where
  "attachment_valid R b i ob a =
     attached_both_ways b i ob (\<lambda>h host. obj_zone host = Battlefield \<and> host_matches R a b h)"

definition saga_completed ::
  "('t, 'a, 'e, 'r) Rules \<Rightarrow> ('t, 'r) Board \<Rightarrow> 't list \<Rightarrow> ObjectId \<Rightarrow> GameObject \<Rightarrow> bool" where
  "saga_completed R b waiting i ob \<longleftrightarrow>
     face_index ob = 0 \<and>
     (case def_saga (def_of R ob) of None \<Rightarrow> False
      | Some chapters \<Rightarrow>
          obj_lore ob \<ge> int (length chapters) \<and> chapters \<noteq> [] \<and>
          \<not> final_chapter_is_pending R b i (obj_generation ob) (last chapters) waiting)"

section \<open>Groups\<close>

text \<open>\<^verbatim>\<open>names.entry(name).or_default().push(link)\<close> on a \<^verbatim>\<open>BTreeMap\<close>: rows ascend by name.\<close>

fun name_push :: "string \<Rightarrow> 'l \<Rightarrow> (string \<times> 'l list) list \<Rightarrow> (string \<times> 'l list) list" where
  "name_push n l [] = [(n, [l])]"
| "name_push n l ((m, ls) # ns) =
     (if n = m then (m, ls @ [l]) # ns
      else if n < m then (n, [l]) # (m, ls) # ns
      else (m, ls) # name_push n l ns)"

definition subject_to_legend_rule ::
  "('t, 'a, 'e, 'r) Rules \<Rightarrow> ('t, 'r) Board \<Rightarrow> PlayerId \<Rightarrow> ObjectId \<times> GameObject \<Rightarrow> bool" where
  "subject_to_legend_rule R b p row \<longleftrightarrow>
     obj_zone (snd row) = Battlefield \<and> obj_controller (snd row) = p \<and> is_legendary R b (fst row)"

definition names_of ::
  "('t, 'a, 'e, 'r) Rules \<Rightarrow> ('t, 'r) Board \<Rightarrow> PlayerId \<Rightarrow> (string \<times> ObjectLinkV4 list) list" where
  "names_of R b p =
     fold (\<lambda>(i, ob) names.
        if subject_to_legend_rule R b p (i, ob) then name_push (effective_name R b i) (link_of b i) names
        else names)
       (rows b) []"

definition groups_for ::
  "('t, 'a, 'e, 'r) Rules \<Rightarrow> ('t, 'r) Board \<Rightarrow> PlayerId \<Rightarrow> LegendGroupV1 list" where
  "groups_for R b p =
     map (\<lambda>(n, ls). \<lparr>group_controller = p, group_name = n, group_objects = ls\<rparr>)
       (filter (\<lambda>(n, ls). length ls > 1) (names_of R b p))"

definition groups :: "('t, 'a, 'e, 'r) Rules \<Rightarrow> ('t, 'r) Board \<Rightarrow> LegendGroupV1 list" where
  "groups R b =
     (if \<not> has_legendary_definitions R then []
      else groups_for R b (active_player b) @ groups_for R b (opponent (active_player b)))"

definition candidates :: "LegendGroupV1 \<Rightarrow> ObjectId list" where
  "candidates g = map link_object (group_objects g)"

section \<open>The prepared pass\<close>

definition leaves_play ::
  "('t, 'a, 'e, 'r) Rules \<Rightarrow> ('t, 'r) Board \<Rightarrow> 't list \<Rightarrow> ObjectId \<times> GameObject \<Rightarrow> bool" where
  "leaves_play R b waiting row =
     (case row of (i, ob) \<Rightarrow>
        obj_zone ob = Battlefield \<and>
        (lethal R b i ob \<or>
         (case def_attachment (def_of R ob) of None \<Rightarrow> False
          | Some a \<Rightarrow> \<not> attachment_valid R b i ob a) \<or>
         saga_completed R b waiting i ob \<or> zero_loyalty R b i))"

definition loses ::
  "('t, 'a, 'e, 'r) Rules \<Rightarrow> ('t, 'r) Board \<Rightarrow> PlayerId \<Rightarrow> bool" where
  "loses R b p \<longleftrightarrow>
     \<not> has_lost (status b p) \<and> \<not> cannot_lose R b p \<and>
     (life (status b p) \<le> 0 \<or> drew_from_empty (status b p))"

definition prepare ::
  "('t, 'a, 'e, 'r) Rules \<Rightarrow> ('t, 'r) Board \<Rightarrow> 't list \<Rightarrow> PreparedPassV1" where
  "prepare R b waiting =
     \<lparr>groups_of = groups R b,
      graveyard_of = map (link_of b \<circ> fst) (filter (leaves_play R b waiting) (rows b)),
      losses = filter (loses R b) [P0, P1],
      ceasing = map (link_of b \<circ> fst)
        (filter (\<lambda>(i, ob). obj_zone ob \<noteq> Battlefield \<and> def_is_token (def_of R ob)) (rows b))\<rparr>"

definition stage ::
  "('t, 'a, 'e, 'r) Rules \<Rightarrow> 't list \<Rightarrow> ('t, 'r) Game \<Rightarrow> bool \<times> ('t, 'r) Game" where
  "stage R waiting g =
     (if pending_legend_rule_v1 g \<noteq> None then (True, g)
      else if groups R (board g) = [] then (False, g)
      else (True, g\<lparr>pending_legend_rule_v1 :=
              Some \<lparr>pass = prepare R (board g) waiting, kept = [], waiting_triggers = waiting\<rparr>\<rparr>))"

definition validate_legend ::
  "('t, 'a, 'e, 'r) Rules \<Rightarrow> ('t, 'r) Board \<Rightarrow> 't PendingLegendRuleV1 \<Rightarrow> (unit, LegendError) result" where
  "validate_legend R b p =
     (if groups_of (pass p) = [] \<or> pass p \<noteq> prepare R b (waiting_triggers p) \<or>
         length (kept p) > length (groups_of (pass p)) \<or>
         (\<exists>(k, gr) \<in> set (zip (kept p) (groups_of (pass p))). k \<notin> set (group_objects gr))
      then Inl PassChanged else Inr ())"

definition answer ::
  "('t, 'a, 'e, 'r) Rules \<Rightarrow> ObjectId \<Rightarrow> ('t, 'r) Game \<Rightarrow> (unit, LegendError) result \<times> ('t, 'r) Game" where
  "answer R keep g =
     (case pending_legend_rule_v1 g of None \<Rightarrow> (Inl NoLegendChoice, g)
      | Some p \<Rightarrow>
          (case validate_legend R (board g) p of Inl e \<Rightarrow> (Inl e, g)
           | Inr _ \<Rightarrow>
               (if length (kept p) \<ge> length (groups_of (pass p)) then (Inl AllLegendChoicesAnswered, g)
                else
                  (case find (\<lambda>l. link_object l = keep)
                          (group_objects (groups_of (pass p) ! length (kept p))) of
                     None \<Rightarrow> (Inl NotInLegendGroup, g)
                   | Some l \<Rightarrow>
                       (Inr (), g\<lparr>pending_legend_rule_v1 := Some (p\<lparr>kept := kept p @ [l]\<rparr>)\<rparr>)))))"

text \<open>The start of \<^verbatim>\<open>drain_or_decide\<close>: the next question, or what leaves the battlefield at
  once. The rest of that function, which commits the departures and collects triggers, follows in
  \<open>State_Based\<close>.\<close>

definition departing :: "PreparedPassV1 \<Rightarrow> ObjectLinkV4 list \<Rightarrow> ObjectLinkV4 list" where
  "departing q keeps =
     remdups_adj (sort_key link_object
       (graveyard_of q @ concat (map (\<lambda>(gr, k). filter (\<lambda>l. l \<noteq> k) (group_objects gr))
          (zip (groups_of q) keeps))))"

definition next_question :: "'t PendingLegendRuleV1 \<Rightarrow> Decision option" where
  "next_question p =
     (if length (kept p) < length (groups_of (pass p))
      then (let gr = groups_of (pass p) ! length (kept p)
            in Some (ChooseLegendPermanent (group_controller gr) (candidates gr)))
      else None)"

section \<open>The rows of the name map\<close>

abbreviation ascending :: "(string \<times> 'l list) list \<Rightarrow> bool" where
  "ascending ns \<equiv> sorted_wrt (<) (map fst ns)"

lemma name_push_keys: "fst ` set (name_push n l ns) = insert n (fst ` set ns)"
  by (induction n l ns rule: name_push.induct) auto

lemma name_push_ascending: "ascending ns \<Longrightarrow> ascending (name_push n l ns)"
  by (induction n l ns rule: name_push.induct) (auto simp: name_push_keys[simplified] less_le_not_le
      dest: less_trans intro: less_trans)

lemma map_of_name_push:
  "ascending ns \<Longrightarrow>
   map_of (name_push n l ns) = (map_of ns)(n \<mapsto> (case map_of ns n of None \<Rightarrow> [l] | Some ls \<Rightarrow> ls @ [l]))"
proof (induction n l ns rule: name_push.induct)
  case (2 n l m ls ns)
  have "n < m \<Longrightarrow> map_of ns n = None"
    using 2(2) by (force simp: map_of_eq_None_iff)
  then show ?case using 2 by (auto simp: fun_eq_iff)
qed auto

definition members ::
  "('t, 'a, 'e, 'r) Rules \<Rightarrow> ('t, 'r) Board \<Rightarrow> PlayerId \<Rightarrow> string \<Rightarrow> ObjectId list" where
  "members R b p n =
     map fst (filter (\<lambda>row. subject_to_legend_rule R b p row \<and> effective_name R b (fst row) = n) (rows b))"

lemma fold_name_push:
  assumes "ascending acc"
  shows "ascending (fold (\<lambda>x ns. if P x then name_push (f x) (h x) ns else ns) xs acc)
    \<and> map_of (fold (\<lambda>x ns. if P x then name_push (f x) (h x) ns else ns) xs acc) n =
      (let ls = map h (filter (\<lambda>x. P x \<and> f x = n) xs)
       in case map_of acc n of Some old \<Rightarrow> Some (old @ ls) | None \<Rightarrow> if ls = [] then None else Some ls)"
  using assms
proof (induction xs arbitrary: acc)
  case Nil
  then show ?case by (auto split: option.split)
next
  case (Cons x xs)
  show ?case
    using Cons.IH[OF name_push_ascending[OF Cons.prems], of "f x" "h x"] Cons.IH[OF Cons.prems]
      map_of_name_push[OF Cons.prems, of "f x" "h x"]
    by (auto simp: Let_def split: option.splits)
qed

lemma names_of_rows:
  "ascending (names_of R b p)"
  "map_of (names_of R b p) n =
     (if members R b p n = [] then None else Some (map (link_of b) (members R b p n)))"
proof -
  have "names_of R b p = fold (\<lambda>row ns. if subject_to_legend_rule R b p row
      then name_push (effective_name R b (fst row)) (link_of b (fst row)) ns else ns) (rows b) []"
    unfolding names_of_def by (intro fold_cong) auto
  then show "ascending (names_of R b p)"
    "map_of (names_of R b p) n =
     (if members R b p n = [] then None else Some (map (link_of b) (members R b p n)))"
    using fold_name_push[of "[]" "subject_to_legend_rule R b p" "\<lambda>row. effective_name R b (fst row)"
        "\<lambda>row. link_of b (fst row)" "rows b" n]
    by (auto simp: members_def Let_def comp_def)
qed

lemma names_of_iff:
  "(n, ls) \<in> set (names_of R b p) \<longleftrightarrow> ls = map (link_of b) (members R b p n) \<and> ls \<noteq> []"
proof -
  have "distinct (map fst (names_of R b p))"
    using names_of_rows(1) strict_sorted_iff by blast
  then have "(n, ls) \<in> set (names_of R b p) \<longleftrightarrow> map_of (names_of R b p) n = Some ls"
    by simp
  then show ?thesis by (auto simp: names_of_rows(2))
qed

lemma link_object_link [simp]: "link_object (link_of b i) = i" "link_of b i = link_of b j \<longleftrightarrow> i = j"
  by (auto simp: link_of_def)

lemma groups_for_iff:
  "gr \<in> set (groups_for R b p) \<longleftrightarrow>
     (\<exists>n. gr = \<lparr>group_controller = p, group_name = n, group_objects = map (link_of b) (members R b p n)\<rparr> \<and>
          length (members R b p n) \<ge> 2)"
  by (force simp: groups_for_def names_of_iff image_iff)

lemma groups_for_names: "sorted_wrt (<) (map group_name (groups_for R b p))"
proof -
  have "sorted_wrt (\<lambda>x y. fst x < fst y) (names_of R b p)"
    using names_of_rows(1) by (simp add: sorted_wrt_map)
  then show ?thesis
    by (auto simp: groups_for_def sorted_wrt_map intro!: sorted_wrt_filter elim!: sorted_wrt_mono_rel[rotated])
qed

text \<open>A group as a reader of the rules sees it: whose, which name, which permanents.\<close>

definition reading :: "LegendGroupV1 \<Rightarrow> PlayerId \<times> string \<times> ObjectId list" where
  "reading gr = (group_controller gr, group_name gr, candidates gr)"

lemma opponent_differs: "opponent p \<noteq> p"
proof
  assume "opponent p = p"
  then have "1 - player_raw p = player_raw p" by (cases p) (simp add: opponent_def)
  then have "uint (1 - player_raw p) = uint (player_raw p)" by (rule arg_cong)
  then have "(1 - uint (player_raw p)) mod 256 = uint (player_raw p)"
    by (simp add: uint_word_ariths)
  then have "(1 - uint (player_raw p)) mod 256 mod 2 = uint (player_raw p) mod 2" by simp
  then have "(1 - uint (player_raw p)) mod 2 = uint (player_raw p) mod 2"
    by (simp add: mod_mod_cancel)
  then show False by presburger
qed

lemma groups_reading:
  assumes "has_legendary_definitions R"
  shows "set (map reading (groups R b)) =
    {(p, n, members R b p n) | p n. p \<in> {active_player b, opponent (active_player b)} \<and>
       length (members R b p n) \<ge> 2}"
proof -
  have cand: "candidates \<lparr>group_controller = p, group_name = n, group_objects = map (link_of b) (members R b p n)\<rparr>
    = members R b p n" for p n
    by (simp add: candidates_def comp_def)
  have "set (map reading (groups_for R b p)) =
    {(p, n, members R b p n) | n. length (members R b p n) \<ge> 2}" for p
  proof (intro set_eqI iffI)
    fix x assume "x \<in> {(p, n, members R b p n) | n. length (members R b p n) \<ge> 2}"
    then obtain n where "x = (p, n, members R b p n)" "length (members R b p n) \<ge> 2" by auto
    then have "x = reading \<lparr>group_controller = p, group_name = n, group_objects = map (link_of b) (members R b p n)\<rparr>"
      "\<lparr>group_controller = p, group_name = n, group_objects = map (link_of b) (members R b p n)\<rparr> \<in> set (groups_for R b p)"
      by (auto simp: reading_def cand groups_for_iff)
    then show "x \<in> set (map reading (groups_for R b p))" by simp
  qed (auto simp: groups_for_iff reading_def cand)
  then show ?thesis
    using assms unfolding groups_def by (simp only: if_False not_True_eq_False map_append set_append) auto
qed

section \<open>Answers\<close>

fun answer_all ::
  "('t, 'a, 'e, 'r) Rules \<Rightarrow> ObjectId list \<Rightarrow> ('t, 'r) Game \<Rightarrow> (unit, LegendError) result \<times> ('t, 'r) Game" where
  "answer_all R [] g = (Inr (), g)"
| "answer_all R (k # ks) g =
     (case answer R k g of (Inl e, h) \<Rightarrow> (Inl e, h) | (Inr _, h) \<Rightarrow> answer_all R ks h)"

text \<open>The pass after the answers \<open>ks\<close>.\<close>

definition pass_after ::
  "('t, 'a, 'e, 'r) Rules \<Rightarrow> 't list \<Rightarrow> ('t, 'r) Game \<Rightarrow> ObjectId list \<Rightarrow> ('t, 'r) Game" where
  "pass_after R waiting g ks =
     g\<lparr>pending_legend_rule_v1 :=
        Some \<lparr>pass = prepare R (board g) waiting, kept = map (link_of (board g)) ks, waiting_triggers = waiting\<rparr>\<rparr>"

definition one_each :: "LegendGroupV1 list \<Rightarrow> ObjectId list \<Rightarrow> bool" where
  "one_each gs ks \<longleftrightarrow> length ks \<le> length gs \<and> (\<forall>i < length ks. ks ! i \<in> set (candidates (gs ! i)))"

lemma group_objects_links:
  assumes "gr \<in> set (groups R b)"
  shows "group_objects gr = map (link_of b) (candidates gr)"
  using assms by (auto simp: groups_def groups_for_iff candidates_def split: if_splits)

lemma stage_pass:
  assumes "pending_legend_rule_v1 g = None" "stage R waiting g = (True, h)"
  shows "h = pass_after R waiting g []" "groups R (board g) \<noteq> []" "has_legendary_definitions R"
  using assms by (auto simp: stage_def pass_after_def groups_def split: if_splits)

lemma find_candidate:
  assumes "ls = map (link_of b) is"
  shows "find (\<lambda>l. link_object l = k) ls = (if k \<in> set is then Some (link_of b k) else None)"
  unfolding assms by (induction "is") auto

lemma validate_pass_after:
  assumes "one_each (groups R (board g)) ks" "groups R (board g) \<noteq> []"
  shows "validate_legend R (board g)
    \<lparr>pass = prepare R (board g) waiting, kept = map (link_of (board g)) ks, waiting_triggers = waiting\<rparr> = Inr ()"
proof -
  have "link_of (board g) (ks ! i) \<in> set (group_objects (groups R (board g) ! i))" if "i < length ks" for i
    using assms that group_objects_links[of "groups R (board g) ! i" R "board g"]
    by (auto simp: one_each_def)
  then show ?thesis
    using assms by (auto simp: validate_legend_def prepare_def one_each_def set_zip)
qed

lemma answer_pass_after:
  assumes "one_each (groups R (board g)) ks" "groups R (board g) \<noteq> []"
  shows "answer R k (pass_after R waiting g ks) =
    (if length ks \<ge> length (groups R (board g)) then (Inl AllLegendChoicesAnswered, pass_after R waiting g ks)
     else if k \<in> set (candidates (groups R (board g) ! length ks))
     then (Inr (), pass_after R waiting g (ks @ [k]))
     else (Inl NotInLegendGroup, pass_after R waiting g ks))"
  using validate_pass_after[OF assms]
    find_candidate[OF group_objects_links[OF nth_mem], of "length ks" R "board g" k]
  by (auto simp: answer_def pass_after_def prepare_def)

lemma one_each_snoc:
  "one_each gs (ks @ [k]) \<longleftrightarrow>
     one_each gs ks \<and> length ks < length gs \<and> k \<in> set (candidates (gs ! length ks))"
  by (force simp: one_each_def nth_append less_Suc_eq)

lemma answer_all_append:
  "answer_all R (ks @ ls) g =
     (case answer_all R ks g of (Inl e, h) \<Rightarrow> (Inl e, h) | (Inr _, h) \<Rightarrow> answer_all R ls h)"
  by (induction ks arbitrary: g) (auto split: prod.splits sum.splits)

lemma answers_accepted:
  assumes "groups R (board g) \<noteq> []"
  shows "if one_each (groups R (board g)) ks
    then answer_all R ks (pass_after R waiting g []) = (Inr (), pass_after R waiting g ks)
    else isl (fst (answer_all R ks (pass_after R waiting g [])))"
proof (induction ks rule: rev_induct)
  case Nil
  then show ?case by (simp add: one_each_def)
next
  case (snoc k ks)
  then show ?case
    using answer_pass_after[OF _ assms, of ks k waiting]
    by (auto simp: answer_all_append one_each_snoc split: prod.splits sum.splits if_splits)
qed

section \<open>What leaves at once\<close>

lemma strictly_ascending_links:
  assumes "sorted (map link_object ls)" "\<And>l. l \<in> set ls \<Longrightarrow> l = link_of b (link_object l)"
  shows "sorted_wrt (<) (map link_object (remdups_adj ls))"
  using assms
proof (induction ls rule: remdups_adj.induct)
  case (3 x y zs)
  have "link_object x \<noteq> link_object y" if "x \<noteq> y"
    using that 3(4)[of x] 3(4)[of y] by (metis list.set_intros)
  then have "link_object x < link_object y" if "x \<noteq> y"
    using that 3(3) by (simp add: order_le_less)
  then show ?case using 3 by fastforce
qed auto

lemma departing_batch:
  assumes "one_each (groups R b) ks" "length ks = length (groups R b)"
  shows "sorted_wrt (<) (map link_object (departing (prepare R b waiting) (map (link_of b) ks)))"
    "set (map link_object (departing (prepare R b waiting) (map (link_of b) ks))) =
     fst ` set (filter (leaves_play R b waiting) (rows b)) \<union>
     {i. \<exists>j < length ks. i \<in> set (candidates (groups R b ! j)) \<and> i \<noteq> ks ! j}"
proof -
  let ?ls = "graveyard_of (prepare R b waiting) @ concat (map (\<lambda>(gr, k). filter (\<lambda>l. l \<noteq> k) (group_objects gr))
          (zip (groups R b) (map (link_of b) ks)))"
  have ls: "l = link_of b (link_object l)" if "l \<in> set ?ls" for l
    using that group_objects_links by (fastforce simp: prepare_def dest: set_zip_leftD)
  have d: "departing (prepare R b waiting) (map (link_of b) ks) = remdups_adj (sort_key link_object ?ls)"
    by (simp add: departing_def prepare_def)
  show "sorted_wrt (<) (map link_object (departing (prepare R b waiting) (map (link_of b) ks)))"
    unfolding d by (rule strictly_ascending_links[of _ b]) (use ls in auto)
  have gone: "link_object ` set (filter (\<lambda>l. l \<noteq> link_of b (ks ! j)) (group_objects (groups R b ! j))) =
      set (candidates (groups R b ! j)) - {ks ! j}" if "j < length ks" for j
  proof -
    have "group_objects (groups R b ! j) = map (link_of b) (candidates (groups R b ! j))"
      using that assms(2) group_objects_links[of "groups R b ! j" R b] by simp
    then show ?thesis by (simp add: filter_map image_image comp_def set_diff_eq)
  qed
  have "set (concat (map (\<lambda>(gr, k). filter (\<lambda>l. l \<noteq> k) (group_objects gr)) (zip (groups R b) (map (link_of b) ks)))) =
      (\<Union>j<length ks. set (filter (\<lambda>l. l \<noteq> link_of b (ks ! j)) (group_objects (groups R b ! j))))"
    using assms(2) by (auto simp: set_zip)
  then have "link_object ` set (concat (map (\<lambda>(gr, k). filter (\<lambda>l. l \<noteq> k) (group_objects gr))
          (zip (groups R b) (map (link_of b) ks)))) = (\<Union>j<length ks. set (candidates (groups R b ! j)) - {ks ! j})"
    by (simp only: image_UN) (intro SUP_cong, auto simp only: gone lessThan_iff)
  then show "set (map link_object (departing (prepare R b waiting) (map (link_of b) ks))) =
     fst ` set (filter (leaves_play R b waiting) (rows b)) \<union>
     {i. \<exists>j < length ks. i \<in> set (candidates (groups R b ! j)) \<and> i \<noteq> ks ! j}"
    unfolding d by (auto simp: image_Un prepare_def image_image simp del: set_concat)
qed

end
