(* ===== verification/State_Based.thy ===== *)
theory State_Based
  imports Legend_Rule
begin

text \<open>
  \<^verbatim>\<open>mtg-kernel/src/trigger.rs\<close>: the sweep of state-based actions, its repetition until nothing
  changes (\<^verbatim>\<open>sba_fixed_point_with_protected_triggers\<close>) and the checkpoint that collects triggers
  around it (\<^verbatim>\<open>collect_and_process_with_sba_result_v1\<close>); from \<^verbatim>\<open>legend_rule_v1.rs\<close> the function
  that asks for legend choices and completes their pass (\<^verbatim>\<open>drain_or_decide\<close>); from \<^verbatim>\<open>event.rs\<close>
  \<^verbatim>\<open>cease_to_exist\<close>.

  The sweep is a sequence of stages, each a function that says whether it changed anything. A
  stage that did not leaves the board as it was, so a sweep without change finds all of its
  conditions on one and the same board. The loop is a partial function: whether it ends depends
  on the commits of the \<open>Rules\<close>.
\<close>

section \<open>Before a sweep\<close>

definition halt_on_invalid_battlefield_pt ::
  "('t, 'a, 'e, 'r) Rules \<Rightarrow> ('t, 'r) Board \<Rightarrow> bool \<times> ('t, 'r) Board" where
  "halt_on_invalid_battlefield_pt R b =
     (if halted b \<noteq> None then (True, b)
      else case find (\<lambda>(i, ob). obj_zone ob = Battlefield \<and> is_creature R b i \<and> \<not> pt_representable R b i)
                  (rows b) of
             None \<Rightarrow> (False, b)
           | Some (i, _) \<Rightarrow> (True, b\<lparr>halted := Some i\<rparr>))"

definition consume_protected_empty_draw ::
  "(PlayerId \<Rightarrow> bool) \<Rightarrow> PlayerId \<Rightarrow> bool \<times> ('t, 'r) Board \<Rightarrow> bool \<times> ('t, 'r) Board" where
  "consume_protected_empty_draw protected p cb =
     (case cb of (changed, b) \<Rightarrow>
        if protected p \<and> drew_from_empty (status b p)
        then (True, b\<lparr>status := (status b)(p := status b p\<lparr>drew_from_empty := False\<rparr>)\<rparr>)
        else (changed, b))"

definition consume_protected_empty_draws ::
  "(PlayerId \<Rightarrow> bool) \<Rightarrow> ('t, 'r) Board \<Rightarrow> bool \<times> ('t, 'r) Board" where
  "consume_protected_empty_draws protected b =
     fold (consume_protected_empty_draw protected) [P0, P1] (False, b)"

section \<open>Deaths\<close>

text \<open>The scan for dying permanents; \<^verbatim>\<open>checked_effective_pt\<close> may refuse a creature.\<close>

fun dying_from ::
  "('t, 'a, 'e, 'r) Rules \<Rightarrow> ('t, 'r) Board \<Rightarrow> (ObjectId \<times> GameObject) list \<Rightarrow> (ObjectId list, ObjectId) result" where
  "dying_from R b [] = Inr []"
| "dying_from R b ((i, ob) # more_rows) =
     (if obj_zone ob \<noteq> Battlefield then dying_from R b more_rows
      else if zero_loyalty R b i then and_then (dying_from R b more_rows) (\<lambda>ids. Inr (i # ids))
      else if \<not> is_creature R b i then dying_from R b more_rows
      else if \<not> pt_representable R b i then Inl i
      else if lethal R b i ob then and_then (dying_from R b more_rows) (\<lambda>ids. Inr (i # ids))
      else dying_from R b more_rows)"

definition die ::
  "('t, 'a, 'e, 'r) Rules \<Rightarrow> 't list \<Rightarrow> ObjectId list \<Rightarrow> ('t, 'r) Board \<Rightarrow> bool \<times> ('t, 'r) Board" where
  "die R waiting dying b =
     (if dying = [] then (False, b)
      else (True, commit_sba_death_batch_v1 R dying (before_protected_departures R dying waiting b)))"

section \<open>Attachments\<close>

definition modify :: "ObjectId \<Rightarrow> (GameObject \<Rightarrow> GameObject) \<Rightarrow> ('t, 'r) Board \<Rightarrow> ('t, 'r) Board" where
  "modify i f b =
     b\<lparr>board_objects := (board_objects b)\<lparr>items :=
        (items (board_objects b))[unat (object_raw i) := f (object_at b i)]\<rparr>\<rparr>"

text \<open>\<^verbatim>\<open>controlled_creature_grants_v1::detach_illegal_nonauras\<close>\<close>

definition illegally_attached ::
  "('t, 'a, 'e, 'r) Rules \<Rightarrow> ('t, 'r) Board \<Rightarrow> ObjectId \<Rightarrow> GameObject \<Rightarrow> bool" where
  "illegally_attached R b i ob \<longleftrightarrow>
     obj_zone ob = Battlefield \<and> (def_equipment (def_of R ob) \<or> def_bestow (def_of R ob)) \<and>
     attached_both_ways b i ob (\<lambda>h host. obj_zone host = Battlefield \<and>
       (\<not> is_creature R b h \<or> attachment_forbidden R b i h \<or> protects_from_colors_of R b h i))"

definition detach ::
  "('t, 'a, 'e, 'r) Rules \<Rightarrow> ObjectId \<times> ObjectId \<Rightarrow> ('t, 'r) Board \<Rightarrow> ('t, 'r) Board" where
  "detach R pair b =
     (case pair of (i, host) \<Rightarrow>
        modify i (\<lambda>ob. ob\<lparr>attached_to := None,
            effective_subtype_ids :=
              (if def_bestow (def_of R ob) then remdups_adj (sort (def_subtypes (def_of R ob)))
               else effective_subtype_ids ob)\<rparr>)
          (modify host (\<lambda>ob. ob\<lparr>obj_attachments := filter (\<lambda>x. x \<noteq> i) (obj_attachments ob)\<rparr>) b))"

definition detach_illegal_nonauras ::
  "('t, 'a, 'e, 'r) Rules \<Rightarrow> ('t, 'r) Board \<Rightarrow> bool \<times> ('t, 'r) Board" where
  "detach_illegal_nonauras R b =
     (if \<not> grants_enabled R then (False, b)
      else (let pairs = map (\<lambda>(i, ob). (i, link_object (the (attached_to ob))))
                  (filter (\<lambda>(i, ob). illegally_attached R b i ob) (rows b))
            in (pairs \<noteq> [], fold (detach R) pairs b)))"

definition invalid_aura ::
  "('t, 'a, 'e, 'r) Rules \<Rightarrow> ('t, 'r) Board \<Rightarrow> ObjectId \<Rightarrow> GameObject \<Rightarrow> bool" where
  "invalid_aura R b i ob \<longleftrightarrow>
     obj_zone ob = Battlefield \<and>
     (if (case attached_to ob of None \<Rightarrow> False
          | Some l \<Rightarrow> attachment_forbidden R b i (link_object l) \<or> protects_from_colors_of R b (link_object l) i) \<and>
         (def_attachment (def_of R ob) \<noteq> None \<or> def_is_aura (def_of R ob))
      then True
      else if def_is_aura (def_of R ob)
      then \<not> attached_both_ways b i ob
               (\<lambda>h host. aura_host_legal R (def_of R ob) (obj_controller ob) h b = Some True)
      else (case def_attachment (def_of R ob) of None \<Rightarrow> False
            | Some a \<Rightarrow> \<not> attachment_valid R b i ob a))"

definition timestamp_of :: "GameObject \<Rightarrow> u64" where
  "timestamp_of ob = (case layer_timestamp ob of None \<Rightarrow> 0 | Some t \<Rightarrow> t)"

definition obsolete_role ::
  "('t, 'a, 'e, 'r) Rules \<Rightarrow> ('t, 'r) Board \<Rightarrow> ObjectId \<Rightarrow> GameObject \<Rightarrow> bool" where
  "obsolete_role R b i ob \<longleftrightarrow>
     obj_zone ob = Battlefield \<and> def_is_role (def_of R ob) \<and> attached_to ob \<noteq> None \<and>
     (\<exists>(j, ot) \<in> set (rows b). j \<noteq> i \<and> obj_zone ot = Battlefield \<and> obj_controller ot = obj_controller ob \<and>
        attached_to ot = attached_to ob \<and> def_is_role (def_of R ot) \<and> timestamp_of ot > timestamp_of ob)"

definition finished_saga ::
  "('t, 'a, 'e, 'r) Rules \<Rightarrow> 't list \<Rightarrow> ('t, 'r) Board \<Rightarrow> ObjectId \<Rightarrow> GameObject \<Rightarrow> bool" where
  "finished_saga R waiting b i ob \<longleftrightarrow> obj_zone ob = Battlefield \<and> saga_completed R b waiting i ob"

text \<open>The three loops that collect permanents and then commit them to the graveyard one by one.\<close>

definition bury_all ::
  "('t, 'a, 'e, 'r) Rules \<Rightarrow> (('t, 'r) Board \<Rightarrow> ObjectId \<Rightarrow> GameObject \<Rightarrow> bool) \<Rightarrow> ('t, 'r) Board \<Rightarrow> bool \<times> ('t, 'r) Board" where
  "bury_all R doomed b =
     (let ids = map fst (filter (\<lambda>(i, ob). doomed b i ob) (rows b))
      in (ids \<noteq> [], fold (commit_to_graveyard R) ids b))"

section \<open>Losing players, ceasing tokens\<close>

definition lose_one ::
  "(PlayerId \<Rightarrow> bool) \<Rightarrow> PlayerId \<Rightarrow> bool \<times> ('t, 'r) Board \<Rightarrow> bool \<times> ('t, 'r) Board" where
  "lose_one protected p cb =
     (case cb of (changed, b) \<Rightarrow>
        if \<not> protected p \<and> \<not> has_lost (status b p) \<and>
           (life (status b p) \<le> 0 \<or> drew_from_empty (status b p) \<or> poison_counters (status b p) \<ge> 10)
        then (True, b\<lparr>status := (status b)(p := status b p\<lparr>has_lost := True\<rparr>)\<rparr>)
        else (changed, b))"

definition lose :: "(PlayerId \<Rightarrow> bool) \<Rightarrow> ('t, 'r) Board \<Rightarrow> bool \<times> ('t, 'r) Board" where
  "lose protected b = fold (lose_one protected) [P0, P1] (False, b)"

text \<open>\<^verbatim>\<open>event::remove_from_zone\<close> with \<^verbatim>\<open>drop_from\<close>\<close>

definition drop_card :: "ObjectId \<Rightarrow> ObjectId list \<Rightarrow> ObjectId list" where
  "drop_card i xs = filter (\<lambda>x. x \<noteq> i) xs"

fun position_of :: "ObjectId \<Rightarrow> ObjectId list \<Rightarrow> nat option" where
  "position_of i [] = None"
| "position_of i (x # xs) = (if x = i then Some 0 else map_option Suc (position_of i xs))"

definition is_spell_of :: "ObjectId \<Rightarrow> u32 \<Rightarrow> StackItem \<Rightarrow> bool" where
  "is_spell_of i gen item \<longleftrightarrow>
     item_is_spell item \<and> item_source item = i \<and> item_generation item = Some gen"

definition remove_card ::
  "('t, 'a, 'e, 'r) Rules \<Rightarrow> PlayerId \<Rightarrow> ObjectId \<Rightarrow> Zone \<Rightarrow> ('t, 'r) Board \<Rightarrow> bool \<times> ('t, 'r) Board" where
  "remove_card R own i z b =
     (case z of
        Library \<Rightarrow>
          (let b' = b\<lparr>libraries := (libraries b)(own := drop_card i (libraries b own))\<rparr>
           in (i \<in> set (libraries b own),
               case position_of i (libraries b own) of None \<Rightarrow> b' | Some n \<Rightarrow> note_removal R own n b'))
      | Hand \<Rightarrow> (i \<in> set (hands b own), b\<lparr>hands := (hands b)(own := drop_card i (hands b own))\<rparr>)
      | Battlefield \<Rightarrow>
          (let p = obj_controller (object_at b i)
           in (i \<in> set (battlefields b p), b\<lparr>battlefields := (battlefields b)(p := drop_card i (battlefields b p))\<rparr>))
      | Graveyard \<Rightarrow>
          (i \<in> set (graveyards b own), b\<lparr>graveyards := (graveyards b)(own := drop_card i (graveyards b own))\<rparr>)
      | Exile \<Rightarrow> (i \<in> set (exile b), b\<lparr>exile := drop_card i (exile b)\<rparr>)
      | Command \<Rightarrow> (i \<in> set (command b), b\<lparr>command := drop_card i (command b)\<rparr>)
      | Stack \<Rightarrow>
          (let gone = is_spell_of i (obj_generation (object_at b i))
           in (\<exists>item \<in> set (stack b). gone item, b\<lparr>stack := filter (\<lambda>item. \<not> gone item) (stack b)\<rparr>)))"

definition cease_to_exist ::
  "('t, 'a, 'e, 'r) Rules \<Rightarrow> ObjectId \<Rightarrow> ('t, 'r) Board \<Rightarrow> bool \<times> ('t, 'r) Board" where
  "cease_to_exist R i b =
     (case remove_card R (obj_owner (object_at b i)) i (obj_zone (object_at b i)) b of
        (removed, b') \<Rightarrow> (removed, if removed then forget_ceased R i b b' else b'))"

definition is_token_object :: "('t, 'a, 'e, 'r) Rules \<Rightarrow> GameObject \<Rightarrow> bool" where
  "is_token_object R ob \<longleftrightarrow> def_is_token (def_of R ob) \<or> v4_is_token ob"

definition cease_next ::
  "('t, 'a, 'e, 'r) Rules \<Rightarrow> ObjectId \<Rightarrow> bool \<times> ('t, 'r) Board \<Rightarrow> bool \<times> ('t, 'r) Board" where
  "cease_next R i cb =
     (case cb of (changed, b) \<Rightarrow>
        case cease_to_exist R i b of (removed, b') \<Rightarrow> (changed \<or> removed, b'))"

definition cease_tokens ::
  "('t, 'a, 'e, 'r) Rules \<Rightarrow> ('t, 'r) Board \<Rightarrow> bool \<times> ('t, 'r) Board" where
  "cease_tokens R b =
     fold (cease_next R)
       (map fst (filter (\<lambda>(i, ob). obj_zone ob \<noteq> Battlefield \<and> is_token_object R ob) (rows b)))
       (False, b)"

section \<open>The sweep\<close>

text \<open>\<^verbatim>\<open>changed |= stage(state)\<close>\<close>

definition also_do ::
  "bool \<times> ('t, 'r) Board \<Rightarrow> (('t, 'r) Board \<Rightarrow> bool \<times> ('t, 'r) Board) \<Rightarrow> bool \<times> ('t, 'r) Board" where
  "also_do cb f = (case cb of (changed, b) \<Rightarrow> case f b of (c, b') \<Rightarrow> (changed \<or> c, b'))"

definition sweep_after_deaths ::
  "('t, 'a, 'e, 'r) Rules \<Rightarrow> 't list \<Rightarrow> (PlayerId \<Rightarrow> bool) \<Rightarrow> bool \<times> ('t, 'r) Board \<Rightarrow> bool \<times> ('t, 'r) Board" where
  "sweep_after_deaths R waiting protected cb =
     fold (\<lambda>stage cb. also_do cb stage)
       [detach_illegal_nonauras R, bury_all R (invalid_aura R), bury_all R (obsolete_role R),
        bury_all R (finished_saga R waiting), lose protected, cease_tokens R] cb"

datatype SweepEnd = Refused | Staged | Swept bool

definition sweep ::
  "('t, 'a, 'e, 'r) Rules \<Rightarrow> 't list \<Rightarrow> ('t, 'r) Game \<Rightarrow> SweepEnd \<times> ('t, 'r) Game" where
  "sweep R waiting g =
     (case halt_on_invalid_battlefield_pt R (board g) of
        (True, b) \<Rightarrow> (Refused, g\<lparr>board := b\<rparr>)
      | (False, b) \<Rightarrow>
         (let protected = cannot_lose R b in
          case consume_protected_empty_draws protected b of (consumed, b1) \<Rightarrow>
          case stage R waiting (g\<lparr>board := b1\<rparr>) of
            (True, h) \<Rightarrow> (Staged, h)
          | (False, h) \<Rightarrow>
             (case dying_from R b1 (rows b1) of
                Inl i \<Rightarrow> (Refused, h\<lparr>board := b1\<lparr>halted := Some i\<rparr>\<rparr>)
              | Inr dying \<Rightarrow>
                 (case sweep_after_deaths R waiting protected (also_do (consumed, b1) (die R waiting dying)) of
                    (changed, b2) \<Rightarrow> (Swept changed, h\<lparr>board := b2\<rparr>)))))"

partial_function (option) sba_loop ::
  "('t, 'a, 'e, 'r) Rules \<Rightarrow> 't list \<Rightarrow> bool \<Rightarrow> ('t, 'r) Game \<Rightarrow> (bool \<times> ('t, 'r) Game) option" where
  "sba_loop R waiting any_changed g =
     (case sweep R waiting g of
        (Refused, h) \<Rightarrow> Some (any_changed, h)
      | (Staged, h) \<Rightarrow> Some (True, h)
      | (Swept changed, h) \<Rightarrow>
          if changed then sba_loop R waiting True h else Some (any_changed, h))"

declare sba_loop.simps [code]

definition sba_fixed_point_with_protected_triggers ::
  "('t, 'a, 'e, 'r) Rules \<Rightarrow> 't list \<Rightarrow> ('t, 'r) Game \<Rightarrow> (bool \<times> ('t, 'r) Game) option" where
  "sba_fixed_point_with_protected_triggers R waiting g = sba_loop R waiting False g"

section \<open>The checkpoint\<close>

definition order_apnap ::
  "('t, 'a, 'e, 'r) Rules \<Rightarrow> 't list \<Rightarrow> PlayerId \<Rightarrow> 't list" where
  "order_apnap R ts p =
     filter (\<lambda>t. trigger_controller R t = p) ts @ filter (\<lambda>t. trigger_controller R t \<noteq> p) ts"

text \<open>\<^verbatim>\<open>new_triggers.retain(..)\<close>: a trigger without a complete choice of targets is discarded.\<close>

fun retain_targetable ::
  "('t, 'a, 'e, 'r) Rules \<Rightarrow> 't list \<Rightarrow> ('t, 'r) Board \<Rightarrow> 't list \<times> ('t, 'r) Board" where
  "retain_targetable R [] b = ([], b)"
| "retain_targetable R (t # ts) b =
     (if targets_can_complete R t b
      then (case retain_targetable R ts b of (keep, b') \<Rightarrow> (t # keep, b'))
      else retain_targetable R ts (discard_trigger R t b))"

definition collect_and_process_with_sba_result_v1 ::
  "('t, 'a, 'e, 'r) Rules \<Rightarrow> 't list \<Rightarrow> ('t, 'r) Game \<Rightarrow> (('t list \<times> bool \<times> bool) \<times> ('t, 'r) Game) option" where
  "collect_and_process_with_sba_result_v1 R waiting g =
     (if pending_legend_rule_v1 g \<noteq> None then Some (([], False, False), g)
      else case halt_on_invalid_battlefield_pt R (board g) of
        (True, b) \<Rightarrow> Some (([], False, False), g\<lparr>board := b\<rparr>)
      | (False, b) \<Rightarrow>
         (case capture_triggers R b of (captured, b1) \<Rightarrow>
          let new_triggers = waiting @ captured in
          if halted b1 \<noteq> None then Some (([], False, False), g\<lparr>board := b1\<rparr>)
          else case sba_fixed_point_with_protected_triggers R new_triggers (g\<lparr>board := b1\<rparr>) of
             None \<Rightarrow> None
           | Some (sba_changed, h) \<Rightarrow>
              if halted (board h) \<noteq> None \<or> pending_legend_rule_v1 h \<noteq> None
              then Some (([], sba_changed, new_triggers \<noteq> []), h)
              else (case late_captures R (board h) of (late, b2) \<Rightarrow>
                    let all_triggers = new_triggers @ late in
                    case retain_targetable R all_triggers b2 of (keep, b3) \<Rightarrow>
                    if halted b3 \<noteq> None then Some (([], False, False), h\<lparr>board := b3\<rparr>)
                    else Some ((order_apnap R keep (active_player b3), sba_changed, all_triggers \<noteq> []),
                               h\<lparr>board := b3\<rparr>))))"

section \<open>Completing the legend rule\<close>

definition mark_lost :: "PlayerId \<Rightarrow> ('t, 'r) Board \<Rightarrow> ('t, 'r) Board" where
  "mark_lost p b = b\<lparr>status := (status b)(p := status b p\<lparr>has_lost := True\<rparr>)\<rparr>"

definition complete_pass ::
  "('t, 'a, 'e, 'r) Rules \<Rightarrow> 't list \<Rightarrow> PreparedPassV1 \<Rightarrow> ObjectId list \<Rightarrow> ('t, 'r) Board \<Rightarrow> ('t, 'r) Board" where
  "complete_pass R waiting q ids b =
     fold (\<lambda>l b. snd (cease_to_exist R (link_object l) b)) (ceasing q)
       (fold mark_lost (losses q)
         (propose_and_commit_batch R ids (before_protected_departures R ids waiting b)))"

definition finish_pass ::
  "('t, 'a, 'e, 'r) Rules \<Rightarrow> 't list \<Rightarrow> PreparedPassV1 \<Rightarrow> ObjectId list \<Rightarrow> ('t, 'r) Game
    \<Rightarrow> ((Decision option, LegendError) result \<times> ('t, 'r) Game) option" where
  "finish_pass R waiting q ids g =
     (case collect_and_process_with_sba_result_v1 R waiting
             (g\<lparr>board := complete_pass R waiting q ids (board g), pending_legend_rule_v1 := None\<rparr>) of
        None \<Rightarrow> None
      | Some ((triggers, _), h) \<Rightarrow>
          Some (Inr None, h\<lparr>board := (board h)\<lparr>pending_triggers := pending_triggers (board h) @ triggers\<rparr>\<rparr>))"

definition drain_or_decide_legend ::
  "('t, 'a, 'e, 'r) Rules \<Rightarrow> ('t, 'r) Game \<Rightarrow> ((Decision option, LegendError) result \<times> ('t, 'r) Game) option" where
  "drain_or_decide_legend R g =
     (case pending_legend_rule_v1 g of None \<Rightarrow> Some (Inr None, g)
      | Some p \<Rightarrow>
         (case validate_legend R (board g) p of Inl e \<Rightarrow> Some (Inl e, g)
          | Inr _ \<Rightarrow>
             (case next_question p of Some d \<Rightarrow> Some (Inr (Some d), g)
              | None \<Rightarrow>
                 finish_pass R (waiting_triggers p) (pass p)
                   (map link_object (departing (pass p) (kept p))) g)))"

section \<open>What a settled board is\<close>

definition in_its_zone :: "('t, 'r) Board \<Rightarrow> ObjectId \<Rightarrow> GameObject \<Rightarrow> bool" where
  "in_its_zone b i ob =
     (case obj_zone ob of
        Library \<Rightarrow> i \<in> set (libraries b (obj_owner ob))
      | Hand \<Rightarrow> i \<in> set (hands b (obj_owner ob))
      | Battlefield \<Rightarrow> i \<in> set (battlefields b (obj_controller ob))
      | Graveyard \<Rightarrow> i \<in> set (graveyards b (obj_owner ob))
      | Exile \<Rightarrow> i \<in> set (exile b)
      | Command \<Rightarrow> i \<in> set (command b)
      | Stack \<Rightarrow> \<exists>item \<in> set (stack b). is_spell_of i (obj_generation ob) item)"

definition keeps_playing :: "(PlayerId \<Rightarrow> bool) \<Rightarrow> PlayerStatus \<Rightarrow> PlayerId \<Rightarrow> bool" where
  "keeps_playing protected ps p \<longleftrightarrow>
     protected p \<or> has_lost ps \<or> (life ps > 0 \<and> \<not> drew_from_empty ps \<and> poison_counters ps < 10)"

text \<open>Per permanent, per player, and across the permanents of a player: nothing is left to do.\<close>

definition permanent_settled ::
  "('t, 'a, 'e, 'r) Rules \<Rightarrow> 't list \<Rightarrow> ('t, 'r) Board \<Rightarrow> ObjectId \<Rightarrow> GameObject \<Rightarrow> bool" where
  "permanent_settled R waiting b i ob \<longleftrightarrow>
     \<not> zero_loyalty R b i \<and> \<not> lethal R b i ob \<and>
     (grants_enabled R \<longrightarrow> \<not> illegally_attached R b i ob) \<and>
     \<not> invalid_aura R b i ob \<and> \<not> obsolete_role R b i ob \<and> \<not> saga_completed R b waiting i ob"

definition settled ::
  "('t, 'a, 'e, 'r) Rules \<Rightarrow> 't list \<Rightarrow> ('t, 'r) Board \<Rightarrow> bool" where
  "settled R waiting b \<longleftrightarrow>
     (\<forall>(i, ob) \<in> set (rows b). if obj_zone ob = Battlefield then permanent_settled R waiting b i ob
        else \<not> (is_token_object R ob \<and> in_its_zone b i (object_at b i))) \<and>
     (\<forall>p \<in> {P0, P1}. keeps_playing (cannot_lose R b) (status b p) p \<and>
        \<not> (cannot_lose R b p \<and> drew_from_empty (status b p))) \<and>
     groups R b = []"

section \<open>What shrinks\<close>

definition on_battlefield :: "('t, 'r) Board \<Rightarrow> ObjectId set" where
  "on_battlefield b = {i. \<exists>ob. live_at b i = Some ob \<and> obj_zone ob = Battlefield}"

definition attachments_of :: "('t, 'r) Board \<Rightarrow> ObjectId set" where
  "attachments_of b = {i. \<exists>ob. live_at b i = Some ob \<and> obj_zone ob = Battlefield \<and> attached_to ob \<noteq> None}"

definition lingering :: "('t, 'a, 'e, 'r) Rules \<Rightarrow> ('t, 'r) Board \<Rightarrow> ObjectId set" where
  "lingering R b = {i. \<exists>ob. live_at b i = Some ob \<and> obj_zone ob \<noteq> Battlefield \<and> is_token_object R ob \<and>
     in_its_zone b i ob}"

definition unlost :: "('t, 'r) Board \<Rightarrow> PlayerId set" where
  "unlost b = {p \<in> {P0, P1}. \<not> has_lost (status b p)}"

definition empty_draws :: "('t, 'r) Board \<Rightarrow> PlayerId set" where
  "empty_draws b = {p \<in> {P0, P1}. drew_from_empty (status b p)}"

definition rank :: "('t, 'a, 'e, 'r) Rules \<Rightarrow> ('t, 'r) Board \<Rightarrow> nat" where
  "rank R b = 3 * card (on_battlefield b) + card (attachments_of b) + card (lingering R b) +
     card (unlost b) + card (empty_draws b)"

text \<open>A change that brings nothing new into play, unless it halts the game for good.\<close>

definition calm :: "('t, 'a, 'e, 'r) Rules \<Rightarrow> ('t, 'r) Board \<Rightarrow> ('t, 'r) Board \<Rightarrow> bool" where
  "calm R b b' \<longleftrightarrow>
     (arena_room (board_objects b) \<longrightarrow> arena_room (board_objects b')) \<and>
     (halted b \<noteq> None \<longrightarrow> halted b' \<noteq> None) \<and>
     (halted b' \<noteq> None \<or>
       on_battlefield b' \<subseteq> on_battlefield b \<and> attachments_of b' \<subseteq> attachments_of b \<and>
       lingering R b' \<subseteq> lingering R b \<union> (on_battlefield b - on_battlefield b') \<and>
       unlost b' \<subseteq> unlost b \<and> empty_draws b' \<subseteq> empty_draws b)"

text \<open>What the commits of \<^verbatim>\<open>event.rs\<close> promise: a committed departure leaves the battlefield or
  halts the game, and no commit of this checkpoint brings anything new into play.\<close>

definition lawful :: "('t, 'a, 'e, 'r) Rules \<Rightarrow> bool" where
  "lawful R \<longleftrightarrow>
     (\<forall>b ids ts. calm R b (before_protected_departures R ids ts b)) \<and>
     (\<forall>b ids. calm R b (commit_sba_death_batch_v1 R ids b) \<and>
        (halted (commit_sba_death_batch_v1 R ids b) \<noteq> None \<or>
         set ids \<inter> on_battlefield (commit_sba_death_batch_v1 R ids b) = {})) \<and>
     (\<forall>b i. calm R b (commit_to_graveyard R i b) \<and>
        (halted (commit_to_graveyard R i b) \<noteq> None \<or> i \<notin> on_battlefield (commit_to_graveyard R i b))) \<and>
     (\<forall>b p n. calm R b (note_removal R p n b)) \<and>
     (\<forall>b b0 i. calm R b (forget_ceased R i b0 b))"

text \<open>A stage that reports a change either halts the game or makes the rank smaller.\<close>

definition moved :: "('t, 'a, 'e, 'r) Rules \<Rightarrow> ('t, 'r) Board \<Rightarrow> bool \<times> ('t, 'r) Board \<Rightarrow> bool" where
  "moved R b cb \<longleftrightarrow>
     calm R b (snd cb) \<and> (fst cb \<longrightarrow> halted (snd cb) \<noteq> None \<or> rank R (snd cb) < rank R b)"

lemma calm_refl [simp, intro]: "calm R b b"
  by (auto simp: calm_def)

lemma calm_trans:
  assumes "calm R a b" "calm R b c"
  shows "calm R a c"
proof (cases "halted c = None")
  case True
  then have "halted b = None" using assms(2) by (auto simp: calm_def)
  then have "on_battlefield b \<subseteq> on_battlefield a" "on_battlefield c \<subseteq> on_battlefield b"
    "lingering R b \<subseteq> lingering R a \<union> (on_battlefield a - on_battlefield b)"
    "lingering R c \<subseteq> lingering R b \<union> (on_battlefield b - on_battlefield c)"
    using True assms by (auto simp: calm_def)
  then have "lingering R c \<subseteq> lingering R a \<union> (on_battlefield a - on_battlefield c)" by blast
  then show ?thesis
    using True \<open>halted b = None\<close> assms unfolding calm_def by (simp) (meson order_trans)
qed (use assms in \<open>auto simp: calm_def\<close>)

lemma finite_parts [simp]:
  "finite (on_battlefield b)" "finite (attachments_of b)" "finite (lingering R b)"
  "finite (unlost b)" "finite (empty_draws b)"
proof -
  have "finite (UNIV :: ObjectId set)"
    by (rule finite_imageD[of object_raw]) (auto simp: inj_on_def ObjectId.expand)
  then show "finite (on_battlefield b)" "finite (attachments_of b)" "finite (lingering R b)"
    by (auto intro: rev_finite_subset)
qed (auto simp: unlost_def empty_draws_def)

lemma rank_calm:
  assumes "calm R b b'" "halted b' = None"
  shows "rank R b' \<le> rank R b"
    and "on_battlefield b' \<noteq> on_battlefield b \<or> attachments_of b' \<noteq> attachments_of b \<or>
      lingering R b' \<noteq> lingering R b \<or> unlost b' \<noteq> unlost b \<or> empty_draws b' \<noteq> empty_draws b
      \<Longrightarrow> rank R b' < rank R b"
proof -
  have sub: "on_battlefield b' \<subseteq> on_battlefield b" "attachments_of b' \<subseteq> attachments_of b"
    "lingering R b' \<subseteq> lingering R b \<union> (on_battlefield b - on_battlefield b')"
    "unlost b' \<subseteq> unlost b" "empty_draws b' \<subseteq> empty_draws b"
    using assms by (auto simp: calm_def)
  have less: "card A < card B \<or> A = B" if "A \<subseteq> B" "finite B" for A B :: "'z set"
    using that psubset_card_mono by blast
  have "card (lingering R b') \<le> card (lingering R b \<union> (on_battlefield b - on_battlefield b'))"
    using sub(3) by (intro card_mono) auto
  also have "\<dots> \<le> card (lingering R b) + card (on_battlefield b - on_battlefield b')"
    by (rule card_Un_le)
  finally have tokens: "card (lingering R b') + card (on_battlefield b') \<le> card (lingering R b) + card (on_battlefield b)"
    using sub(1) card_mono[OF _ sub(1)] by (simp add: card_Diff_subset)
  have parts: "card (on_battlefield b') \<le> card (on_battlefield b)" "card (attachments_of b') \<le> card (attachments_of b)"
    "card (unlost b') \<le> card (unlost b)" "card (empty_draws b') \<le> card (empty_draws b)"
    using sub by (auto intro: card_mono)
  then show "rank R b' \<le> rank R b" using tokens by (simp add: rank_def)
  assume differs: "on_battlefield b' \<noteq> on_battlefield b \<or> attachments_of b' \<noteq> attachments_of b \<or>
      lingering R b' \<noteq> lingering R b \<or> unlost b' \<noteq> unlost b \<or> empty_draws b' \<noteq> empty_draws b"
  show "rank R b' < rank R b"
  proof (cases "on_battlefield b' = on_battlefield b")
    case True
    then have "lingering R b' \<subseteq> lingering R b" using sub(3) by auto
    then show ?thesis
      using differs True parts less[OF sub(2)] less[OF sub(4)] less[OF sub(5)] less[of "lingering R b'" "lingering R b"]
        card_mono[of "lingering R b" "lingering R b'"]
      by (auto simp: rank_def)
  next
    case False
    then show ?thesis using parts tokens less[OF sub(1)] by (auto simp: rank_def)
  qed
qed

lemma moved_trans:
  assumes "moved R a (c1, b)" "moved R b (c2, b')"
  shows "moved R a (c1 \<or> c2, b')"
proof -
  have "calm R a b'" using assms calm_trans by (auto simp: moved_def)
  moreover have "halted b' \<noteq> None \<or> rank R b' < rank R a" if "c1 \<or> c2"
  proof (cases "halted b' = None")
    case True
    then have "halted b = None" using assms(2) by (auto simp: moved_def calm_def)
    then show ?thesis
      using assms that True rank_calm(1)[of R a b] rank_calm(1)[of R b b'] by (force simp: moved_def)
  qed simp
  ultimately show ?thesis by (auto simp: moved_def)
qed

section \<open>Stages\<close>

locale sba_stage =
  fixes R :: "('t, 'a, 'e, 'r) Rules"
    and stage :: "('t, 'r) Board \<Rightarrow> bool \<times> ('t, 'r) Board"
    and clean :: "('t, 'r) Board \<Rightarrow> bool"
  assumes quiet: "stage b = (False, b') \<Longrightarrow> b' = b \<and> clean b"
    and shrinks: "lawful R \<Longrightarrow> arena_room (board_objects b) \<Longrightarrow> moved R b (stage b)"
begin

lemma also_quiet:
  assumes "also_do (c, b) stage = (False, b')"
  shows "\<not> c \<and> b' = b \<and> clean b"
  using assms quiet[of b b'] by (auto simp: also_do_def split: prod.splits)

lemma also_moved:
  assumes "lawful R" "arena_room (board_objects a)" "moved R a cb"
  shows "moved R a (also_do cb stage)"
proof -
  obtain c b where cb: "cb = (c, b)" by (cases cb)
  then have "arena_room (board_objects b)" using assms by (auto simp: moved_def calm_def)
  then show ?thesis
    using assms shrinks[of b] moved_trans[of R a c b] by (auto simp: cb also_do_def split: prod.split)
qed

end

lemma rows_live:
  assumes "arena_room (board_objects b)"
  shows "(i, ob) \<in> set (rows b) \<longleftrightarrow> live_at b i = Some ob"
proof -
  have index: "unat (word_of_nat n :: u32) = n" if "n < length (items (board_objects b))" for n
    using that assms by (simp add: arena_room_def unat_of_nat)
  have "\<exists>n < length (items (board_objects b)). (i, ob) = (ObjectId (word_of_nat n), items (board_objects b) ! n)"
    if "live_at b i = Some ob"
    using that by (intro exI[of _ "unat (object_raw i)"])
      (auto simp: live_at_def arena_try_get_def split: if_splits)
  then show ?thesis
    by (auto simp: rows_def in_set_conv_nth arena_iter_nth live_at_def arena_try_get_def index)
qed

lemma row_object_at:
  assumes "arena_room (board_objects b)" "(i, ob) \<in> set (rows b)"
  shows "object_at b i = ob"
  using assms by (auto simp: rows_live live_at_def arena_try_get_def object_at_def split: if_splits)

subsection \<open>Detaching\<close>

text \<open>What a change of one object leaves alone.\<close>

definition same_place :: "GameObject \<Rightarrow> GameObject \<Rightarrow> bool" where
  "same_place ob ob' \<longleftrightarrow>
     obj_zone ob' = obj_zone ob \<and> obj_owner ob' = obj_owner ob \<and> obj_controller ob' = obj_controller ob \<and>
     obj_generation ob' = obj_generation ob \<and> obj_card_def ob' = obj_card_def ob \<and>
     v4_is_token ob' = v4_is_token ob \<and> (attached_to ob' \<noteq> None \<longrightarrow> attached_to ob \<noteq> None)"

lemma live_modify:
  "live_at (modify i f b) j = (if j = i then map_option f (live_at b i) else live_at b j)"
  by (cases i; cases j) (auto simp: live_at_def modify_def arena_try_get_def object_at_def word_unat_eq_iff)

lemma modify_board [simp]:
  "status (modify i f b) = status b" "halted (modify i f b) = halted b"
  "arena_room (board_objects (modify i f b)) = arena_room (board_objects b)"
  by (auto simp: modify_def arena_room_def)

lemma in_its_zone_modify:
  "same_place ob ob' \<Longrightarrow> in_its_zone (modify i f b) j ob' = in_its_zone b j ob"
  by (auto simp: in_its_zone_def same_place_def modify_def split: Zone.split)

lemma calm_modify:
  assumes "\<And>ob. same_place ob (f ob)"
  shows "calm R b (modify i f b)"
proof -
  have same: "same_place ob ob" for ob by (simp add: same_place_def)
  have "on_battlefield (modify i f b) = on_battlefield b"
    using assms by (auto simp: on_battlefield_def live_modify same_place_def split: if_splits)
  moreover have "attachments_of (modify i f b) \<subseteq> attachments_of b"
    using assms by (force simp: attachments_of_def live_modify same_place_def split: if_splits)
  moreover have "lingering R (modify i f b) \<subseteq> lingering R b"
    using assms in_its_zone_modify[OF same, of i f b] in_its_zone_modify[OF assms, of i f b]
    by (fastforce simp: lingering_def live_modify is_token_object_def def_of_def same_place_def split: if_splits)
  ultimately show ?thesis by (auto simp: calm_def unlost_def empty_draws_def)
qed

lemma calm_detach: "calm R b (detach R pair b)"
  unfolding detach_def by (cases pair) (auto intro!: calm_trans[OF calm_modify calm_modify] simp: same_place_def)

lemma detach_removes: "i \<notin> attachments_of (detach R (i, host) b)"
  by (auto simp: detach_def attachments_of_def live_modify split: if_splits)

lemma calm_fold:
  assumes "\<And>x b. calm R b (f x b)"
  shows "calm R b (fold f xs b)"
  by (induction xs arbitrary: b) (auto intro: calm_trans assms)

lemma moved_fold:
  assumes "\<And>x b. calm R b (f x b)" "\<And>b. halted (f x b) \<noteq> None \<or> i \<notin> S (f x b)" "i \<in> S b"
    and "\<And>b b'. calm R b b' \<Longrightarrow> halted b' = None \<Longrightarrow> S b' \<subseteq> S b \<and> (S b' \<noteq> S b \<longrightarrow> rank R b' < rank R b)"
  shows "moved R b (True, fold f (x # xs) b)"
proof -
  have rest: "calm R (f x b) (fold f xs (f x b))" by (rule calm_fold[of R f], rule assms)
  have all: "calm R b (fold f (x # xs) b)" by (rule calm_fold[of R f], rule assms)
  have "rank R (fold f (x # xs) b) < rank R b" if "halted (fold f (x # xs) b) = None"
    using that rest all assms(2)[of b] assms(3) assms(4)[OF rest] assms(4)[OF all]
    by (auto simp: calm_def)
  then show ?thesis using all by (auto simp: moved_def)
qed

lemma calm_parts:
  assumes "calm R b b'" "halted b' = None"
  shows "attachments_of b' \<subseteq> attachments_of b \<and> (attachments_of b' \<noteq> attachments_of b \<longrightarrow> rank R b' < rank R b)"
    "on_battlefield b' \<subseteq> on_battlefield b \<and> (on_battlefield b' \<noteq> on_battlefield b \<longrightarrow> rank R b' < rank R b)"
  using rank_calm(2)[OF assms] assms by (auto simp: calm_def)

lemma moved_nothing [simp]: "moved R b (False, b)"
  by (simp add: moved_def)

interpretation detaching: sba_stage R "detach_illegal_nonauras R"
    "\<lambda>b. grants_enabled R \<longrightarrow> (\<forall>(i, ob) \<in> set (rows b). \<not> illegally_attached R b i ob)"
  for R :: "('t, 'a, 'e, 'r) Rules"
proof unfold_locales
  fix b b' :: "('t, 'r) Board"
  show "b' = b \<and> (grants_enabled R \<longrightarrow> (\<forall>(i, ob) \<in> set (rows b). \<not> illegally_attached R b i ob))"
    if "detach_illegal_nonauras R b = (False, b')"
    using that by (auto simp: detach_illegal_nonauras_def Let_def filter_empty_conv split: if_splits)
  assume room: "arena_room (board_objects b)"
  show "moved R b (detach_illegal_nonauras R b)"
  proof (cases "grants_enabled R \<and> filter (\<lambda>(i, ob). illegally_attached R b i ob) (rows b) \<noteq> []")
    case True
    then obtain i ob more_rows where rows: "filter (\<lambda>(i, ob). illegally_attached R b i ob) (rows b) = (i, ob) # more_rows"
      by (metis list.exhaust surj_pair)
    have "(i, ob) \<in> set (filter (\<lambda>(i, ob). illegally_attached R b i ob) (rows b))" by (simp add: rows)
    then have "i \<in> attachments_of b"
      using room by (auto simp: rows_live attachments_of_def illegally_attached_def attached_both_ways_def
          split: option.splits)
    then show ?thesis
      using True moved_fold[where R = R and f = "detach R" and S = attachments_of and i = i and b = b
            and x = "(i, link_object (the (attached_to ob)))"
            and xs = "map (\<lambda>(i, ob). (i, link_object (the (attached_to ob)))) more_rows"]
      by (simp add: detach_illegal_nonauras_def rows calm_detach detach_removes calm_parts)
  qed (auto simp: detach_illegal_nonauras_def)
qed

subsection \<open>Burying\<close>

lemma bury_all_stage:
  fixes doomed :: "('t, 'r) Board \<Rightarrow> ObjectId \<Rightarrow> GameObject \<Rightarrow> bool"
  assumes "\<And>b i ob. doomed b i ob \<Longrightarrow> obj_zone ob = Battlefield"
  shows "sba_stage R (bury_all R doomed) (\<lambda>b. \<forall>(i, ob) \<in> set (rows b). \<not> doomed b i ob)"
proof
  fix b b' :: "('t, 'r) Board"
  assume "bury_all R doomed b = (False, b')"
  then show "b' = b \<and> (\<forall>(i, ob) \<in> set (rows b). \<not> doomed b i ob)"
    by (auto simp: bury_all_def Let_def filter_empty_conv)
next
  fix b :: "('t, 'r) Board"
  assume lawful: "lawful R" and room: "arena_room (board_objects b)"
  show "moved R b (bury_all R doomed b)"
  proof (cases "filter (\<lambda>(i, ob). doomed b i ob) (rows b)")
    case (Cons row more_rows)
    obtain i ob where row: "row = (i, ob)" by (cases row)
    have "(i, ob) \<in> set (filter (\<lambda>(i, ob). doomed b i ob) (rows b))" by (simp add: Cons row)
    then have "i \<in> on_battlefield b"
      using room assms by (auto simp: rows_live on_battlefield_def)
    moreover have "calm R c (commit_to_graveyard R j c)"
      "halted (commit_to_graveyard R j c) \<noteq> None \<or> j \<notin> on_battlefield (commit_to_graveyard R j c)" for c j
      using lawful by (simp_all add: lawful_def)
    ultimately show ?thesis
      using moved_fold[where R = R and f = "commit_to_graveyard R" and S = on_battlefield and i = i and x = i
            and b = b and xs = "map fst more_rows"]
      by (simp add: bury_all_def Cons row calm_parts)
  qed (simp add: bury_all_def)
qed

interpretation auras: sba_stage R "bury_all R (invalid_aura R)"
    "\<lambda>b. \<forall>(i, ob) \<in> set (rows b). \<not> invalid_aura R b i ob"
  for R :: "('t, 'a, 'e, 'r) Rules"
  by (rule bury_all_stage) (simp add: invalid_aura_def)

interpretation roles: sba_stage R "bury_all R (obsolete_role R)"
    "\<lambda>b. \<forall>(i, ob) \<in> set (rows b). \<not> obsolete_role R b i ob"
  for R :: "('t, 'a, 'e, 'r) Rules"
  by (rule bury_all_stage) (simp add: obsolete_role_def)

interpretation sagas: sba_stage R "bury_all R (finished_saga R waiting)"
    "\<lambda>b. \<forall>(i, ob) \<in> set (rows b). \<not> finished_saga R waiting b i ob"
  for R :: "('t, 'a, 'e, 'r) Rules" and waiting :: "'t list"
  by (rule bury_all_stage) (simp add: finished_saga_def)

subsection \<open>Players\<close>

lemma live_status [simp]:
  "live_at (b\<lparr>status := f\<rparr>) i = live_at b i" "in_its_zone (b\<lparr>status := f\<rparr>) i ob = in_its_zone b i ob"
  by (auto simp: live_at_def in_its_zone_def split: Zone.split)

lemma moved_status:
  assumes "unlost (b\<lparr>status := f\<rparr>) \<subseteq> unlost b" "empty_draws (b\<lparr>status := f\<rparr>) \<subseteq> empty_draws b"
    and "unlost (b\<lparr>status := f\<rparr>) \<noteq> unlost b \<or> empty_draws (b\<lparr>status := f\<rparr>) \<noteq> empty_draws b"
  shows "moved R b (True, b\<lparr>status := f\<rparr>)"
proof -
  have "calm R b (b\<lparr>status := f\<rparr>)"
    using assms by (auto simp: calm_def on_battlefield_def attachments_of_def lingering_def)
  then show ?thesis
    using assms(3) rank_calm(2)[of R b "b\<lparr>status := f\<rparr>"] by (auto simp: moved_def)
qed

lemma moved_lose_one:
  assumes "moved R a cb" "p \<in> {P0, P1}"
  shows "moved R a (lose_one protected p cb)"
proof -
  obtain c b where cb: "cb = (c, b)" by (cases cb)
  let ?f = "(status b)(p := status b p\<lparr>has_lost := True\<rparr>)"
  have "moved R b (True, b\<lparr>status := ?f\<rparr>)" if "\<not> has_lost (status b p)"
    using that assms(2) by (intro moved_status) (auto simp: unlost_def empty_draws_def set_eq_iff)
  then show ?thesis
    using assms moved_trans[of R a c b True] by (auto simp: cb lose_one_def)
qed

interpretation losing: sba_stage R "lose protected"
    "\<lambda>b. \<forall>p \<in> {P0, P1}. keeps_playing protected (status b p) p"
  for R :: "('t, 'a, 'e, 'r) Rules" and protected :: "PlayerId \<Rightarrow> bool"
proof unfold_locales
  fix b b' :: "('t, 'r) Board"
  show "b' = b \<and> (\<forall>p \<in> {P0, P1}. keeps_playing protected (status b p) p)" if "lose protected b = (False, b')"
    using that by (auto simp: lose_def lose_one_def keeps_playing_def not_le split: if_splits)
  show "moved R b (lose protected b)"
    unfolding lose_def by (simp add: moved_lose_one)
qed

lemma consume_moved: "moved R b (consume_protected_empty_draws protected b)"
proof -
  have "moved R b (consume_protected_empty_draw protected p cb)" if "moved R b cb" "p \<in> {P0, P1}" for p cb
  proof -
    obtain c a where cb: "cb = (c, a)" by (cases cb)
    let ?f = "(status a)(p := status a p\<lparr>drew_from_empty := False\<rparr>)"
    have "moved R a (True, a\<lparr>status := ?f\<rparr>)" if "drew_from_empty (status a p)"
      using that \<open>p \<in> {P0, P1}\<close> by (intro moved_status) (auto simp: unlost_def empty_draws_def set_eq_iff)
    then show ?thesis
      using that moved_trans[of R b c a True] by (auto simp: cb consume_protected_empty_draw_def)
  qed
  then show ?thesis by (simp add: consume_protected_empty_draws_def)
qed

lemma consume_quiet:
  "consume_protected_empty_draws protected b = (False, b') \<Longrightarrow>
   b' = b \<and> (\<forall>p \<in> {P0, P1}. \<not> (protected p \<and> drew_from_empty (status b p)))"
  by (auto simp: consume_protected_empty_draws_def consume_protected_empty_draw_def split: if_splits)

subsection \<open>Tokens\<close>

lemma position_of_None [simp]: "position_of i xs = None \<longleftrightarrow> i \<notin> set xs"
  by (induction xs) auto

lemma position_of_member: "position_of i xs = Some n \<Longrightarrow> i \<in> set xs"
  by (metis position_of_None option.distinct(1))

lemma set_drop_card [simp]: "set (drop_card i xs) = set xs - {i}"
  by (auto simp: drop_card_def)

lemma drop_card_absent [simp]: "i \<notin> set xs \<Longrightarrow> drop_card i xs = xs"
  by (auto simp: drop_card_def intro: filter_True)

text \<open>What \<open>remove_card\<close> does before the note about a library position.\<close>

definition unlisted :: "ObjectId \<Rightarrow> ('t, 'r) Board \<Rightarrow> ('t, 'r) Board \<Rightarrow> bool" where
  "unlisted i b b' \<longleftrightarrow>
     board_objects b' = board_objects b \<and> status b' = status b \<and> halted b' = halted b \<and>
     (\<forall>j ob. in_its_zone b' j ob \<longrightarrow> in_its_zone b j ob) \<and>
     \<not> in_its_zone b' i (object_at b i)"

lemma remove_card_result:
  assumes "ob = object_at b i"
  shows "\<exists>b1. unlisted i b b1 \<and>
    remove_card R (obj_owner ob) i (obj_zone ob) b =
      (in_its_zone b i ob,
       if obj_zone ob = Library \<and> in_its_zone b i ob
       then note_removal R (obj_owner ob) (the (position_of i (libraries b (obj_owner ob)))) b1 else b1)"
proof (cases "obj_zone ob")
  case Library
  then show ?thesis
    by (intro exI[of _ "b\<lparr>libraries := (libraries b)(obj_owner ob := drop_card i (libraries b (obj_owner ob)))\<rparr>"])
      (auto simp: assms unlisted_def remove_card_def in_its_zone_def Let_def dest: position_of_member
        split: Zone.splits option.splits)
next
  case Stack
  then show ?thesis
    by (intro exI[of _ "b\<lparr>stack := filter (\<lambda>item. \<not> is_spell_of i (obj_generation ob) item) (stack b)\<rparr>"])
      (auto simp: assms unlisted_def remove_card_def in_its_zone_def Let_def split: Zone.splits)
qed (auto simp: assms unlisted_def remove_card_def in_its_zone_def Let_def split: Zone.splits if_splits)

lemma remove_card_absent:
  assumes "ob = object_at b i" "\<not> in_its_zone b i ob"
  shows "remove_card R (obj_owner ob) i (obj_zone ob) b = (False, b)"
proof -
  have "filter (\<lambda>item. \<not> is_spell_of i (obj_generation ob) item) (stack b) = stack b"
    if "obj_zone ob = Stack"
    using assms that by (auto simp: in_its_zone_def intro: filter_True)
  then show ?thesis
    using assms by (cases b) (auto simp: remove_card_def in_its_zone_def Let_def split: Zone.splits option.splits
        dest: position_of_member)
qed

lemma unlisted_calm:
  assumes "unlisted i b b'"
  shows "calm R b b'" "live_at b i = Some (object_at b i) \<Longrightarrow> i \<notin> lingering R b'"
  using assms
  by (auto simp: unlisted_def calm_def on_battlefield_def attachments_of_def lingering_def unlost_def
      empty_draws_def live_at_def)

lemma cease_to_exist_result:
  assumes "lawful R" "live_at b i = Some ob" "obj_zone ob \<noteq> Battlefield" "is_token_object R ob"
  shows "moved R b (cease_to_exist R i b) \<and>
    (if in_its_zone b i ob then fst (cease_to_exist R i b) else cease_to_exist R i b = (False, b))"
proof -
  have ob: "ob = object_at b i"
    using assms(2) by (auto simp: live_at_def arena_try_get_def object_at_def split: if_splits)
  obtain b1 b2 where b1: "unlisted i b b1" and b2: "calm R b1 b2"
    and removed: "remove_card R (obj_owner ob) i (obj_zone ob) b = (in_its_zone b i ob, b2)"
  proof -
    obtain b1 where b1: "unlisted i b b1"
      and "remove_card R (obj_owner ob) i (obj_zone ob) b = (in_its_zone b i ob,
        if obj_zone ob = Library \<and> in_its_zone b i ob
        then note_removal R (obj_owner ob) (the (position_of i (libraries b (obj_owner ob)))) b1 else b1)"
      using remove_card_result[OF ob, of R] by blast
    moreover have "calm R b1 (note_removal R p n b1)" for p n
      using assms(1) by (simp add: lawful_def)
    ultimately show thesis
      using that[of b1] by (cases "obj_zone ob = Library \<and> in_its_zone b i ob") auto
  qed
  note steps = calm_trans[OF unlisted_calm(1)[OF b1] b2]
  have forget: "calm R b2 (forget_ceased R i b b2)" using assms(1) by (simp add: lawful_def)
  have "moved R b (True, forget_ceased R i b b2)" if "in_its_zone b i ob"
  proof -
    let ?b = "forget_ceased R i b b2"
    have c: "calm R b ?b" "calm R b1 ?b"
      using steps forget b2 by (auto intro: calm_trans)
    have "rank R ?b < rank R b" if "halted ?b = None"
    proof -
      have "i \<in> lingering R b" using assms \<open>in_its_zone b i ob\<close> by (auto simp: lingering_def)
      moreover have "i \<notin> lingering R ?b"
        using c(2) that unlisted_calm(2)[OF b1, of R] assms(2,3) ob b1
        by (auto simp: calm_def on_battlefield_def unlisted_def live_at_def)
      ultimately show ?thesis using rank_calm(2)[OF c(1) that] by blast
    qed
    then show ?thesis using c(1) by (auto simp: moved_def)
  qed
  then show ?thesis
    using remove_card_absent[OF ob, of R] removed by (auto simp: cease_to_exist_def ob split: if_splits)
qed

lemma cease_to_exist_calm:
  assumes "lawful R"
  shows "calm R b (snd (cease_to_exist R i b))"
proof -
  obtain b1 where b1: "unlisted i b b1" "remove_card R (obj_owner (object_at b i)) i (obj_zone (object_at b i)) b =
      (in_its_zone b i (object_at b i),
       if obj_zone (object_at b i) = Library \<and> in_its_zone b i (object_at b i)
       then note_removal R (obj_owner (object_at b i)) (the (position_of i (libraries b (obj_owner (object_at b i))))) b1
       else b1)"
    using remove_card_result[where b = b and i = i and R = R, OF refl] by blast
  have laws: "calm R c (note_removal R p n c)" "calm R c (forget_ceased R i b c)" for p n c
    using assms by (auto simp: lawful_def)
  note one = unlisted_calm(1)[OF b1(1), of R]
  note two = calm_trans[OF one laws(1)]
  show ?thesis
    using b1(2) one two calm_trans[OF one laws(2)] calm_trans[OF two laws(2)]
    by (simp add: cease_to_exist_def)
qed

lemma cease_to_exist_absent:
  "fst (cease_to_exist R i b) = in_its_zone b i (object_at b i)"
  "\<not> in_its_zone b i (object_at b i) \<Longrightarrow> cease_to_exist R i b = (False, b)"
  using remove_card_result[where b = b and i = i and R = R, OF refl]
    remove_card_absent[where b = b and i = i and R = R, OF refl]
  by (auto simp: cease_to_exist_def)

lemma cease_next_eq:
  "cease_next R i (c, b) = (c \<or> fst (cease_to_exist R i b), snd (cease_to_exist R i b))"
  by (simp add: cease_next_def split: prod.split)

lemma ceasing_continues:
  assumes "lawful R"
  shows "\<exists>b'. fold (cease_next R) ids (True, b) = (True, b') \<and> calm R b b'"
proof (induction ids arbitrary: b)
  case (Cons i ids)
  obtain removed b1 where b1: "cease_to_exist R i b = (removed, b1)" by (cases "cease_to_exist R i b")
  then have "calm R b b1" using cease_to_exist_calm[OF assms, of b i] by simp
  moreover obtain b2 where "fold (cease_next R) ids (True, b1) = (True, b2)" "calm R b1 b2"
    using Cons.IH by blast
  ultimately show ?case using b1 by (auto simp: cease_next_eq intro: calm_trans)
qed auto

lemma cease_fold_quiet:
  "fold (cease_next R) ids (c, b) = (False, b') \<Longrightarrow>
   \<not> c \<and> b' = b \<and> (\<forall>i \<in> set ids. \<not> in_its_zone b i (object_at b i))"
proof (induction ids arbitrary: c b)
  case (Cons i ids)
  show ?case
    using Cons.prems Cons.IH[of "c \<or> fst (cease_to_exist R i b)" "snd (cease_to_exist R i b)"]
      cease_to_exist_absent[where R = R and i = i and b = b]
    by (auto simp: cease_next_eq)
qed simp

lemma cease_fold_moved:
  assumes "lawful R"
    and "\<And>i. i \<in> set ids \<Longrightarrow> \<exists>ob. live_at b i = Some ob \<and> obj_zone ob \<noteq> Battlefield \<and> is_token_object R ob"
  shows "moved R b (fold (cease_next R) ids (False, b))"
  using assms(2)
proof (induction ids)
  case (Cons i ids)
  obtain ob where ob: "live_at b i = Some ob" "obj_zone ob \<noteq> Battlefield" "is_token_object R ob"
    using Cons.prems by auto
  show ?case
  proof (cases "cease_to_exist R i b")
    case (Pair removed b1)
    obtain b2 where b2: "fold (cease_next R) ids (True, b1) = (True, b2)" "calm R b1 b2"
      using ceasing_continues[OF assms(1)] by blast
    then have "moved R b1 (False, b2)" by (simp add: moved_def)
    then have "removed \<Longrightarrow> moved R b (True, b2)"
      using cease_to_exist_result[OF assms(1) ob] moved_trans[of R b True b1 False b2] Pair by simp
    then show ?thesis
      using cease_to_exist_result[OF assms(1) ob] Cons b2(1) Pair
      by (auto simp: cease_next_eq split: if_splits)
  qed
qed simp

interpretation ceasing: sba_stage R "cease_tokens R"
    "\<lambda>b. \<forall>(i, ob) \<in> set (rows b). obj_zone ob \<noteq> Battlefield \<longrightarrow>
       \<not> (is_token_object R ob \<and> in_its_zone b i (object_at b i))"
  for R :: "('t, 'a, 'e, 'r) Rules"
proof unfold_locales
  fix b b' :: "('t, 'r) Board"
  show "b' = b \<and> (\<forall>(i, ob) \<in> set (rows b). obj_zone ob \<noteq> Battlefield \<longrightarrow>
       \<not> (is_token_object R ob \<and> in_its_zone b i (object_at b i)))" if "cease_tokens R b = (False, b')"
    using cease_fold_quiet[OF that[unfolded cease_tokens_def]] by auto
  assume "lawful R" "arena_room (board_objects b)"
  then show "moved R b (cease_tokens R b)"
    unfolding cease_tokens_def by (intro cease_fold_moved) (auto simp: rows_live)
qed

section \<open>Deaths\<close>

lemma dying_from_step:
  assumes "dying_from R b ((i, ob) # rws) = Inr ids"
  obtains rest where "dying_from R b rws = Inr rest"
    "ids = (if obj_zone ob = Battlefield \<and> (zero_loyalty R b i \<or> lethal R b i ob) then i # rest else rest)"
proof (cases "obj_zone ob = Battlefield")
  case False
  then show thesis using assms that[of ids] by simp
next
  case True
  note battlefield = this
  show thesis
  proof (cases "zero_loyalty R b i \<or> lethal R b i ob")
    case True
    then have "and_then (dying_from R b rws) (\<lambda>ids. Inr (i # ids)) = Inr ids"
      using assms battlefield by (simp add: lethal_def split: if_split_asm)
    then show thesis using that True battlefield by (cases "dying_from R b rws") auto
  next
    case False
    then have "dying_from R b rws = Inr ids"
      using assms battlefield by (simp split: if_split_asm)
    then show thesis using that False by simp
  qed
qed

lemma dying_from_rows:
  "dying_from R b rws = Inr ids \<Longrightarrow>
   set ids = {i. \<exists>ob. (i, ob) \<in> set rws \<and> obj_zone ob = Battlefield \<and> (zero_loyalty R b i \<or> lethal R b i ob)}"
proof (induction rws arbitrary: ids)
  case (Cons row rws)
  obtain i ob where row: "row = (i, ob)" by (cases row)
  obtain rest where rest: "dying_from R b rws = Inr rest"
    "ids = (if obj_zone ob = Battlefield \<and> (zero_loyalty R b i \<or> lethal R b i ob) then i # rest else rest)"
    using dying_from_step[OF Cons.prems[unfolded row]] .
  show ?case using Cons.IH[OF rest(1)] rest(2) row by auto
qed simp

lemma die_quiet: "die R waiting dying b = (False, b') \<Longrightarrow> b' = b \<and> dying = []"
  by (auto simp: die_def split: if_splits)

lemma die_moved:
  assumes "lawful R" "arena_room (board_objects b)" "dying_from R b (rows b) = Inr dying"
  shows "moved R b (die R waiting dying b)"
proof (cases dying)
  case (Cons i ids)
  let ?b1 = "before_protected_departures R dying waiting b"
  let ?b2 = "commit_sba_death_batch_v1 R dying ?b1"
  have "calm R b ?b1" "calm R ?b1 ?b2"
    and "halted ?b2 \<noteq> None \<or> set dying \<inter> on_battlefield ?b2 = {}"
    using assms(1) by (simp_all add: lawful_def)
  then have c: "calm R b ?b2" and gone: "halted ?b2 \<noteq> None \<or> i \<notin> on_battlefield ?b2"
    using calm_trans Cons by (blast, auto)
  have "i \<in> set dying" by (simp add: Cons)
  then have "i \<in> on_battlefield b"
    unfolding dying_from_rows[OF assms(3)] using assms(2) by (auto simp: rows_live on_battlefield_def)
  then have "halted ?b2 \<noteq> None \<or> rank R ?b2 < rank R b"
    using gone calm_parts(2)[OF c] by auto
  then show ?thesis using c Cons by (auto simp: die_def moved_def)
qed (simp add: die_def)

section \<open>Sweeps\<close>

lemma halt_result:
  "halt_on_invalid_battlefield_pt R b = (stop, b') \<Longrightarrow>
   if stop then halted b' \<noteq> None else b' = b \<and> halted b = None"
  by (auto simp: halt_on_invalid_battlefield_pt_def split: if_splits option.splits)

lemma stage_declines:
  "stage R waiting g = (False, h) \<Longrightarrow> h = g \<and> groups R (board g) = [] \<and> pending_legend_rule_v1 g = None"
  by (auto simp: stage_def split: if_splits)

lemma also_do_quiet: "also_do (c, b) f = (False, b') \<Longrightarrow> \<not> c \<and> f b = (False, b')"
  by (auto simp: also_do_def split: prod.splits)

text \<open>A sweep that runs to its end, taken apart.\<close>

lemma sweep_parts:
  assumes "sweep R waiting g = (Swept changed, h)"
  obtains consumed b1 dying b2 where
    "halted (board g) = None"
    "consume_protected_empty_draws (cannot_lose R (board g)) (board g) = (consumed, b1)"
    "groups R b1 = []" "pending_legend_rule_v1 g = None"
    "dying_from R b1 (rows b1) = Inr dying"
    "sweep_after_deaths R waiting (cannot_lose R (board g)) (also_do (consumed, b1) (die R waiting dying)) = (changed, b2)"
    "h = g\<lparr>board := b2\<rparr>"
  using assms halt_result[of R "board g"]
  by (auto simp: sweep_def Let_def split: prod.splits bool.splits sum.splits dest!: stage_declines)

lemma sweep_after_deaths_quiet:
  assumes "sweep_after_deaths R waiting protected (c, b) = (False, b')"
  shows "\<not> c \<and> b' = b \<and>
    (\<forall>(i, ob) \<in> set (rows b). (grants_enabled R \<longrightarrow> \<not> illegally_attached R b i ob) \<and>
       \<not> invalid_aura R b i ob \<and> \<not> obsolete_role R b i ob \<and> \<not> finished_saga R waiting b i ob \<and>
       (obj_zone ob \<noteq> Battlefield \<longrightarrow> \<not> (is_token_object R ob \<and> in_its_zone b i (object_at b i)))) \<and>
    (\<forall>p \<in> {P0, P1}. keeps_playing protected (status b p) p)"
proof -
  obtain b1 b2 b3 b4 b5 c1 c2 c3 c4 c5 where
    "also_do (c, b) (detach_illegal_nonauras R) = (c1, b1)"
    "also_do (c1, b1) (bury_all R (invalid_aura R)) = (c2, b2)"
    "also_do (c2, b2) (bury_all R (obsolete_role R)) = (c3, b3)"
    "also_do (c3, b3) (bury_all R (finished_saga R waiting)) = (c4, b4)"
    "also_do (c4, b4) (lose protected) = (c5, b5)"
    "also_do (c5, b5) (cease_tokens R) = (False, b')"
    using assms unfolding sweep_after_deaths_def by (simp) (metis surj_pair)
  note steps = this
  have "\<not> c5 \<and> b' = b5" "\<forall>(i, ob) \<in> set (rows b5). obj_zone ob \<noteq> Battlefield \<longrightarrow>
      \<not> (is_token_object R ob \<and> in_its_zone b5 i (object_at b5 i))"
    using ceasing.also_quiet[OF steps(6)] by blast+
  moreover from this have "\<not> c4 \<and> b5 = b4" "\<forall>p \<in> {P0, P1}. keeps_playing protected (status b4 p) p"
    using losing.also_quiet[of c4 b4 protected b5] steps(5) by simp_all
  moreover from this have "\<not> c3 \<and> b4 = b3" "\<forall>(i, ob) \<in> set (rows b3). \<not> finished_saga R waiting b3 i ob"
    using sagas.also_quiet[of c3 b3 R waiting b4] steps(4) by simp_all
  moreover from this have "\<not> c2 \<and> b3 = b2" "\<forall>(i, ob) \<in> set (rows b2). \<not> obsolete_role R b2 i ob"
    using roles.also_quiet[of c2 b2 R b3] steps(3) by simp_all
  moreover from this have "\<not> c1 \<and> b2 = b1" "\<forall>(i, ob) \<in> set (rows b1). \<not> invalid_aura R b1 i ob"
    using auras.also_quiet[of c1 b1 R b2] steps(2) by simp_all
  moreover from this have "\<not> c \<and> b1 = b"
      "grants_enabled R \<longrightarrow> (\<forall>(i, ob) \<in> set (rows b). \<not> illegally_attached R b i ob)"
    using detaching.also_quiet[of c b R b1] steps(1) by simp_all
  ultimately show ?thesis by fastforce
qed

lemma sweep_quiet:
  assumes "sweep R waiting g = (Swept False, h)"
  shows "h = g \<and> settled R waiting (board g)"
proof (rule sweep_parts[OF assms])
  fix consumed b1 dying b2
  assume consumed: "consume_protected_empty_draws (cannot_lose R (board g)) (board g) = (consumed, b1)"
    and dying: "dying_from R b1 (rows b1) = Inr dying"
    and rest: "sweep_after_deaths R waiting (cannot_lose R (board g)) (also_do (consumed, b1) (die R waiting dying)) = (False, b2)"
    and h: "h = g\<lparr>board := b2\<rparr>" and groups: "groups R b1 = []"
  obtain c a where ca: "also_do (consumed, b1) (die R waiting dying) = (c, a)" by fastforce
  note quiet = sweep_after_deaths_quiet[OF rest[unfolded ca]]
  then have "die R waiting dying b1 = (False, a)" "\<not> consumed"
    using ca also_do_quiet[of consumed b1 "die R waiting dying" a] by auto
  then have same: "a = board g" "b1 = board g" "dying = []"
    using die_quiet consume_quiet[of "cannot_lose R (board g)" "board g" b1] consumed by fastforce+
  have draws: "\<forall>p \<in> {P0, P1}. \<not> (cannot_lose R (board g) p \<and> drew_from_empty (status (board g) p))"
    using consume_quiet[of "cannot_lose R (board g)" "board g" b1] consumed \<open>\<not> consumed\<close> by auto
  have alive: "\<not> zero_loyalty R (board g) i \<and> \<not> lethal R (board g) i ob"
    if "(i, ob) \<in> set (rows (board g))" "obj_zone ob = Battlefield" for i ob
    using dying_from_rows[OF dying] that same by auto
  have "settled R waiting (board g)"
    unfolding settled_def permanent_settled_def
    using quiet draws alive groups same by (auto simp: finished_saga_def)
  then show ?thesis using h quiet same by simp
qed

lemma sweep_moved:
  assumes "lawful R" "arena_room (board_objects (board g))" "sweep R waiting g = (Swept changed, h)"
  shows "moved R (board g) (changed, board h)"
proof (rule sweep_parts[OF assms(3)])
  fix consumed b1 dying b2
  assume consumed: "consume_protected_empty_draws (cannot_lose R (board g)) (board g) = (consumed, b1)"
    and dying: "dying_from R b1 (rows b1) = Inr dying"
    and rest: "sweep_after_deaths R waiting (cannot_lose R (board g)) (also_do (consumed, b1) (die R waiting dying)) = (changed, b2)"
    and h: "h = g\<lparr>board := b2\<rparr>"
  note room = assms(2)
  have m: "moved R (board g) (consumed, b1)"
    using consume_moved[of R "board g" "cannot_lose R (board g)"] consumed by simp
  then have "arena_room (board_objects b1)" using room by (auto simp: moved_def calm_def)
  then have "moved R b1 (die R waiting dying b1)" using die_moved assms(1) dying by blast
  then have "moved R (board g) (also_do (consumed, b1) (die R waiting dying))"
    using moved_trans[OF m] by (auto simp: also_do_def split: prod.split)
  then have "moved R (board g) (sweep_after_deaths R waiting (cannot_lose R (board g)) (also_do (consumed, b1) (die R waiting dying)))"
    unfolding sweep_after_deaths_def using assms(1) room
    by (simp) (intro ceasing.also_moved losing.also_moved sagas.also_moved roles.also_moved auras.also_moved
        detaching.also_moved; assumption)
  then show ?thesis using rest h by simp
qed

section \<open>The loop\<close>

lemma sba_loop_settles:
  assumes "sba_loop R waiting any_changed g = Some result"
  shows "halted (board (snd result)) = None \<longrightarrow> pending_legend_rule_v1 (snd result) = None \<longrightarrow>
    settled R waiting (board (snd result)) \<and> (\<not> fst result \<longrightarrow> snd result = g \<and> \<not> any_changed)"
proof (rule sba_loop.raw_induct[OF _ assms], goal_cases)
  case (1 loop R waiting any_changed g result)
  obtain ended h where swept: "sweep R waiting g = (ended, h)" by (cases "sweep R waiting g")
  show ?case
  proof (cases ended)
    case Refused
    then have "result = (any_changed, h)" using 1(2) swept by simp
    moreover have "halted (board h) \<noteq> None"
      using swept Refused halt_result[of R "board g"]
      by (auto simp: sweep_def Let_def split: prod.splits bool.splits sum.splits)
    ultimately show ?thesis by auto
  next
    case Staged
    then have "result = (True, h)" using 1(2) swept by simp
    moreover have "pending_legend_rule_v1 h \<noteq> None"
      using swept Staged
      by (auto simp: sweep_def Let_def stage_def split: prod.splits bool.splits sum.splits if_splits)
    ultimately show ?thesis by auto
  next
    case (Swept changed)
    then show ?thesis
      using 1(1)[of R waiting True h result] 1(2) swept sweep_quiet[of R waiting g h]
      by (cases changed) auto
  qed
qed

lemma sba_loop_ends:
  assumes "lawful R" "arena_room (board_objects (board g))"
  shows "\<exists>result. sba_loop R waiting any_changed g = Some result"
  using assms(2)
proof (induction "rank R (board g)" arbitrary: g any_changed rule: less_induct)
  case less
  obtain ended h where swept: "sweep R waiting g = (ended, h)" by (cases "sweep R waiting g")
  show ?case
  proof (cases "ended = Swept True")
    case True
    then have m: "moved R (board g) (True, board h)"
      using sweep_moved[OF assms(1) less.prems] swept by simp
    then have room: "arena_room (board_objects (board h))"
      using less.prems by (auto simp: moved_def calm_def)
    have "\<exists>result. sba_loop R waiting True h = Some result"
    proof (cases "halted (board h) = None")
      case True
      then show ?thesis using less.hyps[OF _ room] m by (auto simp: moved_def)
    next
      case False
      then show ?thesis
        by (subst sba_loop.simps) (auto simp: sweep_def halt_on_invalid_battlefield_pt_def)
    qed
    then show ?thesis using True swept by (subst sba_loop.simps) simp
  next
    case False
    then show ?thesis using swept by (cases ended; subst sba_loop.simps) auto
  qed
qed

section \<open>A concrete game\<close>

text \<open>Departures without replacement effects: the card goes from the battlefield to the top of
  its owner's graveyard in a new incarnation.\<close>

definition bury :: "ObjectId \<Rightarrow> ('t, 'r) Board \<Rightarrow> ('t, 'r) Board" where
  "bury i b =
     (case live_at b i of None \<Rightarrow> b
      | Some ob \<Rightarrow>
          if obj_zone ob \<noteq> Battlefield then b
          else (modify i (\<lambda>ob. ob\<lparr>obj_zone := Graveyard, obj_generation := obj_generation ob + 1,
                   attached_to := None, obj_attachments := []\<rparr>) b)
            \<lparr>battlefields := (battlefields b)(obj_controller ob := drop_card i (battlefields b (obj_controller ob))),
             graveyards := (graveyards b)(obj_owner ob := graveyards b (obj_owner ob) @ [i])\<rparr>)"

lemma live_lists [simp]: "live_at (b\<lparr>battlefields := f, graveyards := h\<rparr>) i = live_at b i"
  by (simp add: live_at_def)

lemma live_bury:
  "j \<noteq> i \<Longrightarrow> live_at (bury i b) j = live_at b j"
  "live_at b i = Some ob \<Longrightarrow> obj_zone ob = Battlefield \<Longrightarrow> \<exists>ob'. live_at (bury i b) i = Some ob' \<and> obj_zone ob' = Graveyard"
  by (auto simp: bury_def live_modify split: option.split)

lemma bury_absent: "i \<notin> on_battlefield b \<Longrightarrow> bury i b = b"
  by (auto simp: bury_def on_battlefield_def split: option.split)

lemma bury_battlefield: "on_battlefield (bury i b) = on_battlefield b - {i}"
proof (cases "i \<in> on_battlefield b")
  case True
  have "j \<in> on_battlefield (bury i b) \<longleftrightarrow> j \<in> on_battlefield b - {i}" for j
    using True live_bury(1)[of j i b] live_bury(2)[of b i] by (cases "j = i") (auto simp: on_battlefield_def)
  then show ?thesis by blast
qed (auto simp: bury_absent)

lemma in_its_zone_bury: "j \<noteq> i \<Longrightarrow> in_its_zone (bury i b) j ob \<Longrightarrow> in_its_zone b j ob"
  by (cases "obj_zone ob") (auto simp: in_its_zone_def bury_def modify_def split: option.splits if_splits)

lemma bury_calm: "calm R b (bury i b)"
proof (cases "i \<in> on_battlefield b")
  case True
  have "j \<in> attachments_of b" if "j \<in> attachments_of (bury i b)" for j
    using that True live_bury(1)[of j i b] live_bury(2)[of b i]
    by (cases "j = i") (auto simp: attachments_of_def on_battlefield_def)
  moreover have "j \<in> lingering R b" if "j \<in> lingering R (bury i b)" "j \<noteq> i" for j
    using that live_bury(1)[of j i b] in_its_zone_bury[of j i b] by (auto simp: lingering_def)
  moreover have "status (bury i b) = status b" "halted (bury i b) = halted b"
    "arena_room (board_objects (bury i b)) = arena_room (board_objects b)"
    by (auto simp: bury_def modify_def arena_room_def split: option.split)
  ultimately show ?thesis
    using True by (auto simp: calm_def unlost_def empty_draws_def bury_battlefield)
qed (simp add: bury_absent)

definition demo_cards :: "nat \<Rightarrow> (unit, unit) CardDefinition" where
  "demo_cards n =
     \<lparr>def_is_token = (n = 0), def_attachment = (if n = 1 then Some () else None), def_is_aura = False,
      def_equipment = False, def_bestow = False, def_subtypes = [], def_is_role = False, def_saga = None\<rparr>"

definition demo_rules :: "(unit, unit, unit, unit) Rules" where
  "demo_rules =
     \<lparr>card_defs = demo_cards, has_legendary_definitions = True,
      is_legendary = (\<lambda>b i. obj_card_def (object_at b i) = 2),
      effective_name = (\<lambda>b i. if obj_card_def (object_at b i) = 2 then ''Krenko, Mob Boss'' else ''Bear''),
      is_creature = (\<lambda>b i. obj_card_def (object_at b i) \<noteq> 1), is_planeswalker = (\<lambda>_ _. False),
      loyalty = (\<lambda>_ _. None), effective_toughness = (\<lambda>_ _. 3), indestructible = (\<lambda>_ _. False),
      host_matches = (\<lambda>_ _ _. True), final_chapter_is_pending = (\<lambda>_ _ _ _ _. False),
      cannot_lose = (\<lambda>_ _. False), pt_representable = (\<lambda>_ _. True), grants_enabled = False,
      attachment_forbidden = (\<lambda>_ _ _. False), protects_from_colors_of = (\<lambda>_ _ _. False),
      aura_host_legal = (\<lambda>_ _ _ _. None), before_protected_departures = (\<lambda>_ _ b. b),
      propose_and_commit_batch = fold bury, commit_sba_death_batch_v1 = fold bury,
      commit_to_graveyard = bury, note_removal = (\<lambda>_ _ b. b), forget_ceased = (\<lambda>_ _ b. b),
      capture_triggers = (\<lambda>b. ([], b)), late_captures = (\<lambda>b. ([], b)),
      targets_can_complete = (\<lambda>_ _. True), discard_trigger = (\<lambda>_ b. b), trigger_controller = (\<lambda>_. P0)\<rparr>"

text \<open>A damaged token with an Aura on it, a player without life, and some legends of one name.\<close>

definition demo_object :: "nat \<Rightarrow> u32 \<Rightarrow> ObjectId list \<Rightarrow> ObjectLinkV4 option \<Rightarrow> GameObject" where
  "demo_object c dmg atts host =
     \<lparr>obj_card_def = c, obj_owner = P0, obj_controller = P0, obj_zone = Battlefield, obj_generation = 0,
      obj_damage = dmg, obj_lore = 0, obj_attachments = atts, face_index = 0, deathtouch_damage = False,
      attached_to = host, v4_is_token = False, layer_timestamp = None, effective_subtype_ids = []\<rparr>"

definition demo_game :: "nat \<Rightarrow> (unit, unit) Game" where
  "demo_game legends =
     \<lparr>board =
        \<lparr>board_objects = \<lparr>items =
           [demo_object 0 3 [ObjectId 1] None,
            demo_object 1 0 [] (Some \<lparr>link_object = ObjectId 0, link_generation = 0\<rparr>)] @
            replicate legends (demo_object 2 0 [] None)\<rparr>,
         active_player = P0,
         status = (\<lambda>p. \<lparr>life = (if p = P0 then 20 else 0), drew_from_empty = False, poison_counters = 0, has_lost = False\<rparr>),
         libraries = (\<lambda>_. []), hands = (\<lambda>_. []),
         battlefields = (\<lambda>p. if p = P0 then map (\<lambda>n. ObjectId (word_of_nat n)) [0..<legends + 2] else []),
         graveyards = (\<lambda>_. []), exile = [], command = [], stack = [], halted = None, pending_triggers = [],
         other = ()\<rparr>,
      pending_legend_rule_v1 = None\<rparr>"

lemma demo_lawful: "lawful demo_rules"
proof -
  have "calm R b (fold bury ids b)" for R :: "(unit, unit, unit, unit) Rules" and b ids
    by (rule calm_fold[of R bury]) (rule bury_calm)
  moreover have "on_battlefield (fold bury ids b) = on_battlefield b - set ids" for ids and b :: "(unit, unit) Board"
    by (induction ids arbitrary: b) (auto simp: bury_battlefield)
  ultimately show ?thesis by (auto simp: lawful_def demo_rules_def bury_calm bury_battlefield)
qed

text \<open>The token dies, its Aura follows, the token ceases to exist and P1 loses: two sweeps.\<close>

lemma demo_sweeps:
  "case sba_fixed_point_with_protected_triggers demo_rules [] (demo_game 1) of
     None \<Rightarrow> False
   | Some (changed, h) \<Rightarrow>
       changed \<and> halted (board h) = None \<and> pending_legend_rule_v1 h = None \<and>
       graveyards (board h) P0 = [ObjectId 1] \<and> battlefields (board h) P0 = [ObjectId 2] \<and>
       has_lost (status (board h) P1) \<and> \<not> has_lost (status (board h) P0)"
  by code_simp

lemma demo_stages: "stage demo_rules [] (demo_game 3) = (True, snd (stage demo_rules [] (demo_game 3)))"
proof -
  have "fst (stage demo_rules [] (demo_game 3))" by code_simp
  then show ?thesis by (simp add: prod_eq_iff)
qed

section \<open>Properties\<close>

text \<open>C5. Whenever the repeated sweep of state-based actions returns without having halted the
  game and without a legend choice pending, the board is settled: no creature is left that should
  die, no planeswalker without loyalty, no illegal attachment, superseded role or finished saga, no
  pair of legendary permanents of one name under one player, no token outside the battlefield, and
  every player who should have lost has lost. If the sweep reports no change, the game is the one
  it was given.\<close>

theorem state_based_actions_settle:
  assumes "sba_fixed_point_with_protected_triggers R waiting g = Some (changed, h)"
    and "halted (board h) = None" and "pending_legend_rule_v1 h = None"
  shows "settled R waiting (board h) \<and> (\<not> changed \<longrightarrow> h = g)"
  using sba_loop_settles[OF assms(1)[unfolded sba_fixed_point_with_protected_triggers_def]] assms(2,3)
  by simp

theorem state_based_actions_settle_witness:
  "\<exists>h. sba_fixed_point_with_protected_triggers demo_rules [] (demo_game 1) = Some (True, h) \<and>
     settled demo_rules [] (board h) \<and> graveyards (board h) P0 = [ObjectId 1]"
  using demo_sweeps state_based_actions_settle[of demo_rules "[]" "demo_game 1"]
  by (auto split: option.splits)



lemma distinct_groups: "distinct (map reading (groups R b))"
proof -
  have one: "distinct (map reading (groups_for R b p))" for p
  proof (rule distinct_map[THEN iffD2], intro conjI inj_onI)
    have "distinct (map group_name (groups_for R b p))"
      using groups_for_names strict_sorted_iff by blast
    then show "distinct (groups_for R b p)" by (simp add: distinct_map)
    fix x y assume "x \<in> set (groups_for R b p)" "y \<in> set (groups_for R b p)" "reading x = reading y"
    then show "x = y" by (auto simp: groups_for_iff reading_def candidates_def)
  qed
  have "set (map reading (groups_for R b (active_player b))) \<inter>
      set (map reading (groups_for R b (opponent (active_player b)))) = {}"
    using opponent_differs[of "active_player b"] by (auto simp: groups_for_iff reading_def)
  then show ?thesis using one by (simp add: groups_def)
qed

lemma drain_pass_after:
  assumes "one_each (groups R (board g)) ks" "groups R (board g) \<noteq> []"
  shows "drain_or_decide_legend R (pass_after R waiting g ks) =
    (if length ks < length (groups R (board g))
     then Some (Inr (Some (ChooseLegendPermanent (group_controller (groups R (board g) ! length ks))
                (candidates (groups R (board g) ! length ks)))), pass_after R waiting g ks)
     else finish_pass R waiting (prepare R (board g) waiting)
            (map link_object (departing (prepare R (board g) waiting) (map (link_of (board g)) ks)))
            (pass_after R waiting g ks))"
  using validate_pass_after[OF assms]
  by (simp add: drain_or_decide_legend_def pass_after_def next_question_def prepare_def Let_def)



end
