(* ===== verification/Event_History.thy ===== *)
theory Event_History
  imports Prelude
begin

text \<open>
  \<^verbatim>\<open>mtg-kernel/src/event_history_v1.rs\<close>: the permanent record of committed events. Beside the
  vector of events it keeps three accelerations: the number of events of each kind (so that a scan
  for kinds that never occurred is skipped), hash states after some prefixes (so that a digest
  hashes only what is new), and one memo about a prefix. The counting methods keep them; any other
  mutable access marks the counts stale and drops the rest.

  Events, kinds, hash states and memos are type parameters; \<open>kind_v1\<close>, the canonical bytes of an
  event and the SHA-256 functions are arguments. The locks of the source guard single reads and
  writes and are not modelled. Test hooks (\<^verbatim>\<open>guard_tests_v1\<close>, \<^verbatim>\<open>sample_harvest_v1\<close>) and the
  serialization switch \<^verbatim>\<open>omitted_v2\<close> are left out.
\<close>

section \<open>State\<close>

record ('e, 'k, 'h, 'm) EventHistoryV1 =
  events :: "'e list"
  counts :: "'k \<Rightarrow> u32"
  stale :: bool
  chain :: "(nat \<times> 'h) list"
  prefix_slot :: "(nat \<times> 'm) option"

record ('e, 'k, 'h, 'd) HistoryContext =
  kind_v1 :: "'e \<Rightarrow> 'k"
  event_json :: "'e \<Rightarrow> u8 list"
  sha_new :: 'h
  sha_update :: "u8 list \<Rightarrow> 'h \<Rightarrow> 'h"
  sha_finalize :: "'h \<Rightarrow> 'd"

definition CHAIN_V2_PREFIXES :: nat where
  "CHAIN_V2_PREFIXES = 16"

definition CHAIN_V2_STRIDE :: nat where
  "CHAIN_V2_STRIDE = 64"

text \<open>The bytes of \<^verbatim>\<open>b"mtg-kernel/event-history-chain/v2"\<close>.\<close>

definition chain_domain :: "u8 list" where
  "chain_domain = map (\<lambda>c. word_of_nat (of_char c)) ''mtg-kernel/event-history-chain/v2''"

definition history_new :: "('e, 'k, 'h, 'm) EventHistoryV1" where
  "history_new = \<lparr>events = [], counts = (\<lambda>_. 0), stale = False, chain = [], prefix_slot = None\<rparr>"

section \<open>The accelerations\<close>

text \<open>\<^verbatim>\<open>ChainV2::longest\<close>, \<^verbatim>\<open>set\<close>, \<^verbatim>\<open>keep\<close>\<close>

definition longest :: "nat \<Rightarrow> (nat \<times> 'h) list \<Rightarrow> (nat \<times> 'h) option" where
  "longest len ch = find (\<lambda>(covered, _). covered \<le> len) (rev ch)"

definition recent :: "nat \<Rightarrow> bool" where
  "recent covered \<longleftrightarrow> covered mod CHAIN_V2_STRIDE \<noteq> 0"

fun drop_recent :: "nat \<Rightarrow> (nat \<times> 'h) list \<Rightarrow> (nat \<times> 'h) list" where
  "drop_recent excess [] = []"
| "drop_recent excess ((covered, h) # ch) =
     (if excess > 0 \<and> recent covered then drop_recent (excess - 1) ch
      else (covered, h) # drop_recent excess ch)"

definition chain_set :: "(nat \<times> 'h) list \<Rightarrow> (nat \<times> 'h) list \<Rightarrow> (nat \<times> 'h) list" where
  "chain_set added ch =
     (case added of [] \<Rightarrow> ch
      | (shortest, _) # _ \<Rightarrow>
          (let prefixes = filter (\<lambda>(covered, _). covered < shortest) ch @ added;
               excess = length (filter (\<lambda>(covered, _). recent covered) prefixes) - CHAIN_V2_PREFIXES
           in drop_recent excess prefixes))"

definition chain_keep :: "nat \<Rightarrow> (nat \<times> 'h) list \<Rightarrow> (nat \<times> 'h) list" where
  "chain_keep len ch = filter (\<lambda>(covered, _). covered \<le> len) ch"

definition slot_keep :: "nat \<Rightarrow> (nat \<times> 'm) option \<Rightarrow> (nat \<times> 'm) option" where
  "slot_keep len slot =
     (case slot of None \<Rightarrow> None
      | Some (covered, m) \<Rightarrow> if covered > len then None else Some (covered, m))"

definition keep_first :: "nat \<Rightarrow> ('e, 'k, 'h, 'm) EventHistoryV1 \<Rightarrow> ('e, 'k, 'h, 'm) EventHistoryV1" where
  "keep_first len hi = hi\<lparr>chain := chain_keep len (chain hi), prefix_slot := slot_keep len (prefix_slot hi)\<rparr>"

definition forget :: "('e, 'k, 'h, 'm) EventHistoryV1 \<Rightarrow> ('e, 'k, 'h, 'm) EventHistoryV1" where
  "forget hi = hi\<lparr>chain := [], prefix_slot := None\<rparr>"

definition count_up :: "('e, 'k, 'h, 'd) HistoryContext \<Rightarrow> 'e \<Rightarrow> ('k \<Rightarrow> u32) \<Rightarrow> 'k \<Rightarrow> u32" where
  "count_up C e cs = cs(kind_v1 C e := cs (kind_v1 C e) + 1)"

definition count_down :: "('e, 'k, 'h, 'd) HistoryContext \<Rightarrow> 'e \<Rightarrow> ('k \<Rightarrow> u32) \<Rightarrow> 'k \<Rightarrow> u32" where
  "count_down C e cs = cs(kind_v1 C e := cs (kind_v1 C e) - 1)"

definition settle ::
  "('e, 'k, 'h, 'd) HistoryContext \<Rightarrow> ('e, 'k, 'h, 'm) EventHistoryV1 \<Rightarrow> ('e, 'k, 'h, 'm) EventHistoryV1" where
  "settle C hi =
     (if stale hi then hi\<lparr>counts := fold (count_up C) (events hi) (\<lambda>_. 0), stale := False\<rparr> else hi)"

section \<open>Methods\<close>

definition has_any :: "'k list \<Rightarrow> ('e, 'k, 'h, 'm) EventHistoryV1 \<Rightarrow> bool" where
  "has_any kinds hi \<longleftrightarrow> stale hi \<or> (\<exists>k \<in> set kinds. counts hi k \<noteq> 0)"

definition scan_for_v1 :: "'k list \<Rightarrow> ('e, 'k, 'h, 'm) EventHistoryV1 \<Rightarrow> 'e list" where
  "scan_for_v1 kinds hi = (if has_any kinds hi then events hi else [])"

definition history_push ::
  "('e, 'k, 'h, 'd) HistoryContext \<Rightarrow> 'e \<Rightarrow> ('e, 'k, 'h, 'm) EventHistoryV1 \<Rightarrow> ('e, 'k, 'h, 'm) EventHistoryV1" where
  "history_push C e hi =
     (let s = settle C hi in s\<lparr>counts := count_up C e (counts s), events := events s @ [e]\<rparr>)"

text \<open>\<^verbatim>\<open>Vec::insert\<close> and \<^verbatim>\<open>Vec::remove\<close> panic on an index out of range.\<close>

definition history_insert ::
  "('e, 'k, 'h, 'd) HistoryContext \<Rightarrow> nat \<Rightarrow> 'e \<Rightarrow> ('e, 'k, 'h, 'm) EventHistoryV1 \<Rightarrow> ('e, 'k, 'h, 'm) EventHistoryV1 option" where
  "history_insert C index e hi =
     (let s = keep_first index (settle C hi)
      in if index > length (events s) then None
         else Some (s\<lparr>events := take index (events s) @ e # drop index (events s),
                      counts := count_up C e (counts s)\<rparr>))"

definition history_remove ::
  "('e, 'k, 'h, 'd) HistoryContext \<Rightarrow> nat \<Rightarrow> ('e, 'k, 'h, 'm) EventHistoryV1 \<Rightarrow> ('e \<times> ('e, 'k, 'h, 'm) EventHistoryV1) option" where
  "history_remove C index hi =
     (let s = keep_first index (settle C hi)
      in if index \<ge> length (events s) then None
         else (let e = events s ! index
               in Some (e, s\<lparr>events := take index (events s) @ drop (Suc index) (events s),
                            counts := count_down C e (counts s)\<rparr>)))"

definition history_pop ::
  "('e, 'k, 'h, 'd) HistoryContext \<Rightarrow> ('e, 'k, 'h, 'm) EventHistoryV1 \<Rightarrow> 'e option \<times> ('e, 'k, 'h, 'm) EventHistoryV1" where
  "history_pop C hi =
     (let s = settle C hi
      in if events s = [] then (None, s)
         else (let e = last (events s);
                   t = s\<lparr>events := butlast (events s)\<rparr>;
                   u = keep_first (length (events t)) t
               in (Some e, u\<lparr>counts := count_down C e (counts u)\<rparr>)))"

definition history_retain ::
  "('e, 'k, 'h, 'd) HistoryContext \<Rightarrow> ('e \<Rightarrow> bool) \<Rightarrow> ('e, 'k, 'h, 'm) EventHistoryV1 \<Rightarrow> ('e, 'k, 'h, 'm) EventHistoryV1" where
  "history_retain C keep hi =
     (let s = forget (settle C hi)
      in s\<lparr>counts := fold (\<lambda>e cs. if keep e then cs else count_down C e cs) (events s) (counts s),
           events := filter keep (events s)\<rparr>)"

definition history_truncate ::
  "('e, 'k, 'h, 'd) HistoryContext \<Rightarrow> nat \<Rightarrow> ('e, 'k, 'h, 'm) EventHistoryV1 \<Rightarrow> ('e, 'k, 'h, 'm) EventHistoryV1" where
  "history_truncate C len hi =
     (let s = keep_first len (settle C hi)
      in s\<lparr>counts := fold (count_down C) (drop len (events s)) (counts s), events := take len (events s)\<rparr>)"

definition history_clear :: "('e, 'k, 'h, 'm) EventHistoryV1 \<Rightarrow> ('e, 'k, 'h, 'm) EventHistoryV1" where
  "history_clear hi = forget (hi\<lparr>events := [], counts := (\<lambda>_. 0), stale := False\<rparr>)"

definition history_extend ::
  "('e, 'k, 'h, 'd) HistoryContext \<Rightarrow> 'e list \<Rightarrow> ('e, 'k, 'h, 'm) EventHistoryV1 \<Rightarrow> ('e, 'k, 'h, 'm) EventHistoryV1" where
  "history_extend C es hi = fold (history_push C) es hi"

definition history_from ::
  "('e, 'k, 'h, 'd) HistoryContext \<Rightarrow> 'e list \<Rightarrow> ('e, 'k, 'h, 'm) EventHistoryV1" where
  "history_from C es = settle C \<lparr>events = es, counts = (\<lambda>_. 0), stale = True, chain = [], prefix_slot = None\<rparr>"

definition prefix_v1 ::
  "('e, 'k, 'h, 'd) HistoryContext \<Rightarrow> nat \<Rightarrow> ('e, 'k, 'h, 'm) EventHistoryV1 \<Rightarrow> ('e, 'k, 'h, 'm) EventHistoryV1" where
  "prefix_v1 C n hi =
     (let len = min n (length (events hi))
      in (history_from C (take len (events hi)))
           \<lparr>chain := chain_keep len (chain hi), prefix_slot := slot_keep len (prefix_slot hi)\<rparr>)"

definition prefix_memo_v1 :: "('e, 'k, 'h, 'm) EventHistoryV1 \<Rightarrow> (nat \<times> 'm) option" where
  "prefix_memo_v1 hi =
     (case prefix_slot hi of None \<Rightarrow> None
      | Some (covered, m) \<Rightarrow> if covered \<le> length (events hi) then Some (covered, m) else None)"

definition set_prefix_memo_v1 :: "nat \<Rightarrow> 'm \<Rightarrow> ('e, 'k, 'h, 'm) EventHistoryV1 \<Rightarrow> ('e, 'k, 'h, 'm) EventHistoryV1" where
  "set_prefix_memo_v1 covered m hi =
     (if covered \<le> length (events hi) then hi\<lparr>prefix_slot := Some (covered, m)\<rparr> else hi)"

text \<open>\<^verbatim>\<open>DerefMut\<close>, followed by whatever the caller does to the vector.\<close>

definition deref_mut :: "('e, 'k, 'h, 'm) EventHistoryV1 \<Rightarrow> ('e, 'k, 'h, 'm) EventHistoryV1" where
  "deref_mut hi = forget (hi\<lparr>stale := True\<rparr>)"

section \<open>The digest\<close>

definition le_bytes_u64 :: "nat \<Rightarrow> u8 list" where
  "le_bytes_u64 n = rev (be_bytes 8 n)"

definition absorb :: "('e, 'k, 'h, 'd) HistoryContext \<Rightarrow> 'e \<Rightarrow> 'h \<Rightarrow> 'h" where
  "absorb C e h =
     sha_update C (event_json C e) (sha_update C (le_bytes_u64 (length (event_json C e))) h)"

definition chain_start :: "('e, 'k, 'h, 'd) HistoryContext \<Rightarrow> 'h" where
  "chain_start C = sha_update C chain_domain (sha_new C)"

fun digest_loop ::
  "('e, 'k, 'h, 'd) HistoryContext \<Rightarrow> nat \<Rightarrow> nat \<Rightarrow> 'e list \<Rightarrow> 'h \<Rightarrow> (nat \<times> 'h) list \<Rightarrow> 'h \<times> (nat \<times> 'h) list" where
  "digest_loop C covered position [] h added = (h, added)"
| "digest_loop C covered position (e # es) h added =
     digest_loop C covered (Suc position) es (absorb C e h)
       (if position > covered \<and> position mod CHAIN_V2_STRIDE = 0 then added @ [(position, h)] else added)"

definition chain_digest_v2 ::
  "('e, 'k, 'h, 'd) HistoryContext \<Rightarrow> ('e, 'k, 'h, 'm) EventHistoryV1 \<Rightarrow> 'd \<times> ('e, 'k, 'h, 'm) EventHistoryV1" where
  "chain_digest_v2 C hi =
     (case (case longest (length (events hi)) (chain hi) of None \<Rightarrow> (0, chain_start C) | Some ch \<Rightarrow> ch) of
        (covered, h0) \<Rightarrow>
          (case digest_loop C covered covered (drop covered (events hi)) h0 [] of
             (h, added) \<Rightarrow>
               (sha_finalize C h, hi\<lparr>chain := chain_set (added @ [(length (events hi), h)]) (chain hi)\<rparr>)))"

section \<open>Runs\<close>

datatype 'e HistoryOp =
    Push 'e
  | Insert nat 'e
  | Remove nat
  | Pop
  | Retain "'e \<Rightarrow> bool"
  | Truncate nat
  | Clear
  | Extend "'e list"
  | Prefix nat
  | Mutate "'e list \<Rightarrow> 'e list"
  | Remember nat
  | Digest

text \<open>A panic ends the program; here it leaves the history as it was. A caller leaves a memo only
  about the events it derived it from: \<open>derive\<close> is what a validator computes of a prefix.\<close>

datatype HistoryPanic = IndexOutOfRange

fun history_step ::
  "('e, 'k, 'h, 'd) HistoryContext \<Rightarrow> ('e list \<Rightarrow> 'm) \<Rightarrow> 'e HistoryOp \<Rightarrow> ('e, 'k, 'h, 'm) EventHistoryV1
    \<Rightarrow> ('d option, HistoryPanic) result \<times> ('e, 'k, 'h, 'm) EventHistoryV1" where
  "history_step C derive (Push e) hi = (Inr None, history_push C e hi)"
| "history_step C derive (Insert n e) hi =
     (case history_insert C n e hi of None \<Rightarrow> (Inl IndexOutOfRange, hi) | Some t \<Rightarrow> (Inr None, t))"
| "history_step C derive (Remove n) hi =
     (case history_remove C n hi of None \<Rightarrow> (Inl IndexOutOfRange, hi) | Some (_, t) \<Rightarrow> (Inr None, t))"
| "history_step C derive Pop hi = (Inr None, snd (history_pop C hi))"
| "history_step C derive (Retain P) hi = (Inr None, history_retain C P hi)"
| "history_step C derive (Truncate n) hi = (Inr None, history_truncate C n hi)"
| "history_step C derive Clear hi = (Inr None, history_clear hi)"
| "history_step C derive (Extend es) hi = (Inr None, history_extend C es hi)"
| "history_step C derive (Prefix n) hi = (Inr None, prefix_v1 C n hi)"
| "history_step C derive (Mutate f) hi = (Inr None, (deref_mut hi)\<lparr>events := f (events hi)\<rparr>)"
| "history_step C derive (Remember n) hi = (Inr None, set_prefix_memo_v1 n (derive (take n (events hi))) hi)"
| "history_step C derive Digest hi = (case chain_digest_v2 C hi of (d, t) \<Rightarrow> (Inr (Some d), t))"

text \<open>What the same operation does to a plain vector.\<close>

fun vec_step :: "'e HistoryOp \<Rightarrow> 'e list \<Rightarrow> 'e list" where
  "vec_step (Push e) es = es @ [e]"
| "vec_step (Insert n e) es = (if n > length es then es else take n es @ e # drop n es)"
| "vec_step (Remove n) es = (if n \<ge> length es then es else take n es @ drop (Suc n) es)"
| "vec_step Pop es = butlast es"
| "vec_step (Retain P) es = filter P es"
| "vec_step (Truncate n) es = take n es"
| "vec_step Clear es = []"
| "vec_step (Extend xs) es = es @ xs"
| "vec_step (Prefix n) es = take n es"
| "vec_step (Mutate f) es = f es"
| "vec_step (Remember n) es = es"
| "vec_step Digest es = es"

section \<open>The invariant\<close>

definition digest_state :: "('e, 'k, 'h, 'd) HistoryContext \<Rightarrow> 'e list \<Rightarrow> 'h" where
  "digest_state C es = fold (absorb C) es (chain_start C)"

definition kind_count :: "('e, 'k, 'h, 'd) HistoryContext \<Rightarrow> 'k \<Rightarrow> 'e list \<Rightarrow> nat" where
  "kind_count C k es = length (filter (\<lambda>e. kind_v1 C e = k) es)"

definition counts_right :: "('e, 'k, 'h, 'd) HistoryContext \<Rightarrow> 'e list \<Rightarrow> ('k \<Rightarrow> u32) \<Rightarrow> bool" where
  "counts_right C es cs \<longleftrightarrow> (\<forall>k. cs k = word_of_nat (kind_count C k es))"

definition chain_right :: "('e, 'k, 'h, 'd) HistoryContext \<Rightarrow> 'e list \<Rightarrow> (nat \<times> 'h) list \<Rightarrow> bool" where
  "chain_right C es ch \<longleftrightarrow>
     (\<forall>(covered, h) \<in> set ch. covered \<le> length es \<and> h = digest_state C (take covered es)) \<and>
     sorted_wrt (<) (map fst ch) \<and> length (filter (recent \<circ> fst) ch) \<le> CHAIN_V2_PREFIXES"

text \<open>\<open>V es m\<close>: the memo \<open>m\<close> was derived from the events \<open>es\<close>.\<close>

definition memo_right :: "('e list \<Rightarrow> 'm \<Rightarrow> bool) \<Rightarrow> 'e list \<Rightarrow> (nat \<times> 'm) option \<Rightarrow> bool" where
  "memo_right V es slot \<longleftrightarrow>
     (case slot of None \<Rightarrow> True | Some (covered, m) \<Rightarrow> covered \<le> length es \<and> V (take covered es) m)"

definition history_inv ::
  "('e, 'k, 'h, 'd) HistoryContext \<Rightarrow> ('e list \<Rightarrow> 'm \<Rightarrow> bool) \<Rightarrow> ('e, 'k, 'h, 'm) EventHistoryV1 \<Rightarrow> bool" where
  "history_inv C V hi \<longleftrightarrow>
     (\<not> stale hi \<longrightarrow> counts_right C (events hi) (counts hi)) \<and>
     chain_right C (events hi) (chain hi) \<and> memo_right V (events hi) (prefix_slot hi)"

lemma kind_count_simps [simp]:
  "kind_count C k [] = 0"
  "kind_count C k (es @ fs) = kind_count C k es + kind_count C k fs"
  "kind_count C k (e # es) = (if kind_v1 C e = k then 1 else 0) + kind_count C k es"
  by (auto simp: kind_count_def)

lemma counts_up: "counts_right C (as @ bs) cs \<Longrightarrow> counts_right C (as @ e # bs) (count_up C e cs)"
  by (auto simp: counts_right_def count_up_def)

lemma counts_down: "counts_right C (as @ e # bs) cs \<Longrightarrow> counts_right C (as @ bs) (count_down C e cs)"
  by (auto simp: counts_right_def count_down_def)

lemma fold_count_up:
  "counts_right C ds cs \<Longrightarrow> counts_right C (ds @ es) (fold (count_up C) es cs)"
proof (induction es arbitrary: ds cs)
  case (Cons e es)
  then show ?case using Cons.IH[of "ds @ [e]"] counts_up[of C ds "[]"] by fastforce
qed simp

lemma settle_inv:
  assumes "history_inv C V hi"
  shows "events (settle C hi) = events hi" "counts_right C (events hi) (counts (settle C hi))"
    "chain (settle C hi) = chain hi" "prefix_slot (settle C hi) = prefix_slot hi" "\<not> stale (settle C hi)"
  using assms fold_count_up[of C "[]" "\<lambda>_. 0" "events hi"]
  by (auto simp: settle_def history_inv_def counts_right_def)

lemma filter_length_mono: "length (filter P (filter Q xs)) \<le> length (filter P xs)"
  by (induction xs) auto

lemma chain_keep_right:
  assumes "chain_right C es ch" "take n fs = take n es" "n \<le> length fs"
  shows "chain_right C fs (chain_keep n ch)"
proof -
  have "h = digest_state C (take c fs)" if "(c, h) \<in> set ch" "c \<le> n" for c h
  proof -
    have "take c fs = take c es"
      using that(2) assms(2) by (metis min.absorb1 take_take)
    then show ?thesis using assms(1) that(1) by (auto simp: chain_right_def)
  qed
  moreover have "sorted_wrt (<) (map fst (chain_keep n ch))"
    using assms(1) by (auto simp: chain_right_def chain_keep_def sorted_wrt_map intro: sorted_wrt_filter)
  moreover have "length (filter (recent \<circ> fst) (chain_keep n ch)) \<le> CHAIN_V2_PREFIXES"
    using assms(1) filter_length_mono[of "recent \<circ> fst" "\<lambda>(c, _). c \<le> n" ch]
    by (auto simp: chain_right_def chain_keep_def)
  ultimately show ?thesis using assms(3) by (auto simp: chain_right_def chain_keep_def)
qed

lemma slot_keep_right:
  assumes "memo_right V es slot" "take n fs = take n es" "n \<le> length fs"
  shows "memo_right V fs (slot_keep n slot)"
proof -
  have "take c fs = take c es" if "c \<le> n" for c
    using that assms(2) by (metis min.absorb1 take_take)
  then show ?thesis using assms by (auto simp: memo_right_def slot_keep_def split: option.splits)
qed

text \<open>Appending keeps every prefix.\<close>

lemma append_right:
  "chain_right C es ch \<Longrightarrow> chain_right C (es @ fs) ch" "memo_right V es slot \<Longrightarrow> memo_right V (es @ fs) slot"
  by (fastforce simp: chain_right_def, auto simp: memo_right_def split: option.splits)

lemma empty_right [simp]: "chain_right C es []" "memo_right V es None"
  by (auto simp: chain_right_def memo_right_def)

section \<open>The digest agrees with hashing everything\<close>

lemma drop_recent_subset: "set (drop_recent n ch) \<subseteq> set ch"
  by (induction n ch rule: drop_recent.induct) auto

lemma drop_recent_sorted:
  "sorted_wrt (<) (map fst ch) \<Longrightarrow> sorted_wrt (<) (map fst (drop_recent n ch))"
proof (induction n ch rule: drop_recent.induct)
  case (2 n c h ch)
  then show ?case
    using drop_recent_subset[of n ch] by (cases "n > 0 \<and> recent c") (simp_all, blast+)
qed simp

lemma drop_recent_length:
  "length (filter (recent \<circ> fst) (drop_recent n ch)) = length (filter (recent \<circ> fst) ch) - n"
  by (induction n ch rule: drop_recent.induct) auto

lemma chain_set_right:
  assumes "chain_right C es ch" "sorted_wrt (<) (map fst added)"
    and "\<And>c h. (c, h) \<in> set added \<Longrightarrow> c \<le> length es \<and> h = digest_state C (take c es)"
  shows "chain_right C es (chain_set added ch)"
proof (cases added)
  case (Cons row more)
  obtain shortest h where row: "row = (shortest, h)" by (cases row)
  let ?prefixes = "filter (\<lambda>(covered, _). covered < shortest) ch @ added"
  have "sorted_wrt (<) (map fst (filter (\<lambda>(covered, _). covered < shortest) ch))"
    using assms(1) by (auto simp: chain_right_def sorted_wrt_map intro: sorted_wrt_filter)
  moreover have "shortest \<le> c" if "c \<in> fst ` set added" for c
    using that assms(2) Cons row by auto
  ultimately have sorted: "sorted_wrt (<) (map fst ?prefixes)"
    using assms(2) by (fastforce simp: sorted_wrt_append)
  have recent: "(\<lambda>(covered, _). recent covered) = recent \<circ> fst" by (auto simp: fun_eq_iff)
  have members: "c \<le> length es \<and> k = digest_state C (take c es)" if "(c, k) \<in> set ?prefixes" for c k
    using that assms(1,3) by (auto simp: chain_right_def)
  let ?excess = "length (filter (recent \<circ> fst) ?prefixes) - CHAIN_V2_PREFIXES"
  have "chain_set added ch = drop_recent ?excess ?prefixes"
    by (simp add: chain_set_def Cons row Let_def recent)
  moreover have "chain_right C es (drop_recent ?excess ?prefixes)"
    unfolding chain_right_def drop_recent_length
    using members drop_recent_subset[of ?excess ?prefixes] drop_recent_sorted[OF sorted, of ?excess]
    by (intro conjI) (blast, assumption, arith)
  ultimately show ?thesis by simp
qed (use assms(1) in \<open>simp add: chain_set_def\<close>)

lemma digest_state_snoc: "digest_state C (es @ [e]) = absorb C e (digest_state C es)"
  by (simp add: digest_state_def)

lemma digest_loop_right:
  assumes "es = take pos es @ fs" "pos \<le> length es" "h = digest_state C (take pos es)"
    and "sorted_wrt (<) (map fst added)" "\<forall>(c, k) \<in> set added. c < pos \<and> k = digest_state C (take c es)"
  shows "\<exists>new. digest_loop C covered pos fs h added = (digest_state C es, new) \<and>
    sorted_wrt (<) (map fst new) \<and> (\<forall>(c, k) \<in> set new. c < length es \<and> k = digest_state C (take c es))"
  using assms
proof (induction fs arbitrary: pos h added)
  case Nil
  then have "pos = length es" by (metis append_Nil2 length_take min.absorb2)
  then show ?case using Nil by auto
next
  case (Cons e fs)
  let ?added = "if pos > covered \<and> pos mod CHAIN_V2_STRIDE = 0 then added @ [(pos, h)] else added"
  have len: "length es = pos + length (e # fs)"
    using Cons.prems(1,2) by (metis length_append length_take min.absorb2)
  have "drop pos es = e # fs"
    using Cons.prems(1,2) by (metis append_eq_conv_conj length_take min.absorb2)
  then have "es ! pos = e" using len by (metis hd_drop_conv_nth less_add_same_cancel1 length_greater_0_conv list.sel(1) list.simps(3))
  then have next_take: "take (Suc pos) es = take pos es @ [e]"
    using len by (simp add: take_Suc_conv_app_nth)
  have 1: "sorted_wrt (<) (map fst ?added)"
    using Cons.prems(4,5) by (auto simp: sorted_wrt_append)
  have 2: "\<forall>(c, k) \<in> set ?added. c < Suc pos \<and> k = digest_state C (take c es)"
    using Cons.prems(3,5) by (auto split: if_splits)
  have 3: "es = take (Suc pos) es @ fs" using Cons.prems(1) next_take by simp
  have 4: "absorb C e h = digest_state C (take (Suc pos) es)"
    using Cons.prems(3) next_take digest_state_snoc[of C] by simp
  show ?case using Cons.IH[OF 3 _ 4 1 2] len by simp
qed

lemma find_in_set: "find P xs = Some x \<Longrightarrow> x \<in> set xs"
  by (induction xs) (auto split: if_splits)

lemma longest_right:
  assumes "chain_right C es ch" "longest (length es) ch = Some (c, h)"
  shows "c \<le> length es" "h = digest_state C (take c es)"
proof -
  have "(c, h) \<in> set ch"
    using find_in_set[of "\<lambda>(covered, _). covered \<le> length es" "rev ch" "(c, h)"] assms(2)
    by (simp add: longest_def)
  then show "c \<le> length es" "h = digest_state C (take c es)"
    using assms(1) by (auto simp: chain_right_def)
qed

lemma chain_digest_right:
  assumes "history_inv C V hi"
  obtains ch where "chain_digest_v2 C hi = (sha_finalize C (digest_state C (events hi)), hi\<lparr>chain := ch\<rparr>)"
    "chain_right C (events hi) ch"
proof -
  obtain c h where start: "(case longest (length (events hi)) (chain hi) of None \<Rightarrow> (0, chain_start C) | Some ch \<Rightarrow> ch) = (c, h)"
    "c \<le> length (events hi)" "h = digest_state C (take c (events hi))"
  proof (cases "longest (length (events hi)) (chain hi)")
    case None
    note found = this
    show thesis
    proof (rule that[of 0 "chain_start C"])
      show "(case longest (length (events hi)) (chain hi) of None \<Rightarrow> (0, chain_start C) | Some ch \<Rightarrow> ch) = (0, chain_start C)"
        unfolding found by simp
      show "chain_start C = digest_state C (take 0 (events hi))" by (simp add: digest_state_def)
    qed simp
  next
    case (Some row)
    obtain c h where row: "row = (c, h)" by (cases row)
    have "chain_right C (events hi) (chain hi)" using assms by (simp add: history_inv_def)
    note found = Some[unfolded row]
    show thesis
    proof (rule that[of c h])
      show "(case longest (length (events hi)) (chain hi) of None \<Rightarrow> (0, chain_start C) | Some ch \<Rightarrow> ch) = (c, h)"
        unfolding found by simp
    qed (fact longest_right[OF \<open>chain_right C (events hi) (chain hi)\<close> found])+
  qed
  obtain new where new: "digest_loop C c c (drop c (events hi)) h [] = (digest_state C (events hi), new)"
    "sorted_wrt (<) (map fst new)"
    "\<forall>(i, k) \<in> set new. i < length (events hi) \<and> k = digest_state C (take i (events hi))"
    using digest_loop_right[of "events hi" c "drop c (events hi)" h C "[]" c] start(2,3) by auto
  have "chain_right C (events hi) (chain_set (new @ [(length (events hi), digest_state C (events hi))]) (chain hi))"
    using assms new by (intro chain_set_right) (fastforce simp: history_inv_def sorted_wrt_append)+
  then show thesis
    using that start(1) new(1) by (simp add: chain_digest_v2_def)
qed

section \<open>Every operation keeps the invariant\<close>

lemmas right_defs = history_inv_def keep_first_def forget_def Let_def

lemma history_push_inv:
  assumes "history_inv C V hi"
  shows "history_inv C V (history_push C e hi)" "events (history_push C e hi) = events hi @ [e]"
  using settle_inv[OF assms] assms counts_up[of C "events hi" "[]"] append_right
  by (auto simp: history_push_def right_defs)

lemma extend_inv:
  assumes "history_inv C V hi"
  shows "history_inv C V (history_extend C es hi) \<and> events (history_extend C es hi) = events hi @ es"
  using assms
proof (induction es arbitrary: hi)
  case (Cons e es)
  then show ?case using Cons.IH[OF history_push_inv(1)[OF Cons.prems]] history_push_inv(2)[OF Cons.prems]
    by (simp add: history_extend_def)
qed (simp add: history_extend_def)

lemma settle_parts:
  assumes "history_inv C V hi"
  shows "chain_right C (events hi) (chain hi)" "memo_right V (events hi) (prefix_slot hi)"
  using assms by (auto simp: history_inv_def)

lemma insert_inv:
  assumes "history_inv C V hi" "history_insert C n e hi = Some t"
  shows "history_inv C V t \<and> n \<le> length (events hi) \<and> events t = take n (events hi) @ e # drop n (events hi)"
proof -
  have n: "n \<le> length (events hi)" and t: "events t = take n (events hi) @ e # drop n (events hi)"
    "chain t = chain_keep n (chain hi)" "prefix_slot t = slot_keep n (prefix_slot hi)"
    "counts t = count_up C e (counts (settle C hi))"
    using assms settle_inv[OF assms(1)] by (auto simp: history_insert_def right_defs split: if_splits)
  have "counts_right C (take n (events hi) @ e # drop n (events hi)) (counts t)"
    using settle_inv(2)[OF assms(1)] t(4) counts_up[of C "take n (events hi)" "drop n (events hi)"] by simp
  then show ?thesis
    using n t chain_keep_right[OF settle_parts(1)[OF assms(1)], of n] slot_keep_right[OF settle_parts(2)[OF assms(1)], of n]
    by (auto simp: history_inv_def)
qed

lemma remove_inv:
  assumes "history_inv C V hi" "history_remove C n hi = Some (e, t)"
  shows "history_inv C V t \<and> n < length (events hi) \<and> events t = take n (events hi) @ drop (Suc n) (events hi)"
proof -
  have n: "n < length (events hi)" and t: "events t = take n (events hi) @ drop (Suc n) (events hi)"
    "chain t = chain_keep n (chain hi)" "prefix_slot t = slot_keep n (prefix_slot hi)"
    "counts t = count_down C (events hi ! n) (counts (settle C hi))"
    using assms settle_inv[OF assms(1)] by (auto simp: history_remove_def right_defs split: if_splits)
  have "counts_right C (events t) (counts t)"
    using settle_inv(2)[OF assms(1)] t counts_down[of C "take n (events hi)" "events hi ! n" "drop (Suc n) (events hi)"]
      id_take_nth_drop[OF n] by simp
  then show ?thesis
    using n t chain_keep_right[OF settle_parts(1)[OF assms(1)], of n] slot_keep_right[OF settle_parts(2)[OF assms(1)], of n]
    by (auto simp: history_inv_def)
qed

lemma pop_inv:
  assumes "history_inv C V hi"
  shows "history_inv C V (snd (history_pop C hi)) \<and> events (snd (history_pop C hi)) = butlast (events hi)"
proof (cases "events hi = []")
  case True
  then show ?thesis using settle_inv[OF assms] assms by (auto simp: history_pop_def right_defs)
next
  case False
  let ?es = "butlast (events hi)"
  have "counts_right C ?es (count_down C (last (events hi)) (counts (settle C hi)))"
    using settle_inv(2)[OF assms] counts_down[of C ?es "last (events hi)" "[]"] False by simp
  then show ?thesis
    using False settle_inv[OF assms] chain_keep_right[OF settle_parts(1)[OF assms], of "length ?es" ?es]
      slot_keep_right[OF settle_parts(2)[OF assms], of "length ?es" ?es]
    by (auto simp: history_pop_def right_defs butlast_conv_take)
qed

lemma fold_count_down: "counts_right C (ds @ es) cs \<Longrightarrow> counts_right C ds (fold (count_down C) es cs)"
proof (induction es arbitrary: cs)
  case (Cons e es)
  then show ?case using counts_down[of C ds e es] by simp
qed simp

lemma fold_retained:
  "counts_right C (ds @ es) cs \<Longrightarrow>
   counts_right C (ds @ filter P es) (fold (\<lambda>e cs. if P e then cs else count_down C e cs) es cs)"
proof (induction es arbitrary: ds cs)
  case (Cons e es)
  show ?case
    using Cons.IH[of "ds @ [e]"] Cons.IH[of ds] Cons.prems counts_down[of C ds e es] by auto
qed simp

lemma retain_inv:
  assumes "history_inv C V hi"
  shows "history_inv C V (history_retain C P hi)" "events (history_retain C P hi) = filter P (events hi)"
  using settle_inv[OF assms] fold_retained[of C "[]"] by (auto simp: history_retain_def right_defs)

lemma truncate_inv:
  assumes "history_inv C V hi"
  shows "history_inv C V (history_truncate C n hi)" "events (history_truncate C n hi) = take n (events hi)"
proof -
  have kept: "chain_right C (take n (events hi)) (chain_keep n (chain hi))"
    "memo_right V (take n (events hi)) (slot_keep n (prefix_slot hi))"
  proof -
    show "chain_right C (take n (events hi)) (chain_keep n (chain hi))"
    proof (cases "n \<le> length (events hi)")
      case False
      then have "chain_keep n (chain hi) = chain hi"
        using settle_parts(1)[OF assms] by (fastforce simp: chain_keep_def chain_right_def intro!: filter_True)
      then show ?thesis using settle_parts(1)[OF assms] False by simp
    qed (use chain_keep_right[OF settle_parts(1)[OF assms], of n "take n (events hi)"] in simp)
    show "memo_right V (take n (events hi)) (slot_keep n (prefix_slot hi))"
      using settle_parts(2)[OF assms] by (auto simp: memo_right_def slot_keep_def min_def split: option.splits)
  qed
  have "counts_right C (take n (events hi)) (fold (count_down C) (drop n (events hi)) (counts (settle C hi)))"
    using fold_count_down[of C "take n (events hi)" "drop n (events hi)"] settle_inv(2)[OF assms] by simp
  then show "history_inv C V (history_truncate C n hi)" "events (history_truncate C n hi) = take n (events hi)"
    using kept settle_inv[OF assms] by (auto simp: history_truncate_def right_defs)
qed

lemma prefix_inv:
  assumes "history_inv C V hi"
  shows "history_inv C V (prefix_v1 C n hi)" "events (prefix_v1 C n hi) = take n (events hi)"
proof -
  let ?len = "min n (length (events hi))"
  have "history_inv C V \<lparr>events = take ?len (events hi), counts = (\<lambda>_. 0), stale = True, chain = [], prefix_slot = None\<rparr>"
    by (simp add: history_inv_def)
  note fresh = settle_inv[OF this]
  have "chain_right C (take ?len (events hi)) (chain_keep ?len (chain hi))"
    "memo_right V (take ?len (events hi)) (slot_keep ?len (prefix_slot hi))"
    using chain_keep_right[OF settle_parts(1)[OF assms], of ?len "take ?len (events hi)"]
      slot_keep_right[OF settle_parts(2)[OF assms], of ?len "take ?len (events hi)"] by auto
  then show "history_inv C V (prefix_v1 C n hi)" "events (prefix_v1 C n hi) = take n (events hi)"
    using fresh by (auto simp: prefix_v1_def history_from_def history_inv_def Let_def min_def)
qed

lemma reset_inv:
  "history_inv C V (history_clear hi)" "events (history_clear hi) = []"
  "history_inv C V ((deref_mut hi)\<lparr>events := es\<rparr>)"
  by (auto simp: history_clear_def deref_mut_def counts_right_def history_inv_def forget_def)

lemma remember_inv:
  assumes "history_inv C (\<lambda>es m. m = derive es) hi"
  shows "history_inv C (\<lambda>es m. m = derive es) (set_prefix_memo_v1 n (derive (take n (events hi))) hi)"
    "events (set_prefix_memo_v1 n m hi) = events hi"
  using assms by (auto simp: history_inv_def set_prefix_memo_v1_def memo_right_def)

lemma out_of_range:
  "history_insert C n e hi = None \<longleftrightarrow> n > length (events hi)"
  "history_remove C n hi = None \<longleftrightarrow> n \<ge> length (events hi)"
  by (auto simp: history_insert_def history_remove_def settle_def keep_first_def Let_def)

lemma step_inv:
  assumes "history_inv C (\<lambda>es m. m = derive es) hi"
  shows "history_inv C (\<lambda>es m. m = derive es) (snd (history_step C derive op hi)) \<and>
    events (snd (history_step C derive op hi)) = vec_step op (events hi)"
proof (cases op)
  case (Insert n e)
  then show ?thesis
    using insert_inv[OF assms, of n e] out_of_range(1)[of C n e hi] assms
    by (cases "history_insert C n e hi") auto
next
  case (Remove n)
  then show ?thesis
    using remove_inv[OF assms, of n] out_of_range(2)[of C n hi] assms
    by (cases "history_remove C n hi") auto
next
  case Digest
  obtain ch where "chain_digest_v2 C hi = (sha_finalize C (digest_state C (events hi)), hi\<lparr>chain := ch\<rparr>)"
    "chain_right C (events hi) ch"
    by (rule chain_digest_right[OF assms])
  then show ?thesis using assms Digest by (simp add: history_inv_def)
qed (use history_push_inv[OF assms] extend_inv[OF assms] pop_inv[OF assms] retain_inv[OF assms] truncate_inv[OF assms]
    prefix_inv[OF assms] remember_inv[OF assms] in \<open>simp_all add: reset_inv\<close>)

text \<open>The operations of this theory keep the invariant whatever order they are called in.\<close>

interpretation history: fallible_machine "history_step C derive" "history_inv C (\<lambda>es m. m = derive es)"
  for C :: "('e, 'k, 'h, 'd) HistoryContext" and derive :: "'e list \<Rightarrow> 'm"
  by unfold_locales (simp add: step_inv)

lemma new_inv: "history_inv C V history_new"
  by (simp add: history_new_def history_inv_def counts_right_def)

lemma run_events:
  assumes "history_inv C (\<lambda>es m. m = derive es) hi"
  shows "events (run_ops (history_step C derive) ops hi) = fold vec_step ops (events hi)"
  using assms
proof (induction ops arbitrary: hi)
  case (Cons op ops)
  then show ?case using step_inv[OF Cons.prems, of op] by simp
qed simp

lemma fold_unchanged: "(\<And>e a. e \<in> set es \<Longrightarrow> f e a = a) \<Longrightarrow> fold f es a = a"
  by (induction es) auto

lemma skipped_scan:
  assumes "history_inv C V hi" "length (events hi) < 2 ^ 32" "\<And>e a. kind_v1 C e \<notin> set kinds \<Longrightarrow> f e a = a"
  shows "fold f (scan_for_v1 kinds hi) a = fold f (events hi) a"
proof (cases "has_any kinds hi")
  case False
  have "kind_v1 C e \<notin> set kinds" if "e \<in> set (events hi)" for e
  proof
    assume "kind_v1 C e \<in> set kinds"
    then have "word_of_nat (kind_count C (kind_v1 C e) (events hi)) = (0 :: u32)"
      using False assms(1) by (auto simp: has_any_def history_inv_def counts_right_def)
    moreover have "kind_count C (kind_v1 C e) (events hi) < 2 ^ 32"
      using assms(2) length_filter_le[of "\<lambda>ea. kind_v1 C ea = kind_v1 C e" "events hi"]
      unfolding kind_count_def by linarith
    ultimately have "kind_count C (kind_v1 C e) (events hi) = 0"
      using word_of_nat_inj_bound[of "kind_count C (kind_v1 C e) (events hi)" 0, where 'l = 32] by simp
    then show False using that by (auto simp: kind_count_def filter_empty_conv)
  qed
  then have "fold f (events hi) a = a"
    using assms(3) by (intro fold_unchanged) auto
  then show ?thesis using False by (simp add: scan_for_v1_def)
qed (simp add: scan_for_v1_def)

text \<open>Besides the sixteen recent states one state is kept for every sixty-fourth prefix.\<close>

lemma chain_length:
  assumes "chain_right C es ch"
  shows "length ch \<le> 17 + length es div 64"
proof -
  have "length (filter (\<lambda>row. \<not> recent (fst row)) ch) \<le> length es div 64 + 1"
  proof -
    have "distinct (map fst ch)" using assms strict_sorted_iff by (auto simp: chain_right_def)
    then have "length (filter (\<lambda>row. \<not> recent (fst row)) ch) = card (fst ` set (filter (\<lambda>row. \<not> recent (fst row)) ch))"
      by (metis distinct_card distinct_map_filter length_map set_map)
    also have "fst ` set (filter (\<lambda>row. \<not> recent (fst row)) ch) \<subseteq> (\<lambda>n. 64 * n) ` {..length es div 64}"
      using assms by (fastforce simp: chain_right_def recent_def CHAIN_V2_STRIDE_def mod_eq_0_iff_dvd elim!: dvdE
          intro: div_le_mono)
    then have "card (fst ` set (filter (\<lambda>row. \<not> recent (fst row)) ch)) \<le> card {..length es div 64}"
      by (meson card_image_le card_mono finite_atMost finite_imageI le_trans)
    finally show ?thesis by simp
  qed
  moreover have "length ch = length (filter (recent \<circ> fst) ch) + length (filter (\<lambda>row. \<not> recent (fst row)) ch)"
    using sum_length_filter_compl[of "recent \<circ> fst" ch] by (simp add: comp_def)
  ultimately show ?thesis
    using assms by (auto simp: chain_right_def CHAIN_V2_PREFIXES_def)
qed

section \<open>Property\<close>

text \<open>C29. Whatever operations are applied to a fresh history, in any order, mutable borrows
  included: its events are those of a plain vector under the same operations; its digest is the
  hash of all of them from the beginning; a memo it returns describes the first events it has; it
  stores at most seventeen hash states and one more for every sixty-four events; and, as long as
  it holds fewer than 2^32 events, a scan that acts only on some kinds gives the same result over
  \<^verbatim>\<open>scan_for_v1\<close> as over all events.\<close>

theorem history_refines_vector:
  fixes C :: "('e, 'k, 'h, 'd) HistoryContext" and derive :: "'e list \<Rightarrow> 'm" and f :: "'e \<Rightarrow> 'a \<Rightarrow> 'a"
  shows "let hi = run_ops (history_step C derive) ops history_new in
    events hi = fold vec_step ops [] \<and>
    fst (chain_digest_v2 C hi) = sha_finalize C (fold (absorb C) (fold vec_step ops []) (chain_start C)) \<and>
    (case prefix_memo_v1 hi of None \<Rightarrow> True
     | Some (covered, m) \<Rightarrow> covered \<le> length (events hi) \<and> m = derive (take covered (events hi))) \<and>
    length (chain hi) \<le> 17 + length (events hi) div 64 \<and>
    (length (events hi) < 2 ^ 32 \<and> (\<forall>e a. kind_v1 C e \<notin> set kinds \<longrightarrow> f e a = a) \<longrightarrow>
       fold f (scan_for_v1 kinds hi) a = fold f (events hi) a)"
proof -
  let ?hi = "run_ops (history_step C derive) ops (history_new :: ('e, 'k, 'h, 'm) EventHistoryV1)"
  have inv: "history_inv C (\<lambda>es m. m = derive es) ?hi"
    by (rule history.run_inv) (rule new_inv)
  have es: "events ?hi = fold vec_step ops []"
    using run_events[OF new_inv, of C derive ops] by (simp add: history_new_def)
  obtain ch where "chain_digest_v2 C ?hi = (sha_finalize C (digest_state C (events ?hi)), ?hi\<lparr>chain := ch\<rparr>)"
    by (rule chain_digest_right[OF inv])
  moreover have "case prefix_memo_v1 ?hi of None \<Rightarrow> True
     | Some (covered, m) \<Rightarrow> covered \<le> length (events ?hi) \<and> m = derive (take covered (events ?hi))"
    using settle_parts(2)[OF inv] by (auto simp: prefix_memo_v1_def memo_right_def split: option.splits)
  ultimately show ?thesis
    using es chain_length[OF settle_parts(1)[OF inv]] skipped_scan[OF inv, of kinds f a]
    by (simp add: digest_state_def)
qed

definition demo_context :: "(nat, bool, u8 list, u8 list) HistoryContext" where
  "demo_context =
     \<lparr>kind_v1 = even, event_json = (\<lambda>n. [word_of_nat n]), sha_new = [], sha_update = (\<lambda>bs h. h @ bs),
      sha_finalize = id\<rparr>"

definition demo_ops :: "nat HistoryOp list" where
  "demo_ops = [Push 1, Push 3, Digest, Remember 2, Push 5, Mutate rev, Push 7, Digest, Pop, Remove 9]"

theorem history_refines_vector_witness:
  "let hi = run_ops (history_step demo_context length) demo_ops history_new in
     events hi = [5, 3, 1] \<and>
     fst (chain_digest_v2 demo_context hi) =
       chain_domain @ [1, 0, 0, 0, 0, 0, 0, 0, 5, 1, 0, 0, 0, 0, 0, 0, 0, 3, 1, 0, 0, 0, 0, 0, 0, 0, 1] \<and>
     fold (\<lambda>n a. if even n then a + n else a) (scan_for_v1 [True] hi) 0 = 0"
proof -
  have es: "fold vec_step demo_ops [] = [5, 3, 1]" by (simp add: demo_ops_def)
  have "(8 :: nat) = Suc (Suc (Suc (Suc (Suc (Suc (Suc (Suc 0)))))))" by simp
  then have "le_bytes_u64 1 = [1, 0, 0, 0, 0, 0, 0, 0]"
    unfolding le_bytes_u64_def by (simp only: be_bytes.simps) simp
  then have absorbed: "absorb demo_context n h = h @ [1, 0, 0, 0, 0, 0, 0, 0, word_of_nat n]"
    "chain_start demo_context = chain_domain" "sha_finalize demo_context h = h" for n h
    by (simp_all add: absorb_def chain_start_def demo_context_def)
  define hi :: "(nat, bool, u8 list, nat) EventHistoryV1" where
    "hi = run_ops (history_step demo_context length) demo_ops history_new"
  have acts: "\<forall>e a. kind_v1 demo_context e \<notin> set [True] \<longrightarrow> (if even e then a + e else a) = (a :: nat)"
    by (simp add: demo_context_def)
  have all: "events hi = [5, 3, 1] \<and>
      fst (chain_digest_v2 demo_context hi) = fold (absorb demo_context) [5, 3, 1] chain_domain \<and>
      fold (\<lambda>n a. if even n then a + n else a) (scan_for_v1 [True] hi) 0 =
      fold (\<lambda>n a. if even n then a + n else a) (events hi) 0"
    using history_refines_vector[where C = demo_context and derive = length and ops = demo_ops and kinds = "[True]"
        and f = "\<lambda>n a. if even n then a + n else a" and a = 0] acts
    unfolding Let_def hi_def[symmetric] es absorbed(2,3) by simp
  have "fold (absorb demo_context) [5, 3, 1] chain_domain =
      chain_domain @ [1, 0, 0, 0, 0, 0, 0, 0, 5, 1, 0, 0, 0, 0, 0, 0, 0, 3, 1, 0, 0, 0, 0, 0, 0, 0, 1]"
    by (simp add: absorbed(1))
  then show ?thesis unfolding Let_def hi_def[symmetric] using all by simp
qed

end
