(* ===== verification/Spec2Isabelle.thy ===== *)
theory Spec2Isabelle
  imports Mana_Planner Bo3_Session London_Mulligan Combat_Fixed Turn_Order
    Json_Serialize Json_Max Staleness State_Based Event_History
begin

text \<open>
  Verification of the Magic: The Gathering kernel (\<^verbatim>\<open>mtg-kernel/\<close>), a deterministic rules engine
  written in Rust, with the training system built around it.

  \<^bold>\<open>The program.\<close> A game is a value \<^verbatim>\<open>GameState\<close> (\<^verbatim>\<open>state.rs\<close>): an append-only arena of
  card objects, the players with their ordered libraries, hands and graveyards, what each player
  is entitled to know, the combat in progress, the turn, and many optional records of decisions
  that wait for an answer. \<^verbatim>\<open>engine.rs\<close> advances it from one decision to the next; card effects
  (\<^verbatim>\<open>effect.rs\<close>), events (\<^verbatim>\<open>event.rs\<close>) and triggers (\<^verbatim>\<open>trigger.rs\<close>) change it. Randomness comes
  from seeded generators, so that a run can be replayed. Around the game are best-of-three
  matches with sideboarding, and a training system: sessions that play games for learning agents,
  a store of canonical JSON documents identified by their hash, and an actor/learner pair that
  trains while games of a bounded age are being produced.

  \<^bold>\<open>Conventions.\<close> A Rust struct is a record or a one-constructor datatype with the fields of the
  source, an enum is a datatype, \<^verbatim>\<open>Result\<close> is a sum (\<open>Inl\<close> the error) sequenced by \<open>try\<close>, and
  \<^verbatim>\<open>u8\<close> to \<^verbatim>\<open>u64\<close> are words with the checked, wrapping and saturating operations of \<open>Prelude\<close>.
  A \<^verbatim>\<open>&mut\<close> parameter is returned updated; an operation that can fail half way returns the
  state it leaves together with its error. A panic (\<^verbatim>\<open>expect\<close>, \<^verbatim>\<open>unwrap\<close>, an index out of range)
  is a separate result. What lies outside a component (SHA-256, the card table, effective
  characteristics, event commits, policies) is an argument of the definitions that use it, and
  the state type has a further parameter for what the component does not touch.

  \<^bold>\<open>Theories.\<close> They are listed in the order in which they build on each other; each opens with
  what it holds.

  \<^item> \<open>Prelude\<close> (machine integers, \<^verbatim>\<open>Result\<close>, list lemmas shared by all parts) and \<open>Ids\<close>
    (\<^verbatim>\<open>ids.rs\<close>: players, object identities, the arena and its lookup/update laws).

  \<^item> \<open>Randomization\<close> (\<^verbatim>\<open>environment_randomization_v2.rs\<close>): SplitMix64, the Fisher-Yates shuffle,
    derivation of a seed per owner, purpose and ordinal. A shuffle permutes; the generator has
    full period; different derivations hash different bytes.

  \<^item> \<open>Library\<close>, \<open>Library_Knowledge\<close>, \<open>Library_Shuffle\<close> (\<^verbatim>\<open>state.rs\<close>): draws, looks, reorders,
    scries, shuffles, and the facts the two players hold about library positions and hands.
    The facts stay true of the game over every run (\<open>knowledge_stays_true\<close>); a shuffle is a
    transaction of a token that is checked first and committed later.

  \<^item> \<open>Zone_Change\<close> (\<^verbatim>\<open>event.rs\<close>: \<^verbatim>\<open>materialize_zone_change_v1\<close>, \<^verbatim>\<open>remove_from_zone\<close>): a card moves
    to the position asked for, in a new incarnation, and exactly the entitled players learn where
    it is. \<open>London_Mulligan\<close> (\<^verbatim>\<open>london_mulligan_v1.rs\<close>) runs on the operations of \<open>Library\<close> and
    on this move.

  \<^item> \<open>Mana\<close>, \<open>Mana_Pay\<close>, \<open>Mana_Search\<close>, \<open>Mana_Planner\<close> (\<^verbatim>\<open>mana.rs\<close>): the solver that pays costs.
    \<open>pay_pips\<close> states what a payment is without any search; the backtracking search is shown to
    be sound and exhaustive with respect to it, and the planners (spells, abilities, Delve)
    inherit both.

  \<^item> \<open>Combat\<close>, \<open>Combat_Declare\<close>, \<open>Combat_Damage\<close>, \<open>Combat_Fixed\<close> (\<^verbatim>\<open>combat_damage_v1.rs\<close>,
    \<^verbatim>\<open>attack_target_v1.rs\<close> and the combat functions of \<^verbatim>\<open>engine.rs\<close>): declarations, the shape of
    the combat record, and the division of damage. Players divide damage by answering questions
    that halve a range; the legal divisions are exactly what the answers can reach, and the fixed
    assignment of other games is one of them.

  \<^item> \<open>Legend_Rule\<close>, \<open>State_Based\<close> (\<^verbatim>\<open>legend_rule_v1.rs\<close>, the sweep and the checkpoint of
    \<^verbatim>\<open>trigger.rs\<close>, \<^verbatim>\<open>cease_to_exist\<close> of \<^verbatim>\<open>event.rs\<close>): state-based actions, repeated until nothing
    changes. What the loop returns is settled; it ends because every sweep that changes something
    lowers a rank of the board; and the legend rule asks for each group of legends once and lets
    all of the pass happen in one batch.

  \<^item> \<open>Event_History\<close> (\<^verbatim>\<open>event_history_v1.rs\<close>): the record of committed events with its
    counts by kind, its resumable hash chain and its validator memo. It refines a plain vector:
    whatever is done to it, scans, digests and memos are those of the vector.

  \<^item> \<open>Turn_Order\<close> (\<^verbatim>\<open>extra_turn_v1.rs\<close>, \<^verbatim>\<open>advance_step\<close> of \<^verbatim>\<open>engine.rs\<close>): steps, turns and extra
    turns. The committed history of events is a log that replays to the scheduler's state.

  \<^item> \<open>Bo3_Match\<close> (\<^verbatim>\<open>bo3_match.rs\<close>), \<open>Sideboard\<close>, \<open>Sideboard_Exchange\<close>, \<open>Sideboard_Policy\<close>
    (\<^verbatim>\<open>sideboard.rs\<close>) and \<open>Bo3_Session\<close> (\<^verbatim>\<open>bo3_session.rs\<close>), which composes the two: each game
    of a match is prepared from the registered decks by the players' plans. Counters of a match
    are those its recorded games determine; a plan exchanges exactly the cards it lists.

  \<^item> \<open>Json\<close>, \<open>Json_Parse\<close>, \<open>Json_Exact\<close>, \<open>Json_Canonical\<close>, \<open>Json_Serialize\<close>, \<open>Json_Max\<close>
    (\<^verbatim>\<open>canonical_json_v1.rs\<close>): the codec of the training store. The parser accepts exactly the
    encodings of well-formed values; what a Rust \<^verbatim>\<open>Serialize\<close> implementation emits parses back;
    the closed maxima bound the length of every document of their grammar.

  \<^item> \<open>Staleness\<close> (\<^verbatim>\<open>bounded_staleness_async_v1.rs\<close> and the loop of its harness): producer thread,
    queue and trainer as a transition relation whose steps are the critical sections of the code.
    In every interleaving the age of a consumed batch is bounded, and the run ends.

  \<^bold>\<open>Interfaces.\<close> Where one part relies on another, or several operations share a contract, the
  contract is a locale: \<open>object_store\<close> (what a lookup in the arena returns after an update or an
  allocation), \<open>fallible_machine\<close> and \<open>atomic_machine\<close> (operations that keep an invariant over every
  run and change nothing when they refuse: matches, sessions, libraries, combat, the event history),
  \<open>prefix_code\<close> and \<open>prefix_code_pair\<close> (writers whose output can be cut off the front of a byte
  string in one way only: seed derivations and the canonical bytes of policies),
  \<open>element_parser\<close> (the parser of one JSON value, used by the container loops), \<open>sba_stage\<close> (a
  stage of the sweep of state-based actions: reporting no change leaves the board as it was and
  its condition satisfied, reporting one lowers the rank) and
  \<open>sticky_builder\<close> (builders of the serializer, whose first error sticks). Each is interpreted on
  the definitions of the model, in the theory of the part that provides it.

  \<^bold>\<open>Bounds and fuel.\<close> Loops over a list or a counter are structural recursions. The parser's
  container loops consume at least one byte per round, so they recur on the number of bytes
  left; \<open>element_parser\<close> shows that this never cuts a document short. The nesting of JSON values
  is bounded by the depth limit of the source, on which \<open>parse_value\<close> recurs. The mana search recurs
  on the pips, its alternatives on lists. The loop that asks for combat damage and the
  mulligan loop recur on the work that is left, and \<open>damage_assignment_terminates\<close> and
  \<open>mulligans_end\<close> show that they end. Progress of the asynchronous run is a measure of the state
  (\<open>async_run_completes\<close>). Integers keep their width wherever an overflow is possible: counters
  of turns, ordinals, batches, indices of games and sizes of documents fail or saturate as in the
  source. The loop of state-based actions has no bound in the code; it is a partial function
  whose value \<open>None\<close> is divergence.

  \<^bold>\<open>Not modelled.\<close> Casting, the stack and priority of
  \<^verbatim>\<open>engine.rs\<close>, effects, replacement effects, the matching of triggers and the card families: their functions act
  on the card table that \<^verbatim>\<open>build.rs\<close> generates, and are arguments where a modelled part calls
  them. The payment of costs with Convoke and the gathering of mana sources from the game. The
  learning sessions (\<^verbatim>\<open>rl.rs\<close>, \<^verbatim>\<open>rl_session.rs\<close>), tensor encodings, policy networks, search
  opponents and the file layer of the training store: floating point, file access and
  third-party libraries. The text of error messages. Branches of the optional cargo feature
  \<^verbatim>\<open>eternal-fixtures\<close> where a part names it.
\<close>

end
